theory Spec2Isabelle
  imports Main "HOL-Library.Word"
begin

section \<open>Data model\<close>

text \<open>
  The paragraph engine (\<^verbatim>\<open>ParsedText\<close>), its two line breakers and the hyphenation
  facade (\<^verbatim>\<open>Hyphenator\<close>) are embedded below. Strings are byte lists, \<^verbatim>\<open>uint16_t\<close> and
  \<^verbatim>\<open>uint32_t\<close> are words, \<^verbatim>\<open>size_t\<close> indices are natural numbers, and plain \<^verbatim>\<open>int\<close>
  variables are integers (their values stay far inside 32 bits for 16-bit widths and a
  16-bit viewport; the one computation where the width of the integer matters, the cost
  of a line, is written on 32-bit and 64-bit words).
\<close>

datatype Style = REGULAR | BOLD | ITALIC | BOLD_ITALIC

datatype BLOCK_STYLE = JUSTIFIED | LEFT_ALIGN | CENTER_ALIGN | RIGHT_ALIGN

text \<open>The renderer is an external collaborator: only its two measuring functions are used.\<close>

record GfxRenderer =
  getTextWidth :: "int \<Rightarrow> string \<Rightarrow> Style \<Rightarrow> int"
  getSpaceWidth :: "int \<Rightarrow> int"

record TextBlock =
  tb_words :: "string list"
  tb_wordXpos :: "16 word list"
  tb_wordStyles :: "Style list"
  tb_style :: BLOCK_STYLE

record ParsedText =
  words :: "string list"
  wordStyles :: "Style list"
  style :: BLOCK_STYLE
  extraParagraphSpacing :: bool
  hyphenationEnabled :: bool

section \<open>Soft hyphens and measuring\<close>

definition SOFT_HYPHEN_UTF8 :: string where
  "SOFT_HYPHEN_UTF8 = [CHR 0xC2, CHR 0xAD]"

definition SOFT_HYPHEN_BYTES :: nat where
  "SOFT_HYPHEN_BYTES = 2"

text \<open>\<^verbatim>\<open>std::string::find(needle, pos)\<close>: the first index at or after \<open>pos\<close> where the
  needle starts, \<open>None\<close> for \<^verbatim>\<open>npos\<close>.\<close>

fun find_in :: "string \<Rightarrow> string \<Rightarrow> nat option" where
  "find_in needle [] = (if needle = [] then Some 0 else None)"
| "find_in needle (c # cs) =
     (if take (length needle) (c # cs) = needle then Some 0
      else map_option Suc (find_in needle cs))"

definition str_find :: "string \<Rightarrow> string \<Rightarrow> nat \<Rightarrow> nat option" where
  "str_find w needle pos =
     (if length w < pos then None
      else map_option (\<lambda>p. pos + p) (find_in needle (drop pos w)))"

text \<open>\<^verbatim>\<open>std::string::erase(pos, n)\<close>.\<close>

definition erase :: "string \<Rightarrow> nat \<Rightarrow> nat \<Rightarrow> string" where
  "erase w pos n = take pos w @ drop (pos + n) w"

definition containsSoftHyphen :: "string \<Rightarrow> bool" where
  "containsSoftHyphen word = (str_find word SOFT_HYPHEN_UTF8 0 \<noteq> None)"

lemma find_in_bound:
  "find_in needle w = Some p \<Longrightarrow> p + length needle \<le> length w"
proof (induction w arbitrary: p)
  case Nil
  then show ?case by (simp split: if_splits)
next
  case (Cons c cs)
  show ?case
  proof (cases "take (length needle) (c # cs) = needle")
    case True
    from arg_cong [OF True, of length] have "length needle \<le> length (c # cs)"
      by (simp add: min_def split: if_splits)
    with True Cons.prems show ?thesis by simp
  next
    case False
    with Cons.prems obtain q where q: "find_in needle cs = Some q" "p = Suc q"
      by auto
    with Cons.IH [of q] show ?thesis by simp
  qed
qed

lemma str_find_bound:
  "str_find w needle pos = Some p \<Longrightarrow> pos \<le> p \<and> p + length needle \<le> length w"
  by (auto simp: str_find_def split: if_splits dest!: find_in_bound)

text \<open>The loop of \<^verbatim>\<open>stripSoftHyphensInPlace\<close>: find the next soft hyphen at or after
  \<open>pos\<close>, erase it, and search again from the same position.\<close>

function strip_loop :: "nat \<Rightarrow> string \<Rightarrow> string" where
  "strip_loop pos word =
     (case str_find word SOFT_HYPHEN_UTF8 pos of
        None \<Rightarrow> word
      | Some p \<Rightarrow> strip_loop p (erase word p SOFT_HYPHEN_BYTES))"
  by pat_completeness auto
termination
proof (relation "measure (\<lambda>(pos, word). length word)", goal_cases)
  case 1
  show ?case by simp
next
  case (2 pos word p)
  then have "p + 2 \<le> length word"
    by (auto dest!: str_find_bound simp: SOFT_HYPHEN_UTF8_def)
  then show ?case
    by (simp add: erase_def SOFT_HYPHEN_BYTES_def)
qed

definition stripSoftHyphensInPlace :: "string \<Rightarrow> string" where
  "stripSoftHyphensInPlace word = strip_loop 0 word"

text \<open>\<^verbatim>\<open>measureWordWidth\<close>: the renderer's width of the word without its soft hyphens,
  with a hyphen appended on request, truncated to \<^verbatim>\<open>uint16_t\<close> by the return type.\<close>

definition measureWordWidth ::
  "GfxRenderer \<Rightarrow> int \<Rightarrow> string \<Rightarrow> Style \<Rightarrow> bool \<Rightarrow> 16 word" where
  "measureWordWidth renderer fontId word sty appendHyphen =
     (let hasSoftHyphen = containsSoftHyphen word in
      if \<not> hasSoftHyphen \<and> \<not> appendHyphen
      then word_of_int (getTextWidth renderer fontId word sty)
      else
        let sanitized = word;
            sanitized = (if hasSoftHyphen then stripSoftHyphensInPlace sanitized else sanitized);
            sanitized = (if appendHyphen then sanitized @ [CHR ''-''] else sanitized)
        in word_of_int (getTextWidth renderer fontId sanitized sty))"

section \<open>The hyphenation facade\<close>

record CodepointInfo =
  cp_value :: "32 word"
  cp_byteOffset :: nat

record BreakInfo =
  byteOffset :: nat
  requiresInsertedHyphen :: bool

record LanguageHyphenator =
  breakIndexes :: "CodepointInfo list \<Rightarrow> nat list"
  minPrefix :: nat
  minSuffix :: nat

text \<open>
  \<^verbatim>\<open>Hyphenator.cpp\<close> uses the helpers of \<^verbatim>\<open>HyphenationCommon.h\<close> (decoding, trimming and
  the three codepoint classes) and the defaults of \<^verbatim>\<open>LiangWordConfig\<close>. They are
  parameters of the model, together with the facade's static \<^verbatim>\<open>cachedHyphenator_\<close>
  (\<open>None\<close> for the null pointer).
\<close>

record HyphenationCommon =
  collectCodepoints :: "string \<Rightarrow> CodepointInfo list"
  trimSurroundingPunctuationAndFootnote :: "CodepointInfo list \<Rightarrow> CodepointInfo list"
  isExplicitHyphen :: "32 word \<Rightarrow> bool"
  isAlphabetic :: "32 word \<Rightarrow> bool"
  isSoftHyphen :: "32 word \<Rightarrow> bool"
  kDefaultMinPrefix :: nat
  kDefaultMinSuffix :: nat
  cachedHyphenator :: "LanguageHyphenator option"

definition byteOffsetForIndex :: "CodepointInfo list \<Rightarrow> nat \<Rightarrow> nat" where
  "byteOffsetForIndex cps index =
     (if index < length cps then cp_byteOffset (cps ! index)
      else if cps = [] then 0 else cp_byteOffset (last cps))"

text \<open>The test of the scan in \<^verbatim>\<open>buildExplicitBreakInfos\<close>: codepoint \<open>i\<close> is an explicit
  hyphen (hard or soft) with a letter on each side.\<close>

definition explicitMarkerAt :: "HyphenationCommon \<Rightarrow> CodepointInfo list \<Rightarrow> nat \<Rightarrow> bool" where
  "explicitMarkerAt E cps i =
     (isExplicitHyphen E (cp_value (cps ! i))
      \<and> isAlphabetic E (cp_value (cps ! (i - 1)))
      \<and> isAlphabetic E (cp_value (cps ! (i + 1))))"

text \<open>The loop runs over \<open>i = 1, 2, ...\<close> while \<open>i + 1 < cps.size()\<close>.\<close>

definition buildExplicitBreakInfos :: "HyphenationCommon \<Rightarrow> CodepointInfo list \<Rightarrow> BreakInfo list" where
  "buildExplicitBreakInfos E cps =
     concat (map (\<lambda>i. if \<not> explicitMarkerAt E cps i then []
                      else [\<lparr>byteOffset = cp_byteOffset (cps ! (i + 1)),
                             requiresInsertedHyphen = isSoftHyphen E (cp_value (cps ! i))\<rparr>])
                 [1 ..< length cps - 1])"

text \<open>The fallback loop \<^verbatim>\<open>for (idx = minPrefix; idx + minSuffix <= cps.size(); ++idx)\<close>.\<close>

definition fallbackIndexes :: "nat \<Rightarrow> nat \<Rightarrow> nat \<Rightarrow> nat list" where
  "fallbackIndexes minPre minSuf n = [minPre ..< Suc n - minSuf]"

definition breakOffsets :: "HyphenationCommon \<Rightarrow> string \<Rightarrow> bool \<Rightarrow> BreakInfo list" where
  "breakOffsets E word includeFallback =
     (if word = [] then []
      else
        let cps = trimSurroundingPunctuationAndFootnote E (collectCodepoints E word);
            hyphenator = cachedHyphenator E;
            explicitBreakInfos = buildExplicitBreakInfos E cps
        in if explicitBreakInfos \<noteq> [] then explicitBreakInfos
           else
             let indexes = (case hyphenator of Some h \<Rightarrow> breakIndexes h cps | None \<Rightarrow> []);
                 indexes =
                   (if includeFallback \<and> indexes = []
                    then fallbackIndexes
                           (case hyphenator of Some h \<Rightarrow> minPrefix h | None \<Rightarrow> kDefaultMinPrefix E)
                           (case hyphenator of Some h \<Rightarrow> minSuffix h | None \<Rightarrow> kDefaultMinSuffix E)
                           (length cps)
                    else indexes)
             in if indexes = [] then []
                else map (\<lambda>idx. \<lparr>byteOffset = byteOffsetForIndex cps idx,
                                  requiresInsertedHyphen = True\<rparr>) indexes)"

section \<open>Splitting a word\<close>

text \<open>\<^verbatim>\<open>std::list::insert\<close> and \<^verbatim>\<open>std::vector::insert\<close> before position \<open>k\<close>.\<close>

definition insertAt :: "nat \<Rightarrow> 'a \<Rightarrow> 'a list \<Rightarrow> 'a list" where
  "insertAt k x xs = take k xs @ x # drop k xs"

text \<open>The body of the candidate loop of \<^verbatim>\<open>hyphenateWordAtIndex\<close>. The running choice is
  the triple \<open>(chosenOffset, chosenWidth, chosenNeedsHyphen)\<close>.\<close>

definition considerBreak ::
  "GfxRenderer \<Rightarrow> int \<Rightarrow> string \<Rightarrow> Style \<Rightarrow> int \<Rightarrow> nat \<times> int \<times> bool \<Rightarrow> BreakInfo
     \<Rightarrow> nat \<times> int \<times> bool" where
  "considerBreak renderer fontId word sty availableWidth chosen info =
     (let offset = byteOffset info in
      if offset = 0 \<or> length word \<le> offset then chosen
      else
        let needsHyphen = requiresInsertedHyphen info;
            prefixWidth = uint (measureWordWidth renderer fontId (take offset word) sty needsHyphen)
        in if availableWidth < prefixWidth \<or> prefixWidth \<le> fst (snd chosen) then chosen
           else (offset, prefixWidth, needsHyphen))"

definition chooseBreak ::
  "GfxRenderer \<Rightarrow> int \<Rightarrow> string \<Rightarrow> Style \<Rightarrow> int \<Rightarrow> BreakInfo list \<Rightarrow> nat \<times> int \<times> bool" where
  "chooseBreak renderer fontId word sty availableWidth breakInfos =
     foldl (considerBreak renderer fontId word sty availableWidth) (0, - 1, True) breakInfos"

text \<open>
  \<^verbatim>\<open>hyphenateWordAtIndex\<close> works on the engine's lists and on the caller's vector of
  cached widths; the model takes both and returns them with the result. The style list
  is as long as the word list and the index is inside the width vector at every call of
  the source; outside that, the model's \<open>!\<close>, list update and \<open>insertAt\<close> stand for
  what is undefined in the source.
\<close>

definition hyphenateWordAtIndex ::
  "HyphenationCommon \<Rightarrow> GfxRenderer \<Rightarrow> int \<Rightarrow> nat \<Rightarrow> int \<Rightarrow> bool
     \<Rightarrow> ParsedText \<Rightarrow> 16 word list \<Rightarrow> bool \<times> ParsedText \<times> 16 word list" where
  "hyphenateWordAtIndex E renderer fontId wordIndex availableWidth allowFallbackBreaks pt wordWidths =
     (if availableWidth \<le> 0 \<or> length (words pt) \<le> wordIndex then (False, pt, wordWidths)
      else
        let word = words pt ! wordIndex;
            sty = wordStyles pt ! wordIndex;
            breakInfos = breakOffsets E word allowFallbackBreaks
        in if breakInfos = [] then (False, pt, wordWidths)
           else
             let (chosenOffset, chosenWidth, chosenNeedsHyphen) =
                   chooseBreak renderer fontId word sty availableWidth breakInfos
             in if chosenWidth < 0 then (False, pt, wordWidths)
                else
                  let remainder = drop chosenOffset word;
                      prefix = take chosenOffset word @ (if chosenNeedsHyphen then [CHR ''-''] else []);
                      remainderWidth = measureWordWidth renderer fontId remainder sty False
                  in (True,
                      pt\<lparr>words := insertAt (Suc wordIndex) remainder ((words pt)[wordIndex := prefix]),
                         wordStyles := insertAt (Suc wordIndex) sty (wordStyles pt)\<rparr>,
                      insertAt (Suc wordIndex) remainderWidth
                        (wordWidths[wordIndex := word_of_int chosenWidth])))"

text \<open>A candidate takes part in the choice when its offset is inside the word and its
  prefix, measured with the hyphen it needs, fits the available width.\<close>

definition fittingBreak ::
  "GfxRenderer \<Rightarrow> int \<Rightarrow> string \<Rightarrow> Style \<Rightarrow> int \<Rightarrow> BreakInfo \<Rightarrow> bool" where
  "fittingBreak renderer fontId word sty availableWidth info =
     (0 < byteOffset info \<and> byteOffset info < length word
      \<and> uint (measureWordWidth renderer fontId (take (byteOffset info) word) sty
                 (requiresInsertedHyphen info)) \<le> availableWidth)"

definition prefixWidthOf :: "GfxRenderer \<Rightarrow> int \<Rightarrow> string \<Rightarrow> Style \<Rightarrow> BreakInfo \<Rightarrow> int" where
  "prefixWidthOf renderer fontId word sty info =
     uint (measureWordWidth renderer fontId (take (byteOffset info) word) sty
             (requiresInsertedHyphen info))"

lemma considerBreak_eq:
  "considerBreak renderer fontId word sty availableWidth chosen info =
     (if fittingBreak renderer fontId word sty availableWidth info
         \<and> fst (snd chosen) < prefixWidthOf renderer fontId word sty info
      then (byteOffset info, prefixWidthOf renderer fontId word sty info, requiresInsertedHyphen info)
      else chosen)"
  by (auto simp: considerBreak_def fittingBreak_def prefixWidthOf_def Let_def)

lemma foldl_considerBreak:
  "fst (snd acc) \<le> fst (snd (foldl (considerBreak renderer fontId word sty availableWidth) acc xs))
    \<and> (\<forall>info \<in> set xs. fittingBreak renderer fontId word sty availableWidth info
          \<longrightarrow> prefixWidthOf renderer fontId word sty info
                \<le> fst (snd (foldl (considerBreak renderer fontId word sty availableWidth) acc xs)))
    \<and> (foldl (considerBreak renderer fontId word sty availableWidth) acc xs = acc
        \<or> (\<exists>info \<in> set xs. fittingBreak renderer fontId word sty availableWidth info
              \<and> foldl (considerBreak renderer fontId word sty availableWidth) acc xs
                  = (byteOffset info, prefixWidthOf renderer fontId word sty info,
                     requiresInsertedHyphen info)))"
proof (induction xs arbitrary: acc)
  case Nil
  show ?case by simp
next
  case (Cons x xs)
  let ?f = "considerBreak renderer fontId word sty availableWidth"
  let ?a = "?f acc x"
  have step: "fst (snd acc) \<le> fst (snd ?a)"
    "fittingBreak renderer fontId word sty availableWidth x
       \<Longrightarrow> prefixWidthOf renderer fontId word sty x \<le> fst (snd ?a)"
    "?a = acc \<or> (fittingBreak renderer fontId word sty availableWidth x
       \<and> ?a = (byteOffset x, prefixWidthOf renderer fontId word sty x, requiresInsertedHyphen x))"
    by (auto simp: considerBreak_eq)
  from Cons.IH [of ?a] have ih:
    "fst (snd ?a) \<le> fst (snd (foldl ?f ?a xs))"
    "\<forall>info \<in> set xs. fittingBreak renderer fontId word sty availableWidth info
          \<longrightarrow> prefixWidthOf renderer fontId word sty info \<le> fst (snd (foldl ?f ?a xs))"
    "foldl ?f ?a xs = ?a
        \<or> (\<exists>info \<in> set xs. fittingBreak renderer fontId word sty availableWidth info
              \<and> foldl ?f ?a xs = (byteOffset info, prefixWidthOf renderer fontId word sty info,
                     requiresInsertedHyphen info))"
    by blast+
  have 1: "fst (snd acc) \<le> fst (snd (foldl ?f acc (x # xs)))"
    using step(1) ih(1) by simp
  have 2: "\<forall>info \<in> set (x # xs). fittingBreak renderer fontId word sty availableWidth info
          \<longrightarrow> prefixWidthOf renderer fontId word sty info \<le> fst (snd (foldl ?f acc (x # xs)))"
    using step(2) ih(1,2) by auto
  have 3: "foldl ?f acc (x # xs) = acc
        \<or> (\<exists>info \<in> set (x # xs). fittingBreak renderer fontId word sty availableWidth info
              \<and> foldl ?f acc (x # xs) = (byteOffset info, prefixWidthOf renderer fontId word sty info,
                     requiresInsertedHyphen info))"
    using step(3) ih(3) by auto
  from 1 2 3 show ?case by blast
qed

lemma prefixWidthOf_nonneg: "0 \<le> prefixWidthOf renderer fontId word sty info"
  by (simp add: prefixWidthOf_def)

lemma chooseBreak_width:
  "fst (snd (chooseBreak renderer fontId word sty availableWidth xs)) < 0
     \<longleftrightarrow> (\<forall>info \<in> set xs. \<not> fittingBreak renderer fontId word sty availableWidth info)"
proof -
  note F = foldl_considerBreak [of "(0, - 1, True)" renderer fontId word sty availableWidth xs]
  show ?thesis
  proof
    assume neg: "fst (snd (chooseBreak renderer fontId word sty availableWidth xs)) < 0"
    show "\<forall>info \<in> set xs. \<not> fittingBreak renderer fontId word sty availableWidth info"
    proof
      fix info assume "info \<in> set xs"
      show "\<not> fittingBreak renderer fontId word sty availableWidth info"
      proof
        assume "fittingBreak renderer fontId word sty availableWidth info"
        with F \<open>info \<in> set xs\<close> have "prefixWidthOf renderer fontId word sty info
            \<le> fst (snd (chooseBreak renderer fontId word sty availableWidth xs))"
          by (simp add: chooseBreak_def)
        with neg prefixWidthOf_nonneg [of renderer fontId word sty info] show False by simp
      qed
    qed
  next
    assume none: "\<forall>info \<in> set xs. \<not> fittingBreak renderer fontId word sty availableWidth info"
    with F have "chooseBreak renderer fontId word sty availableWidth xs = (0, - 1, True)"
      unfolding chooseBreak_def by blast
    then show "fst (snd (chooseBreak renderer fontId word sty availableWidth xs)) < 0" by simp
  qed
qed

lemma chooseBreak_chosen:
  assumes "chooseBreak renderer fontId word sty availableWidth xs = (off, w, nh)" and "0 \<le> w"
  shows "\<exists>info \<in> set xs. fittingBreak renderer fontId word sty availableWidth info
           \<and> off = byteOffset info \<and> w = prefixWidthOf renderer fontId word sty info
           \<and> nh = requiresInsertedHyphen info"
    and "\<forall>info \<in> set xs. fittingBreak renderer fontId word sty availableWidth info
           \<longrightarrow> prefixWidthOf renderer fontId word sty info \<le> w"
proof -
  note F = foldl_considerBreak [of "(0, - 1, True)" renderer fontId word sty availableWidth xs]
  from assms have ne: "chooseBreak renderer fontId word sty availableWidth xs \<noteq> (0, - 1, True)"
    by auto
  with F assms(1) show "\<exists>info \<in> set xs. fittingBreak renderer fontId word sty availableWidth info
           \<and> off = byteOffset info \<and> w = prefixWidthOf renderer fontId word sty info
           \<and> nh = requiresInsertedHyphen info"
    unfolding chooseBreak_def by auto
  from F assms(1) show "\<forall>info \<in> set xs. fittingBreak renderer fontId word sty availableWidth info
           \<longrightarrow> prefixWidthOf renderer fontId word sty info \<le> w"
    unfolding chooseBreak_def by simp
qed


lemma hyphenate_False:
  "hyphenateWordAtIndex E renderer fontId i a fb pt ww = (False, pt', ww') \<Longrightarrow> pt' = pt \<and> ww' = ww"
  by (auto simp: hyphenateWordAtIndex_def Let_def split: if_splits prod.splits)

lemma hyphenate_fails_iff:
  "\<not> fst (hyphenateWordAtIndex E renderer fontId i a fb pt ww)
     \<longleftrightarrow> (a \<le> 0 \<or> length (words pt) \<le> i
          \<or> (\<forall>info \<in> set (breakOffsets E (words pt ! i) fb).
                \<not> fittingBreak renderer fontId (words pt ! i) (wordStyles pt ! i) a info))"
proof -
  let ?bs = "breakOffsets E (words pt ! i) fb"
  let ?c = "chooseBreak renderer fontId (words pt ! i) (wordStyles pt ! i) a ?bs"
  have "\<not> fst (hyphenateWordAtIndex E renderer fontId i a fb pt ww)
     \<longleftrightarrow> (a \<le> 0 \<or> length (words pt) \<le> i \<or> ?bs = [] \<or> fst (snd ?c) < 0)"
    by (auto simp: hyphenateWordAtIndex_def Let_def split: if_splits prod.splits)
  also have "\<dots> \<longleftrightarrow> (a \<le> 0 \<or> length (words pt) \<le> i
          \<or> (\<forall>info \<in> set ?bs. \<not> fittingBreak renderer fontId (words pt ! i) (wordStyles pt ! i) a info))"
    using chooseBreak_width [of renderer fontId "words pt ! i" "wordStyles pt ! i" a ?bs]
    by auto
  finally show ?thesis .
qed

lemma hyphenate_True:
  assumes "hyphenateWordAtIndex E renderer fontId i a fb pt ww = (True, pt', ww')"
  shows "\<exists>info \<in> set (breakOffsets E (words pt ! i) fb).
           0 < a \<and> i < length (words pt)
         \<and> fittingBreak renderer fontId (words pt ! i) (wordStyles pt ! i) a info
         \<and> (\<forall>info' \<in> set (breakOffsets E (words pt ! i) fb).
               fittingBreak renderer fontId (words pt ! i) (wordStyles pt ! i) a info'
               \<longrightarrow> prefixWidthOf renderer fontId (words pt ! i) (wordStyles pt ! i) info'
                     \<le> prefixWidthOf renderer fontId (words pt ! i) (wordStyles pt ! i) info)
         \<and> pt' = pt\<lparr>words := insertAt (Suc i) (drop (byteOffset info) (words pt ! i))
                          ((words pt)[i := take (byteOffset info) (words pt ! i)
                              @ (if requiresInsertedHyphen info then [CHR ''-''] else [])]),
                      wordStyles := insertAt (Suc i) (wordStyles pt ! i) (wordStyles pt)\<rparr>
         \<and> ww' = insertAt (Suc i)
                    (measureWordWidth renderer fontId (drop (byteOffset info) (words pt ! i))
                       (wordStyles pt ! i) False)
                    (ww[i := word_of_int (prefixWidthOf renderer fontId (words pt ! i) (wordStyles pt ! i) info)])"
proof -
  let ?w = "words pt ! i" and ?s = "wordStyles pt ! i"
  let ?bs = "breakOffsets E ?w fb"
  obtain off cw nh where c: "chooseBreak renderer fontId ?w ?s a ?bs = (off, cw, nh)"
    by (cases "chooseBreak renderer fontId ?w ?s a ?bs") auto
  from assms c have g: "0 < a" "i < length (words pt)" "0 \<le> cw"
    and pt': "pt' = pt\<lparr>words := insertAt (Suc i) (drop off ?w)
                          ((words pt)[i := take off ?w @ (if nh then [CHR ''-''] else [])]),
                      wordStyles := insertAt (Suc i) ?s (wordStyles pt)\<rparr>"
    and ww': "ww' = insertAt (Suc i) (measureWordWidth renderer fontId (drop off ?w) ?s False)
                    (ww[i := word_of_int cw])"
    by (auto simp: hyphenateWordAtIndex_def Let_def split: if_splits)
  from chooseBreak_chosen [OF c g(3)] obtain info where
    info: "info \<in> set ?bs" "fittingBreak renderer fontId ?w ?s a info" "off = byteOffset info"
      "cw = prefixWidthOf renderer fontId ?w ?s info" "nh = requiresInsertedHyphen info"
    and best: "\<forall>info' \<in> set ?bs. fittingBreak renderer fontId ?w ?s a info'
           \<longrightarrow> prefixWidthOf renderer fontId ?w ?s info' \<le> cw"
    by blast
  show ?thesis
    by (rule bexI [OF _ info(1)]) (use g info best pt' ww' in simp)
qed

section \<open>A reference environment\<close>

text \<open>Modelled from the spec: \<^verbatim>\<open>collectCodepoints\<close> of \<^verbatim>\<open>HyphenationCommon.h\<close> is not
  part of the sources at hand. The spec says that the word is decoded into codepoints,
  each paired with its byte offset; this is the UTF-8 decoding by lead byte.\<close>

function utf8Decode :: "nat \<Rightarrow> string \<Rightarrow> CodepointInfo list" where
  "utf8Decode off [] = []"
| "utf8Decode off (b # bs) =
     (let v = (of_char b :: nat);
          n = (if v < 0x80 then 0 else if v < 0xE0 then 1 else if v < 0xF0 then 2 else 3);
          lead = (if v < 0x80 then v else if v < 0xE0 then v mod 32
                  else if v < 0xF0 then v mod 16 else v mod 8);
          cp = foldl (\<lambda>acc c. acc * 64 + (of_char c :: nat) mod 64) lead (take n bs)
      in \<lparr>cp_value = of_nat cp, cp_byteOffset = off\<rparr> # utf8Decode (off + 1 + n) (drop n bs))"
  by pat_completeness auto
termination
  by (relation "measure (\<lambda>(off, w). length w)") auto

text \<open>Modelled from the spec: the codepoint classes and the trimming of
  \<^verbatim>\<open>HyphenationCommon.h\<close>. An explicit marker is a literal hyphen or the soft hyphen
  U+00AD; the letters are the ASCII letters; leading and trailing punctuation is
  trimmed (the footnote markers, which the spec does not describe, are left alone).\<close>

definition isPunctuationCp :: "32 word \<Rightarrow> bool" where
  "isPunctuationCp cp = (cp \<in> set [0x21, 0x22, 0x27, 0x28, 0x29, 0x2C, 0x2E, 0x3A, 0x3B, 0x3F])"

definition trimPunctuation :: "CodepointInfo list \<Rightarrow> CodepointInfo list" where
  "trimPunctuation cps =
     rev (dropWhile (\<lambda>c. isPunctuationCp (cp_value c))
            (rev (dropWhile (\<lambda>c. isPunctuationCp (cp_value c)) cps)))"

definition refCommon :: HyphenationCommon where
  "refCommon =
     \<lparr>collectCodepoints = utf8Decode 0,
      trimSurroundingPunctuationAndFootnote = trimPunctuation,
      isExplicitHyphen = (\<lambda>cp. cp = 0x2D \<or> cp = 0xAD),
      isAlphabetic = (\<lambda>cp. (0x41 \<le> cp \<and> cp \<le> 0x5A) \<or> (0x61 \<le> cp \<and> cp \<le> 0x7A)),
      isSoftHyphen = (\<lambda>cp. cp = 0xAD),
      kDefaultMinPrefix = 2,
      kDefaultMinSuffix = 2,
      cachedHyphenator = None\<rparr>"

text \<open>A renderer whose glyphs are all ten pixels wide and whose space is five.\<close>

definition monoRenderer :: GfxRenderer where
  "monoRenderer = \<lparr>getTextWidth = (\<lambda>fontId w sty. 10 * int (length w)), getSpaceWidth = (\<lambda>fontId. 5)\<rparr>"

section \<open>Explicit markers\<close>

lemma concat_map_if:
  "concat (map (\<lambda>i. if \<not> P i then [] else [f i]) xs) = map f (filter P xs)"
  by (induction xs) simp_all

lemma buildExplicitBreakInfos_filter:
  "buildExplicitBreakInfos E cps =
     map (\<lambda>i. \<lparr>byteOffset = cp_byteOffset (cps ! (i + 1)),
                requiresInsertedHyphen = isSoftHyphen E (cp_value (cps ! i))\<rparr>)
         (filter (explicitMarkerAt E cps) [1 ..< length cps - 1])"
  unfolding buildExplicitBreakInfos_def by (rule concat_map_if)

lemma buildExplicitBreakInfos_nonempty:
  "buildExplicitBreakInfos E cps \<noteq> []
     \<longleftrightarrow> (\<exists>i. 1 \<le> i \<and> i + 1 < length cps \<and> explicitMarkerAt E cps i)"
proof -
  have "buildExplicitBreakInfos E cps \<noteq> []
      \<longleftrightarrow> (\<exists>i \<in> set [1 ..< length cps - 1]. explicitMarkerAt E cps i)"
    by (simp add: buildExplicitBreakInfos_filter filter_empty_conv)
  also have "\<dots> \<longleftrightarrow> (\<exists>i. 1 \<le> i \<and> i + 1 < length cps \<and> explicitMarkerAt E cps i)"
    by (auto simp: less_diff_conv)
  finally show ?thesis .
qed

lemma explicitMarkerAt_language [simp]:
  "explicitMarkerAt (E\<lparr>cachedHyphenator := h\<rparr>) = explicitMarkerAt E"
  by (simp add: explicitMarkerAt_def fun_eq_iff)

lemma buildExplicitBreakInfos_language [simp]:
  "buildExplicitBreakInfos (E\<lparr>cachedHyphenator := h\<rparr>) cps = buildExplicitBreakInfos E cps"
  by (simp add: buildExplicitBreakInfos_filter)

lemma breakOffsets_explicit:
  assumes "word \<noteq> []"
    and "buildExplicitBreakInfos E (trimSurroundingPunctuationAndFootnote E (collectCodepoints E word)) \<noteq> []"
  shows "breakOffsets E word includeFallback
     = buildExplicitBreakInfos E (trimSurroundingPunctuationAndFootnote E (collectCodepoints E word))"
  using assms by (simp add: breakOffsets_def Let_def)

text \<open>
  \<^bold>\<open>C5\<close> (explicit-marker precedence). When the trimmed codepoints of a word hold at
  least one explicit hyphen marker between two letters, \<open>breakOffsets\<close> returns exactly
  the marker break points, in order: the byte offset of the codepoint after each
  marker, flagged with \<open>isSoftHyphen\<close> of the marker. The result is the same for every
  value of \<open>includeFallback\<close> and for every active language (also none).
\<close>

theorem explicit_markers_take_precedence:
  assumes "word \<noteq> []"
    and "cps = trimSurroundingPunctuationAndFootnote E (collectCodepoints E word)"
    and "\<exists>i. 1 \<le> i \<and> i + 1 < length cps \<and> explicitMarkerAt E cps i"
  shows "breakOffsets (E\<lparr>cachedHyphenator := language\<rparr>) word includeFallback
     = map (\<lambda>i. \<lparr>byteOffset = cp_byteOffset (cps ! (i + 1)),
                  requiresInsertedHyphen = isSoftHyphen E (cp_value (cps ! i))\<rparr>)
           (filter (explicitMarkerAt E cps) [1 ..< length cps - 1])"
proof -
  let ?E = "E\<lparr>cachedHyphenator := language\<rparr>"
  have cps: "trimSurroundingPunctuationAndFootnote ?E (collectCodepoints ?E word) = cps"
    using assms(2) by simp
  from assms(3) have "buildExplicitBreakInfos ?E cps \<noteq> []"
    by (simp add: buildExplicitBreakInfos_nonempty)
  with assms(1) cps have "breakOffsets ?E word includeFallback = buildExplicitBreakInfos ?E cps"
    using breakOffsets_explicit [of word ?E includeFallback] by simp
  then show ?thesis
    by (simp add: buildExplicitBreakInfos_filter)
qed

definition softWord :: string where
  "softWord = [CHR ''a'', CHR ''b'', CHR 0xC2, CHR 0xAD, CHR ''c'', CHR ''-'', CHR ''d'']"

lemma softWord_cps:
  "trimSurroundingPunctuationAndFootnote refCommon (collectCodepoints refCommon softWord)
    = [\<lparr>cp_value = 0x61, cp_byteOffset = 0\<rparr>, \<lparr>cp_value = 0x62, cp_byteOffset = 1\<rparr>,
       \<lparr>cp_value = 0xAD, cp_byteOffset = 2\<rparr>, \<lparr>cp_value = 0x63, cp_byteOffset = 4\<rparr>,
       \<lparr>cp_value = 0x2D, cp_byteOffset = 5\<rparr>, \<lparr>cp_value = 0x64, cp_byteOffset = 6\<rparr>]"
  by code_simp

theorem explicit_markers_take_precedence_witness:
  "softWord \<noteq> []
   \<and> (\<exists>i. 1 \<le> i
         \<and> i + 1 < length (trimSurroundingPunctuationAndFootnote refCommon (collectCodepoints refCommon softWord))
         \<and> explicitMarkerAt refCommon
              (trimSurroundingPunctuationAndFootnote refCommon (collectCodepoints refCommon softWord)) i)
   \<and> breakOffsets (refCommon\<lparr>cachedHyphenator := Some \<lparr>breakIndexes = (\<lambda>cps. [1]), minPrefix = 1, minSuffix = 1\<rparr>\<rparr>)
        softWord True
      = [\<lparr>byteOffset = 4, requiresInsertedHyphen = True\<rparr>, \<lparr>byteOffset = 6, requiresInsertedHyphen = False\<rparr>]"
proof -
  let ?cps = "trimSurroundingPunctuationAndFootnote refCommon (collectCodepoints refCommon softWord)"
  have ne: "softWord \<noteq> []" by (simp add: softWord_def)
  have m: "explicitMarkerAt refCommon ?cps 2"
    unfolding softWord_cps by (simp add: explicitMarkerAt_def refCommon_def)
  have ex: "\<exists>i. 1 \<le> i \<and> i + 1 < length ?cps \<and> explicitMarkerAt refCommon ?cps i"
    by (rule exI [of _ 2]) (use m in \<open>simp add: softWord_cps\<close>)
  have f: "filter (explicitMarkerAt refCommon ?cps) [1 ..< length ?cps - 1] = [2, 4]"
    unfolding softWord_cps by (simp add: explicitMarkerAt_def refCommon_def upt_rec)
  from explicit_markers_take_precedence [OF ne refl ex, of "Some \<lparr>breakIndexes = (\<lambda>cps. [1]), minPrefix = 1, minSuffix = 1\<rparr>" True]
  have "breakOffsets (refCommon\<lparr>cachedHyphenator := Some \<lparr>breakIndexes = (\<lambda>cps. [1]), minPrefix = 1, minSuffix = 1\<rparr>\<rparr>)
        softWord True
      = [\<lparr>byteOffset = 4, requiresInsertedHyphen = True\<rparr>, \<lparr>byteOffset = 6, requiresInsertedHyphen = False\<rparr>]"
    unfolding f unfolding softWord_cps by (simp add: refCommon_def)
  with ne ex show ?thesis by blast
qed

section \<open>Failure of a split leaves the state alone\<close>

text \<open>
  \<^bold>\<open>C10\<close> (split-failure atomicity). \<open>hyphenateWordAtIndex\<close> returns false exactly when
  the available width is not positive, the index is outside the word list, there is no
  break candidate, or no candidate's prefix (with its hyphen when required) fits the
  available width; whenever it returns false the engine's lists and the cached widths
  are returned unchanged, and when it returns true the word list has grown by one.
\<close>

theorem hyphenate_failure_keeps_state:
  "(\<not> fst (hyphenateWordAtIndex E renderer fontId wordIndex availableWidth allowFallbackBreaks pt wordWidths)
      \<longleftrightarrow> (availableWidth \<le> 0 \<or> length (words pt) \<le> wordIndex
           \<or> breakOffsets E (words pt ! wordIndex) allowFallbackBreaks = []
           \<or> (\<forall>info \<in> set (breakOffsets E (words pt ! wordIndex) allowFallbackBreaks).
                 \<not> fittingBreak renderer fontId (words pt ! wordIndex) (wordStyles pt ! wordIndex)
                      availableWidth info)))
   \<and> (\<not> fst (hyphenateWordAtIndex E renderer fontId wordIndex availableWidth allowFallbackBreaks pt wordWidths)
        \<longrightarrow> snd (hyphenateWordAtIndex E renderer fontId wordIndex availableWidth allowFallbackBreaks pt wordWidths)
              = (pt, wordWidths))
   \<and> (fst (hyphenateWordAtIndex E renderer fontId wordIndex availableWidth allowFallbackBreaks pt wordWidths)
        \<longrightarrow> length (words (fst (snd (hyphenateWordAtIndex E renderer fontId wordIndex availableWidth
                                         allowFallbackBreaks pt wordWidths))))
              = Suc (length (words pt)))"
proof (intro conjI impI)
  let ?r = "hyphenateWordAtIndex E renderer fontId wordIndex availableWidth allowFallbackBreaks pt wordWidths"
  show "\<not> fst ?r \<longleftrightarrow> (availableWidth \<le> 0 \<or> length (words pt) \<le> wordIndex
           \<or> breakOffsets E (words pt ! wordIndex) allowFallbackBreaks = []
           \<or> (\<forall>info \<in> set (breakOffsets E (words pt ! wordIndex) allowFallbackBreaks).
                 \<not> fittingBreak renderer fontId (words pt ! wordIndex) (wordStyles pt ! wordIndex)
                      availableWidth info))"
    unfolding hyphenate_fails_iff by auto
  {
    assume "\<not> fst ?r"
    then obtain pt' ww' where "?r = (False, pt', ww')"
      by (cases ?r) auto
    then show "snd ?r = (pt, wordWidths)"
      using hyphenate_False [of E renderer fontId wordIndex availableWidth allowFallbackBreaks pt wordWidths pt' ww']
      by simp
  }
  {
    assume "fst ?r"
    then obtain pt' ww' where r: "?r = (True, pt', ww')"
      by (cases ?r) auto
    from hyphenate_True [OF r] show "length (words (fst (snd ?r))) = Suc (length (words pt))"
      unfolding r by (auto simp: insertAt_def)
  }
qed

definition twoWords :: ParsedText where
  "twoWords = \<lparr>words = [''hello'', ''world''], wordStyles = [REGULAR, BOLD], style = JUSTIFIED,
               extraParagraphSpacing = True, hyphenationEnabled = True\<rparr>"


theorem hyphenate_failure_keeps_state_witness:
  "\<not> fst (hyphenateWordAtIndex refCommon monoRenderer 0 0 25 True twoWords [50, 50])
   \<and> breakOffsets refCommon (words twoWords ! 0) True \<noteq> []
   \<and> snd (hyphenateWordAtIndex refCommon monoRenderer 0 0 25 True twoWords [50, 50]) = (twoWords, [50, 50])
   \<and> fst (hyphenateWordAtIndex refCommon monoRenderer 0 0 45 True twoWords [50, 50])
   \<and> length (words (fst (snd (hyphenateWordAtIndex refCommon monoRenderer 0 0 45 True twoWords [50, 50])))) = 3"
proof -
  have 1: "\<not> fst (hyphenateWordAtIndex refCommon monoRenderer 0 0 25 True twoWords [50, 50])"
    by code_simp
  have 2: "breakOffsets refCommon (words twoWords ! 0) True \<noteq> []"
    by code_simp
  have 3: "fst (hyphenateWordAtIndex refCommon monoRenderer 0 0 45 True twoWords [50, 50])"
    by code_simp
  have 4: "length (words twoWords) = 2"
    by (simp add: twoWords_def)
  from 1 2 3 4
    hyphenate_failure_keeps_state [of refCommon monoRenderer 0 0 25 True twoWords "[50, 50]"]
    hyphenate_failure_keeps_state [of refCommon monoRenderer 0 0 45 True twoWords "[50, 50]"]
  show ?thesis by simp
qed

section \<open>The cost of a line\<close>

text \<open>\<^verbatim>\<open>std::numeric_limits<int>::max()\<close> for the 32-bit \<^verbatim>\<open>int\<close>.\<close>

definition MAX_COST :: "32 word" where
  "MAX_COST = 0x7FFFFFFF"

text \<open>The cost of a line that is not the last one (the \<^verbatim>\<open>else\<close> branch in the inner loop
  of \<^verbatim>\<open>computeLineBreaks\<close>): \<^verbatim>\<open>remainingSpace\<close> and \<^verbatim>\<open>dp[j + 1]\<close> are 32-bit
  \<^verbatim>\<open>int\<close>s, the sum is formed in the 64-bit \<^verbatim>\<open>long long\<close>, compared with \<^verbatim>\<open>MAX_COST\<close>
  there, and cast back to \<^verbatim>\<open>int\<close>.\<close>

definition lineCost :: "32 word \<Rightarrow> 32 word \<Rightarrow> 32 word" where
  "lineCost remainingSpace dpNext =
     (let cost_ll = (scast remainingSpace :: 64 word) * scast remainingSpace + scast dpNext
      in if scast MAX_COST <s cost_ll then MAX_COST else ucast cost_ll)"


lemma sint_MAX_COST: "sint MAX_COST = 2147483647"
  by (simp add: MAX_COST_def)

lemma square_bound:
  fixes R :: int
  assumes "- (2 ^ 31) \<le> R" "R < 2 ^ 31"
  shows "0 \<le> R * R" "R * R \<le> 2 ^ 62"
proof -
  show "0 \<le> R * R" by simp
  have "\<bar>R\<bar> \<le> 2 ^ 31" using assms by simp
  then have "\<bar>R\<bar> * \<bar>R\<bar> \<le> 2 ^ 31 * 2 ^ 31"
    by (intro mult_mono) simp_all
  then show "R * R \<le> 2 ^ 62" by (simp add: abs_mult_self_eq)
qed


lemma add_in_range:
  fixes q d :: int
  assumes "0 \<le> q" "q \<le> 2 ^ 62" "- (2 ^ 31) \<le> d" "d < 2 ^ 31"
  shows "- (2 ^ 63) \<le> q" "q < 2 ^ 63" "- (2 ^ 63) \<le> q + d" "q + d < 2 ^ 63" "- (2 ^ 31) \<le> q + d"
  using assms by simp_all

lemma sint_cost_ll:
  fixes r d :: "32 word"
  shows "sint ((scast r :: 64 word) * scast r + scast d) = sint r * sint r + sint d"
proof -
  have up: "is_up (scast :: 32 word \<Rightarrow> 64 word)"
    by (simp add: is_up)
  have r: "- (2 ^ 31) \<le> sint r" "sint r < 2 ^ 31" and d: "- (2 ^ 31) \<le> sint d" "sint d < 2 ^ 31"
    using sint_range_size [of r] sint_range_size [of d] by (simp_all add: word_size)
  note sq = square_bound [OF r]
  note rng = add_in_range [OF sq d]
  have lo: "- (2 ^ 63) \<le> sint r * sint r" "- (2 ^ 63) \<le> sint r * sint r + sint d"
    by (rule rng)+
  have hi: "sint r * sint r < 2 ^ 63" "sint r * sint r + sint d < 2 ^ 63"
    by (rule rng)+
  have m: "sint ((scast r :: 64 word) * scast r) = sint r * sint r"
    using lo(1) hi(1)
    by (simp only: sint_word_mult sint_up_scast [OF up] signed_take_bit_int_eq_self_iff) simp
  show ?thesis
    using lo(2) hi(2)
    by (simp only: sint_word_add m sint_up_scast [OF up] signed_take_bit_int_eq_self_iff) simp
qed

lemma sint_ucast_down:
  fixes x :: "64 word"
  assumes "- (2 ^ 31) \<le> sint x" "sint x < 2 ^ 31"
  shows "sint (ucast x :: 32 word) = sint x"
proof -
  have "x = word_of_int (sint x)" by simp
  then have "(ucast x :: 32 word) = ucast (word_of_int (sint x) :: 64 word)" by simp
  also have "\<dots> = word_of_int (sint x)"
    by (rule ucast_down_wi) (simp add: is_down)
  finally have "sint (ucast x :: 32 word) = sint (word_of_int (sint x) :: 32 word)"
    by (rule arg_cong)
  then have "sint (ucast x :: 32 word) = signed_take_bit 31 (sint x)"
    by (simp only: sint_sbintrunc') simp
  with assms show ?thesis
    by (simp add: signed_take_bit_int_eq_self_iff)
qed

text \<open>
  Read as signed numbers, the cost computed for a line is the smaller of \<open>MAX_COST\<close> and the
  exact value of \<open>remainingSpace\<^sup>2 + dp[j + 1]\<close>, for all 32-bit values of the remaining
  space and of the successor's cost: the 64-bit sum does not wrap, and whatever exceeds
  \<open>MAX_COST\<close> becomes \<open>MAX_COST\<close>.
\<close>

lemma lineCost_sint:
  "sint (lineCost remainingSpace dpNext)
     = min (sint MAX_COST) (sint remainingSpace * sint remainingSpace + sint dpNext)"
proof -
  let ?c = "(scast remainingSpace :: 64 word) * scast remainingSpace + scast dpNext"
  have c: "sint ?c = sint remainingSpace * sint remainingSpace + sint dpNext"
    by (rule sint_cost_ll)
  have mx: "sint (scast MAX_COST :: 64 word) = 2147483647"
    by (simp add: MAX_COST_def)
  have r: "- (2 ^ 31) \<le> sint remainingSpace" "sint remainingSpace < 2 ^ 31"
    and d: "- (2 ^ 31) \<le> sint dpNext" "sint dpNext < 2 ^ 31"
    using sint_range_size [of remainingSpace] sint_range_size [of dpNext]
    by (simp_all add: word_size)
  note rng = add_in_range [OF square_bound [OF r] d]
  show ?thesis
  proof (cases "scast MAX_COST <s ?c")
    case True
    then have "2147483647 < sint remainingSpace * sint remainingSpace + sint dpNext"
      by (simp add: word_sless_alt mx c)
    with True show ?thesis
      by (simp add: lineCost_def sint_MAX_COST)
  next
    case False
    then have le: "sint ?c \<le> 2147483647"
      by (simp add: word_sless_alt mx)
    moreover have "- (2 ^ 31) \<le> sint ?c"
      unfolding c by (rule rng)
    ultimately have "sint (ucast ?c :: 32 word) = sint ?c"
      by (intro sint_ucast_down) simp_all
    with False le show ?thesis
      by (simp add: lineCost_def sint_MAX_COST c)
  qed
qed

section \<open>The greedy hyphenated breaker\<close>

text \<open>The inner loop of \<^verbatim>\<open>computeHyphenatedLineBreaks\<close>: it fills the line that starts at
  \<open>lineStart\<close> and returns the index at which the line closes, with the lists and the
  cached widths as the loop left them.\<close>

function fillLine ::
  "HyphenationCommon \<Rightarrow> GfxRenderer \<Rightarrow> int \<Rightarrow> int \<Rightarrow> int \<Rightarrow> nat
     \<Rightarrow> int \<Rightarrow> nat \<Rightarrow> ParsedText \<Rightarrow> 16 word list \<Rightarrow> nat \<times> ParsedText \<times> 16 word list" where
  "fillLine E renderer fontId pageWidth spaceWidth lineStart lineWidth currentIndex pt wordWidths =
     (if currentIndex < length wordWidths then
        let isFirstWord = (currentIndex = lineStart);
            spacing = (if isFirstWord then 0 else spaceWidth);
            candidateWidth = spacing + uint (wordWidths ! currentIndex)
        in if lineWidth + candidateWidth \<le> pageWidth
           then fillLine E renderer fontId pageWidth spaceWidth lineStart
                  (lineWidth + candidateWidth) (Suc currentIndex) pt wordWidths
           else
             let availableWidth = pageWidth - lineWidth - spacing;
                 allowFallbackBreaks = isFirstWord;
                 (split, pt', wordWidths') =
                   (if 0 < availableWidth
                    then hyphenateWordAtIndex E renderer fontId currentIndex availableWidth
                           allowFallbackBreaks pt wordWidths
                    else (False, pt, wordWidths))
             in if split then (Suc currentIndex, pt', wordWidths')
                else if currentIndex = lineStart then (Suc currentIndex, pt', wordWidths')
                else (currentIndex, pt', wordWidths')
      else (currentIndex, pt, wordWidths))"
  by pat_completeness auto
termination
  by (relation "measure (\<lambda>(E, renderer, fontId, pageWidth, spaceWidth, lineStart, lineWidth,
                           currentIndex, pt, wordWidths). length wordWidths - currentIndex)") auto

declare fillLine.simps [simp del]

lemma fillLine_done:
  "\<not> currentIndex < length wordWidths
     \<Longrightarrow> fillLine E renderer fontId pageWidth spaceWidth lineStart lineWidth currentIndex pt wordWidths
           = (currentIndex, pt, wordWidths)"
  by (subst fillLine.simps) simp

lemma fillLine_fits:
  "currentIndex < length wordWidths
     \<Longrightarrow> lineWidth + ((if currentIndex = lineStart then 0 else spaceWidth)
                        + uint (wordWidths ! currentIndex)) \<le> pageWidth
     \<Longrightarrow> fillLine E renderer fontId pageWidth spaceWidth lineStart lineWidth currentIndex pt wordWidths
           = fillLine E renderer fontId pageWidth spaceWidth lineStart
               (lineWidth + ((if currentIndex = lineStart then 0 else spaceWidth)
                             + uint (wordWidths ! currentIndex)))
               (Suc currentIndex) pt wordWidths"
  by (subst fillLine.simps) (simp add: Let_def)

lemma fillLine_overflow:
  "currentIndex < length wordWidths
     \<Longrightarrow> \<not> lineWidth + ((if currentIndex = lineStart then 0 else spaceWidth)
                          + uint (wordWidths ! currentIndex)) \<le> pageWidth
     \<Longrightarrow> (if 0 < pageWidth - lineWidth - (if currentIndex = lineStart then 0 else spaceWidth)
          then hyphenateWordAtIndex E renderer fontId currentIndex
                 (pageWidth - lineWidth - (if currentIndex = lineStart then 0 else spaceWidth))
                 (currentIndex = lineStart) pt wordWidths
          else (False, pt, wordWidths)) = (split, pt1, ww1)
     \<Longrightarrow> fillLine E renderer fontId pageWidth spaceWidth lineStart lineWidth currentIndex pt wordWidths
           = (if split \<or> currentIndex = lineStart then (Suc currentIndex, pt1, ww1)
              else (currentIndex, pt1, ww1))"
  by (subst fillLine.simps) (simp add: Let_def)

text \<open>What is left to lay out from an index on: the widths not yet passed and the bytes
  of the words not yet passed. Every line started inside the width vector lowers it.\<close>

definition remaining :: "nat \<Rightarrow> ParsedText \<Rightarrow> 16 word list \<Rightarrow> nat" where
  "remaining currentIndex pt wordWidths =
     (length wordWidths - currentIndex) + sum_list (map length (drop currentIndex (words pt)))"

lemma insertAt_update:
  "i < length xs \<Longrightarrow> insertAt (Suc i) r (xs[i := p]) = take i xs @ p # r # drop (Suc i) xs"
  by (simp add: insertAt_def take_Suc_conv_app_nth)

lemma length_insertAt [simp]: "length (insertAt k x xs) = Suc (length xs)"
  by (simp add: insertAt_def)

lemma remaining_Suc:
  "currentIndex < length wordWidths
     \<Longrightarrow> remaining (Suc currentIndex) pt wordWidths < remaining currentIndex pt wordWidths"
proof -
  assume a: "currentIndex < length wordWidths"
  have "sum_list (map length (drop (Suc currentIndex) (words pt)))
          \<le> sum_list (map length (drop currentIndex (words pt)))"
  proof (cases "currentIndex < length (words pt)")
    case True
    then show ?thesis by (simp add: Cons_nth_drop_Suc [symmetric])
  next
    case False
    then show ?thesis by simp
  qed
  with a show ?thesis by (simp add: remaining_def)
qed

lemma remaining_split:
  assumes "hyphenateWordAtIndex E renderer fontId i a fb pt ww = (True, pt', ww')"
  shows "remaining (Suc i) pt' ww' < remaining i pt ww"
proof -
  from hyphenate_True [OF assms] obtain info where
    i: "i < length (words pt)"
    and fit: "fittingBreak renderer fontId (words pt ! i) (wordStyles pt ! i) a info"
    and pt': "words pt' = insertAt (Suc i) (drop (byteOffset info) (words pt ! i))
                          ((words pt)[i := take (byteOffset info) (words pt ! i)
                              @ (if requiresInsertedHyphen info then [CHR ''-''] else [])])"
    and ww': "length ww' = Suc (length ww)"
    by auto
  from fit have off: "0 < byteOffset info" "byteOffset info < length (words pt ! i)"
    by (simp_all add: fittingBreak_def)
  have d: "drop (Suc i) (words pt') = drop (byteOffset info) (words pt ! i) # drop (Suc i) (words pt)"
    using i by (simp add: pt' insertAt_update)
  have "drop i (words pt) = words pt ! i # drop (Suc i) (words pt)"
    using i by (simp add: Cons_nth_drop_Suc)
  with d off ww' show ?thesis
    by (simp add: remaining_def)
qed

lemma fillLine_remaining:
  "fillLine E renderer fontId pageWidth spaceWidth lineStart lineWidth currentIndex pt wordWidths
      = (k, pt', wordWidths')
   \<Longrightarrow> remaining k pt' wordWidths' \<le> remaining currentIndex pt wordWidths
     \<and> (currentIndex = lineStart \<and> currentIndex < length wordWidths
          \<longrightarrow> remaining k pt' wordWidths' < remaining currentIndex pt wordWidths)"
proof (induction E renderer fontId pageWidth spaceWidth lineStart lineWidth currentIndex pt wordWidths
       rule: fillLine.induct)
  case (1 E renderer fontId pageWidth spaceWidth lineStart lineWidth currentIndex pt wordWidths)
  note eq = "1.prems"
  show ?case
  proof (cases "currentIndex < length wordWidths")
    case False
    with eq show ?thesis by (simp add: fillLine_done)
  next
    case inside: True
    let ?spacing = "if currentIndex = lineStart then 0 else spaceWidth"
    let ?candidateWidth = "?spacing + uint (wordWidths ! currentIndex)"
    show ?thesis
    proof (cases "lineWidth + ?candidateWidth \<le> pageWidth")
      case True
      from eq have "fillLine E renderer fontId pageWidth spaceWidth lineStart
            (lineWidth + ?candidateWidth) (Suc currentIndex) pt wordWidths = (k, pt', wordWidths')"
        by (simp only: fillLine_fits [OF inside True])
      from "1.IH" [OF inside refl refl refl True this]
      have "remaining k pt' wordWidths' \<le> remaining (Suc currentIndex) pt wordWidths" by simp
      with remaining_Suc [OF inside, of pt] show ?thesis by auto
    next
      case False
      let ?availableWidth = "pageWidth - lineWidth - ?spacing"
      let ?r = "if 0 < ?availableWidth
                    then hyphenateWordAtIndex E renderer fontId currentIndex ?availableWidth
                           (currentIndex = lineStart) pt wordWidths
                    else (False, pt, wordWidths)"
      obtain split pt1 ww1 where r: "?r = (split, pt1, ww1)" by (cases ?r) auto
      from eq have res: "(k, pt', wordWidths') =
          (if split \<or> currentIndex = lineStart then (Suc currentIndex, pt1, ww1)
           else (currentIndex, pt1, ww1))"
        by (simp only: fillLine_overflow [OF inside False r])
      show ?thesis
      proof (cases split)
        case True
        with r have h: "hyphenateWordAtIndex E renderer fontId currentIndex ?availableWidth
                           (currentIndex = lineStart) pt wordWidths = (True, pt1, ww1)"
          by (auto split: if_splits)
        from remaining_split [OF h] res True show ?thesis by auto
      next
        case nosplit: False
        with r have same: "pt1 = pt \<and> ww1 = wordWidths"
          using hyphenate_False [of E renderer fontId currentIndex ?availableWidth
                  "currentIndex = lineStart" pt wordWidths pt1 ww1]
          by (auto split: if_splits)
        with res nosplit remaining_Suc [OF inside, of pt] show ?thesis
          by (auto split: if_splits)
      qed
    qed
  qed
qed

text \<open>The outer loop: one line per round, its closing index appended to the breaks.\<close>

function hyphenatedLoop ::
  "HyphenationCommon \<Rightarrow> GfxRenderer \<Rightarrow> int \<Rightarrow> int \<Rightarrow> int
     \<Rightarrow> nat \<Rightarrow> ParsedText \<Rightarrow> 16 word list \<Rightarrow> nat list \<Rightarrow> nat list \<times> ParsedText \<times> 16 word list" where
  "hyphenatedLoop E renderer fontId pageWidth spaceWidth currentIndex pt wordWidths lineBreakIndices =
     (if currentIndex < length wordWidths then
        case fillLine E renderer fontId pageWidth spaceWidth currentIndex 0 currentIndex pt wordWidths of
          (currentIndex', pt', wordWidths') \<Rightarrow>
            hyphenatedLoop E renderer fontId pageWidth spaceWidth currentIndex' pt' wordWidths'
              (lineBreakIndices @ [currentIndex'])
      else (lineBreakIndices, pt, wordWidths))"
  by pat_completeness auto
termination
  apply (relation "measure (\<lambda>(E, renderer, fontId, pageWidth, spaceWidth, currentIndex, pt, wordWidths,
                            lineBreakIndices). remaining currentIndex pt wordWidths)")
   apply simp
  apply (auto dest!: fillLine_remaining [OF sym])
  done

declare hyphenatedLoop.simps [simp del]

definition computeHyphenatedLineBreaks ::
  "HyphenationCommon \<Rightarrow> GfxRenderer \<Rightarrow> int \<Rightarrow> int \<Rightarrow> int \<Rightarrow> ParsedText \<Rightarrow> 16 word list
     \<Rightarrow> nat list \<times> ParsedText \<times> 16 word list" where
  "computeHyphenatedLineBreaks E renderer fontId pageWidth spaceWidth pt wordWidths =
     hyphenatedLoop E renderer fontId pageWidth spaceWidth 0 pt wordWidths []"

section \<open>The breaker that minimises raggedness\<close>

text \<open>
  The first loop of \<^verbatim>\<open>computeLineBreaks\<close> splits every word that is wider than the page.
  The \<^verbatim>\<open>for\<close> over \<open>i\<close> and the \<^verbatim>\<open>while\<close> inside it are one recursion here: after a
  split the test of the \<^verbatim>\<open>while\<close> is made again at the same \<open>i\<close>, after a failed
  split (the \<^verbatim>\<open>break\<close>) or a word that fits the loop moves on to \<open>i + 1\<close>.
\<close>

definition prepassMeasure :: "int \<Rightarrow> nat \<Rightarrow> ParsedText \<Rightarrow> 16 word list \<Rightarrow> nat" where
  "prepassMeasure pageWidth i pt wordWidths =
     2 * (if i < length wordWidths \<and> pageWidth < uint (wordWidths ! i) \<and> i < length (words pt)
          then Suc (length (words pt ! i)) else 0)
     + 2 * sum_list (map (\<lambda>w. Suc (length w)) (drop (Suc i) (words pt)))
     + (length wordWidths - i)"

lemma prepassMeasure_next:
  assumes "i < length wordWidths"
  shows "prepassMeasure pageWidth (Suc i) pt wordWidths < prepassMeasure pageWidth i pt wordWidths"
proof -
  define c where "c j = (if j < length wordWidths \<and> pageWidth < uint (wordWidths ! j) \<and> j < length (words pt)
          then Suc (length (words pt ! j)) else 0)" for j
  define S where "S j = sum_list (map (\<lambda>w. Suc (length w)) (drop j (words pt)))" for j
  have M: "prepassMeasure pageWidth j pt wordWidths = 2 * c j + 2 * S (Suc j) + (length wordWidths - j)" for j
    by (simp add: prepassMeasure_def c_def S_def)
  have n: "length wordWidths - Suc i < length wordWidths - i"
    using assms by simp
  have "2 * c (Suc i) + 2 * S (Suc (Suc i)) \<le> 2 * S (Suc i)"
  proof (cases "Suc i < length (words pt)")
    case True
    then have "S (Suc i) = Suc (length (words pt ! Suc i)) + S (Suc (Suc i))"
      by (simp add: S_def Cons_nth_drop_Suc [symmetric])
    moreover have "c (Suc i) \<le> Suc (length (words pt ! Suc i))"
      by (simp add: c_def)
    ultimately show ?thesis by simp
  next
    case False
    then have "c (Suc i) = 0" "S (Suc (Suc i)) = 0"
      by (simp_all add: c_def S_def)
    then show ?thesis by simp
  qed
  with n show ?thesis
    unfolding M by linarith
qed

lemma hyphenate_True_width:
  assumes "hyphenateWordAtIndex E renderer fontId i a fb pt ww = (True, pt', ww')"
    and "i < length ww"
  shows "uint (ww' ! i) \<le> a"
proof -
  from hyphenate_True [OF assms(1)] obtain info where
    fit: "fittingBreak renderer fontId (words pt ! i) (wordStyles pt ! i) a info"
    and ww': "ww' = insertAt (Suc i)
                    (measureWordWidth renderer fontId (drop (byteOffset info) (words pt ! i))
                       (wordStyles pt ! i) False)
                    (ww[i := word_of_int (prefixWidthOf renderer fontId (words pt ! i) (wordStyles pt ! i) info)])"
    by auto
  from assms(2) have "ww' ! i = word_of_int (prefixWidthOf renderer fontId (words pt ! i) (wordStyles pt ! i) info)"
    by (simp add: ww' insertAt_def nth_append)
  then have "uint (ww' ! i) = prefixWidthOf renderer fontId (words pt ! i) (wordStyles pt ! i) info"
    by (simp add: prefixWidthOf_def)
  with fit show ?thesis
    by (simp add: fittingBreak_def prefixWidthOf_def)
qed

lemma prepassMeasure_split:
  assumes h: "hyphenateWordAtIndex E renderer fontId i pageWidth fb pt ww = (True, pt', ww')"
    and i: "i < length ww" and over: "pageWidth < uint (ww ! i)"
  shows "prepassMeasure pageWidth i pt' ww' < prepassMeasure pageWidth i pt ww"
proof -
  from hyphenate_True [OF h] obtain info where
    iw: "i < length (words pt)"
    and fit: "fittingBreak renderer fontId (words pt ! i) (wordStyles pt ! i) pageWidth info"
    and pt': "words pt' = insertAt (Suc i) (drop (byteOffset info) (words pt ! i))
                          ((words pt)[i := take (byteOffset info) (words pt ! i)
                              @ (if requiresInsertedHyphen info then [CHR ''-''] else [])])"
    and ww': "length ww' = Suc (length ww)"
    by auto
  from fit have off: "0 < byteOffset info" "byteOffset info < length (words pt ! i)"
    by (simp_all add: fittingBreak_def)
  define S where "S = sum_list (map (\<lambda>w. Suc (length w)) (drop (Suc i) (words pt)))"
  have d: "drop (Suc i) (words pt') = drop (byteOffset info) (words pt ! i) # drop (Suc i) (words pt)"
    using iw by (simp add: pt' insertAt_update)
  have fits: "\<not> pageWidth < uint (ww' ! i)"
    using hyphenate_True_width [OF h i] by simp
  have after: "prepassMeasure pageWidth i pt' ww'
      = 2 * Suc (length (words pt ! i) - byteOffset info) + 2 * S + (Suc (length ww) - i)"
    using fits by (simp add: prepassMeasure_def d ww' S_def)
  have before: "prepassMeasure pageWidth i pt ww
      = 2 * Suc (length (words pt ! i)) + 2 * S + (length ww - i)"
    using i iw over by (simp add: prepassMeasure_def S_def)
  from off i show ?thesis
    unfolding after before by (simp add: Suc_diff_le)
qed

function splitOversized ::
  "HyphenationCommon \<Rightarrow> GfxRenderer \<Rightarrow> int \<Rightarrow> int \<Rightarrow> nat \<Rightarrow> ParsedText \<Rightarrow> 16 word list
     \<Rightarrow> ParsedText \<times> 16 word list" where
  "splitOversized E renderer fontId pageWidth i pt wordWidths =
     (if i < length wordWidths then
        if pageWidth < uint (wordWidths ! i) then
          case hyphenateWordAtIndex E renderer fontId i pageWidth True pt wordWidths of
            (split, pt', wordWidths') \<Rightarrow>
              if split then splitOversized E renderer fontId pageWidth i pt' wordWidths'
              else splitOversized E renderer fontId pageWidth (Suc i) pt' wordWidths'
        else splitOversized E renderer fontId pageWidth (Suc i) pt wordWidths
      else (pt, wordWidths))"
  by pat_completeness auto
termination
  apply (relation "measure (\<lambda>(E, renderer, fontId, pageWidth, i, pt, wordWidths).
                     prepassMeasure pageWidth i pt wordWidths)")
     apply simp
    apply (auto dest!: sym [of "(_, _, _)"] intro: prepassMeasure_split prepassMeasure_next
                dest: hyphenate_False)
  done

declare splitOversized.simps [simp del]


text \<open>
  The inner loop over \<open>j\<close> of the table filling, for the line that starts at \<open>i\<close>. The
  tables \<open>dp\<close> and \<open>ans\<close> are lists updated by index; \<^verbatim>\<open>currlen\<close>, \<^verbatim>\<open>pageWidth\<close> and
  \<^verbatim>\<open>remainingSpace\<close> are \<^verbatim>\<open>int\<close>s, the costs are 32-bit values compared as signed.
\<close>

function dpInner ::
  "int \<Rightarrow> int \<Rightarrow> 16 word list \<Rightarrow> nat \<Rightarrow> nat \<Rightarrow> nat \<Rightarrow> int \<Rightarrow> 32 word list \<times> nat list
     \<Rightarrow> 32 word list \<times> nat list" where
  "dpInner pageWidth spaceWidth wordWidths totalWordCount i j currlen (dp, ans) =
     (if j < totalWordCount then
        let currlen = currlen + uint (wordWidths ! j) + spaceWidth
        in if pageWidth < currlen then (dp, ans)
           else
             let cost = (if j = totalWordCount - 1 then 0
                         else lineCost (word_of_int (pageWidth - currlen)) (dp ! (j + 1)))
             in dpInner pageWidth spaceWidth wordWidths totalWordCount i (Suc j) currlen
                  (if cost <s dp ! i then (dp[i := cost], ans[i := j]) else (dp, ans))
      else (dp, ans))"
  by pat_completeness auto
termination
  by (relation "measure (\<lambda>(pageWidth, spaceWidth, wordWidths, totalWordCount, i, j, currlen, tabs).
                  totalWordCount - j)") auto

declare dpInner.simps [simp del]

text \<open>One round of the outer loop, for the index \<open>i\<close>, and the loop itself, which runs
  \<open>i\<close> from \<open>totalWordCount - 2\<close> down to \<open>0\<close>: \<open>dpOuter k\<close> does the rounds for
  \<open>i = k - 1, ..., 0\<close>.\<close>

definition dpRound ::
  "int \<Rightarrow> int \<Rightarrow> 16 word list \<Rightarrow> nat \<Rightarrow> nat \<Rightarrow> 32 word list \<times> nat list
     \<Rightarrow> 32 word list \<times> nat list" where
  "dpRound pageWidth spaceWidth wordWidths totalWordCount i tabs =
     (let (dp, ans) = tabs;
          currlen = - spaceWidth;
          dp = dp[i := MAX_COST];
          (dp, ans) = dpInner pageWidth spaceWidth wordWidths totalWordCount i i currlen (dp, ans)
      in if dp ! i = MAX_COST
         then (dp[i := (if i + 1 < totalWordCount then dp ! (i + 1) else 0)], ans[i := i])
         else (dp, ans))"

fun dpOuter ::
  "int \<Rightarrow> int \<Rightarrow> 16 word list \<Rightarrow> nat \<Rightarrow> nat \<Rightarrow> 32 word list \<times> nat list
     \<Rightarrow> 32 word list \<times> nat list" where
  "dpOuter pageWidth spaceWidth wordWidths totalWordCount 0 tabs = tabs"
| "dpOuter pageWidth spaceWidth wordWidths totalWordCount (Suc i) tabs =
     dpOuter pageWidth spaceWidth wordWidths totalWordCount i
       (dpRound pageWidth spaceWidth wordWidths totalWordCount i tabs)"

text \<open>The reconstruction of the breaks from \<open>ans\<close>.\<close>

function reconstruct :: "nat list \<Rightarrow> nat \<Rightarrow> nat \<Rightarrow> nat list \<Rightarrow> nat list" where
  "reconstruct ans totalWordCount currentWordIndex lineBreakIndices =
     (if currentWordIndex < totalWordCount then
        let nextBreakIndex = ans ! currentWordIndex + 1;
            nextBreakIndex = (if nextBreakIndex \<le> currentWordIndex then currentWordIndex + 1
                              else nextBreakIndex)
        in reconstruct ans totalWordCount nextBreakIndex (lineBreakIndices @ [nextBreakIndex])
      else lineBreakIndices)"
  by pat_completeness auto
termination
  by (relation "measure (\<lambda>(ans, totalWordCount, currentWordIndex, lineBreakIndices).
                  totalWordCount - currentWordIndex)") auto

declare reconstruct.simps [simp del]

definition computeLineBreaks ::
  "HyphenationCommon \<Rightarrow> GfxRenderer \<Rightarrow> int \<Rightarrow> int \<Rightarrow> int \<Rightarrow> ParsedText \<Rightarrow> 16 word list
     \<Rightarrow> nat list \<times> ParsedText \<times> 16 word list" where
  "computeLineBreaks E renderer fontId pageWidth spaceWidth pt wordWidths =
     (if words pt = [] then ([], pt, wordWidths)
      else
        let (pt, wordWidths) = splitOversized E renderer fontId pageWidth 0 pt wordWidths;
            totalWordCount = length (words pt);
            dp = replicate totalWordCount (0 :: 32 word);
            ans = replicate totalWordCount (0 :: nat);
            dp = dp[totalWordCount - 1 := 0];
            ans = ans[totalWordCount - 1 := totalWordCount - 1];
            (dp, ans) = dpOuter pageWidth spaceWidth wordWidths totalWordCount (totalWordCount - 1) (dp, ans)
        in (reconstruct ans totalWordCount 0 [], pt, wordWidths))"

section \<open>The paragraph engine\<close>

definition addWord :: "string \<Rightarrow> Style \<Rightarrow> ParsedText \<Rightarrow> ParsedText" where
  "addWord word fontStyle pt =
     (if word = [] then pt
      else pt\<lparr>words := words pt @ [word], wordStyles := wordStyles pt @ [fontStyle]\<rparr>)"

text \<open>The em space U+2003 that \<^verbatim>\<open>applyParagraphIndent\<close> puts before the first word.\<close>

definition EM_SPACE :: string where
  "EM_SPACE = [CHR 0xE2, CHR 0x80, CHR 0x83]"

definition applyParagraphIndent :: "ParsedText \<Rightarrow> ParsedText" where
  "applyParagraphIndent pt =
     (if extraParagraphSpacing pt \<or> words pt = [] then pt
      else if style pt = JUSTIFIED \<or> style pt = LEFT_ALIGN
           then pt\<lparr>words := (EM_SPACE @ hd (words pt)) # tl (words pt)\<rparr>
           else pt)"

definition calculateWordWidths :: "GfxRenderer \<Rightarrow> int \<Rightarrow> ParsedText \<Rightarrow> 16 word list" where
  "calculateWordWidths renderer fontId pt =
     map (\<lambda>i. measureWordWidth renderer fontId (words pt ! i) (wordStyles pt ! i) False)
         [0 ..< length (words pt)]"

text \<open>The loop of \<^verbatim>\<open>extractLine\<close> that lays the x positions: \<^verbatim>\<open>xpos\<close> is a \<^verbatim>\<open>uint16_t\<close>,
  so every step is taken modulo \<open>2\<^sup>1\<^sup>6\<close>.\<close>

fun xposLoop :: "16 word \<Rightarrow> int \<Rightarrow> 16 word list \<Rightarrow> 16 word list" where
  "xposLoop xpos spacing [] = []"
| "xposLoop xpos spacing (currentWordWidth # rest) =
     xpos # xposLoop (xpos + currentWordWidth + word_of_int spacing) spacing rest"

text \<open>
  In \<^verbatim>\<open>spareSpace / (lineWordCount - 1)\<close> and in the two start positions an \<^verbatim>\<open>int\<close>
  meets a \<^verbatim>\<open>size_t\<close>, so the arithmetic is unsigned, of the width of \<^verbatim>\<open>size_t\<close>: 32
  bits on the device this firmware is built for. The quotient goes back to \<^verbatim>\<open>int\<close>,
  the start positions to \<^verbatim>\<open>uint16_t\<close>.
\<close>

definition justifiedSpacing :: "int \<Rightarrow> nat \<Rightarrow> int" where
  "justifiedSpacing spareSpace lineWordCount =
     sint ((word_of_int spareSpace :: 32 word) div of_nat (lineWordCount - 1))"

definition extractLine ::
  "nat \<Rightarrow> int \<Rightarrow> int \<Rightarrow> 16 word list \<Rightarrow> nat list \<Rightarrow> ParsedText \<Rightarrow> TextBlock \<times> ParsedText" where
  "extractLine breakIndex pageWidth spaceWidth wordWidths lineBreakIndices pt =
     (let lineBreak = lineBreakIndices ! breakIndex;
          lastBreakAt = (if 0 < breakIndex then lineBreakIndices ! (breakIndex - 1) else 0);
          lineWordCount = lineBreak - lastBreakAt;
          lineWordWidthSum = sum_list (map (\<lambda>i. uint (wordWidths ! i)) [lastBreakAt ..< lineBreak]);
          spareSpace = pageWidth - lineWordWidthSum;
          isLastLine = (breakIndex = length lineBreakIndices - 1);
          spacing = (if style pt = JUSTIFIED \<and> \<not> isLastLine \<and> 2 \<le> lineWordCount
                     then justifiedSpacing spareSpace lineWordCount else spaceWidth);
          xpos = (if style pt = RIGHT_ALIGN
                  then word_of_int (spareSpace - int (lineWordCount - 1) * spaceWidth)
                  else if style pt = CENTER_ALIGN
                  then ucast ((word_of_int (spareSpace - int (lineWordCount - 1) * spaceWidth) :: 32 word) div 2)
                  else 0);
          lineXPos = xposLoop xpos spacing (map (\<lambda>i. wordWidths ! i) [lastBreakAt ..< lineBreak]);
          lineWords = take lineWordCount (words pt);
          lineWordStyles = take lineWordCount (wordStyles pt);
          lineWords = map (\<lambda>word. if containsSoftHyphen word then stripSoftHyphensInPlace word
                                     else word) lineWords
      in (\<lparr>tb_words = lineWords, tb_wordXpos = lineXPos, tb_wordStyles = lineWordStyles,
            tb_style = style pt\<rparr>,
          pt\<lparr>words := drop lineWordCount (words pt),
             wordStyles := drop lineWordCount (wordStyles pt)\<rparr>))"

text \<open>The loop over the lines; the blocks handed to \<^verbatim>\<open>processLine\<close> are collected in order.\<close>

fun extractLines ::
  "int \<Rightarrow> int \<Rightarrow> 16 word list \<Rightarrow> nat list \<Rightarrow> nat list \<Rightarrow> TextBlock list \<times> ParsedText
     \<Rightarrow> TextBlock list \<times> ParsedText" where
  "extractLines pageWidth spaceWidth wordWidths lineBreakIndices [] acc = acc"
| "extractLines pageWidth spaceWidth wordWidths lineBreakIndices (i # rest) (blocks, pt) =
     (let (block, pt) = extractLine i pageWidth spaceWidth wordWidths lineBreakIndices pt
      in extractLines pageWidth spaceWidth wordWidths lineBreakIndices rest (blocks @ [block], pt))"

definition layoutAndExtractLines ::
  "HyphenationCommon \<Rightarrow> GfxRenderer \<Rightarrow> int \<Rightarrow> 16 word \<Rightarrow> bool \<Rightarrow> ParsedText
     \<Rightarrow> TextBlock list \<times> ParsedText" where
  "layoutAndExtractLines E renderer fontId viewportWidth includeLastLine pt =
     (if words pt = [] then ([], pt)
      else
        let pt = applyParagraphIndent pt;
            pageWidth = uint viewportWidth;
            spaceWidth = getSpaceWidth renderer fontId;
            wordWidths = calculateWordWidths renderer fontId pt;
            (lineBreakIndices, pt, wordWidths) =
              (if hyphenationEnabled pt
               then computeHyphenatedLineBreaks E renderer fontId pageWidth spaceWidth pt wordWidths
               else computeLineBreaks E renderer fontId pageWidth spaceWidth pt wordWidths);
            lineCount = (if includeLastLine then length lineBreakIndices
                         else length lineBreakIndices - 1)
        in extractLines pageWidth spaceWidth wordWidths lineBreakIndices [0 ..< lineCount] ([], pt))"

section \<open>Spacing of an extracted line\<close>

lemma signed_take_bit_31_small:
  fixes k :: int
  assumes "0 \<le> k" "k < 2 ^ 31"
  shows "signed_take_bit 31 k = k"
  using assms by (simp add: signed_take_bit_int_eq_self_iff)

lemma justifiedSpacing_eq:
  assumes "0 \<le> spareSpace" "spareSpace < 2 ^ 31" "2 \<le> lineWordCount" "lineWordCount < 2 ^ 32"
  shows "justifiedSpacing spareSpace lineWordCount = spareSpace div int (lineWordCount - 1)"
proof -
  let ?a = "word_of_int spareSpace :: 32 word" and ?b = "of_nat (lineWordCount - 1) :: 32 word"
  have a: "uint ?a = spareSpace"
    using assms(1,2) by (simp add: uint_word_of_int)
  have "unat ?b = lineWordCount - 1"
    using assms(4) by (simp add: unat_of_nat)
  then have b: "uint ?b = int (lineWordCount - 1)"
    by (metis uint_nat)
  have q: "uint (?a div ?b) = spareSpace div int (lineWordCount - 1)"
    by (simp only: uint_div a b)
  have "spareSpace div int (lineWordCount - 1) \<le> spareSpace"
  proof -
    have "1 \<le> int (lineWordCount - 1)" using assms(3) by simp
    then have "spareSpace div int (lineWordCount - 1) \<le> spareSpace div 1"
      using assms(1) by (intro zdiv_mono2) simp_all
    then show ?thesis by simp
  qed
  with assms(2) have "spareSpace div int (lineWordCount - 1) < 2 ^ 31"
    by linarith
  then have "uint (?a div ?b) < 2 ^ 31"
    by (simp only: q)
  with uint_ge_0 [of "?a div ?b"] have r: "0 \<le> uint (?a div ?b)" "uint (?a div ?b) < 2 ^ 31"
    by blast+
  have "sint (?a div ?b) = signed_take_bit 31 (uint (?a div ?b))"
    by (simp add: sint_uint)
  also have "\<dots> = uint (?a div ?b)"
    by (rule signed_take_bit_31_small [OF r])
  finally show ?thesis
    by (simp only: justifiedSpacing_def q)
qed

lemma xposLoop_length [simp]: "length (xposLoop xpos spacing ws) = length ws"
  by (induction ws arbitrary: xpos) simp_all

lemma xposLoop_step:
  "Suc n < length ws
     \<Longrightarrow> xposLoop xpos spacing ws ! Suc n = xposLoop xpos spacing ws ! n + ws ! n + word_of_int spacing"
proof (induction ws arbitrary: xpos n)
  case Nil
  then show ?case by simp
next
  case (Cons w ws)
  show ?case
  proof (cases n)
    case 0
    with Cons.prems obtain v vs where "ws = v # vs" by (cases ws) auto
    with 0 show ?thesis by simp
  next
    case (Suc m)
    with Cons.prems Cons.IH [of m "xpos + w + word_of_int spacing"] show ?thesis by simp
  qed
qed


text \<open>The extent of an emitted line as the renderer will draw it: from the left edge of
  its first word to the right edge of its last word, that is, the widths of its words
  plus the gaps between them.\<close>

definition lineSpan :: "GfxRenderer \<Rightarrow> int \<Rightarrow> TextBlock \<Rightarrow> int" where
  "lineSpan renderer fontId block =
     uint (last (tb_wordXpos block))
     + uint (measureWordWidth renderer fontId (last (tb_words block)) (last (tb_wordStyles block)) False)
     - uint (hd (tb_wordXpos block))"

definition justifiedSample :: ParsedText where
  "justifiedSample =
     \<lparr>words = [''aaa'', ''bbbb'', ''ccc'', ''dddddddddddddddddd''],
      wordStyles = [REGULAR, REGULAR, REGULAR, REGULAR], style = JUSTIFIED,
      extraParagraphSpacing = True, hyphenationEnabled = False\<rparr>"

text \<open>
  The claim \<^bold>\<open>C2\<close> as stated fails: a Justified paragraph of four words in a viewport of
  205 pixels. Its first line is not the last one and holds three words of widths 30, 40
  and 30; the leftover of 105 pixels is divided by 2 with the remainder dropped, the
  gaps are 52 pixels each, and widths plus gaps are 204 pixels, not 205.
\<close>

theorem justified_line_short_of_viewport:
  "length (fst (layoutAndExtractLines refCommon monoRenderer 0 205 True justifiedSample)) = 2
   \<and> tb_style (hd (fst (layoutAndExtractLines refCommon monoRenderer 0 205 True justifiedSample))) = JUSTIFIED
   \<and> tb_words (hd (fst (layoutAndExtractLines refCommon monoRenderer 0 205 True justifiedSample)))
       = [''aaa'', ''bbbb'', ''ccc'']
   \<and> tb_wordXpos (hd (fst (layoutAndExtractLines refCommon monoRenderer 0 205 True justifiedSample)))
       = [0, 82, 174]
   \<and> lineSpan monoRenderer 0 (hd (fst (layoutAndExtractLines refCommon monoRenderer 0 205 True justifiedSample)))
       = 204
   \<and> lineSpan monoRenderer 0 (hd (fst (layoutAndExtractLines refCommon monoRenderer 0 205 True justifiedSample)))
       \<noteq> uint (205 :: 16 word)"
  by code_simp

text \<open>
  \<^bold>\<open>C2\<close> (justification, as amended). The x positions of an emitted line advance by the
  width of the word plus one gap value (modulo \<open>2\<^sup>1\<^sup>6\<close>, the positions being
  \<^verbatim>\<open>uint16_t\<close>). On a line of a Justified paragraph that is not the last one and holds
  at least two words which fit the viewport, the gap is the leftover width divided by
  the number of gaps, rounded down, so that the word widths plus the gaps are the
  viewport width minus the remainder of that division. On every line of another
  alignment, on the last line and on a line of one word the gap is the base space width.
\<close>

theorem extractLine_gaps:
  assumes "extractLine breakIndex pageWidth spaceWidth wordWidths lineBreakIndices pt = (block, pt')"
    and "ws = map (\<lambda>i. wordWidths ! i)
                [(if 0 < breakIndex then lineBreakIndices ! (breakIndex - 1) else 0)
                 ..< lineBreakIndices ! breakIndex]"
    and "spareSpace = pageWidth - sum_list (map uint ws)"
  shows "\<exists>gap. length (tb_wordXpos block) = length ws
     \<and> (\<forall>n. Suc n < length ws
            \<longrightarrow> tb_wordXpos block ! Suc n = tb_wordXpos block ! n + ws ! n + word_of_int gap)
     \<and> (if style pt = JUSTIFIED \<and> breakIndex \<noteq> length lineBreakIndices - 1 \<and> 2 \<le> length ws
         then 0 \<le> spareSpace \<and> spareSpace < 2 ^ 31 \<and> length ws < 2 ^ 32
              \<longrightarrow> gap = spareSpace div int (length ws - 1)
                  \<and> sum_list (map uint ws) + int (length ws - 1) * gap
                      = pageWidth - spareSpace mod int (length ws - 1)
         else gap = spaceWidth)"
proof -
  let ?lastBreakAt = "if 0 < breakIndex then lineBreakIndices ! (breakIndex - 1) else 0"
  let ?lineBreak = "lineBreakIndices ! breakIndex"
  let ?just = "style pt = JUSTIFIED \<and> breakIndex \<noteq> length lineBreakIndices - 1 \<and> 2 \<le> length ws"
  define gap where "gap = (if ?just then justifiedSpacing spareSpace (length ws) else spaceWidth)"
  have len: "?lineBreak - ?lastBreakAt = length ws"
    by (simp add: assms(2))
  have sum: "sum_list (map (\<lambda>i. uint (wordWidths ! i)) [?lastBreakAt ..< ?lineBreak]) = sum_list (map uint ws)"
    by (simp add: assms(2) comp_def)
  have "block = fst (extractLine breakIndex pageWidth spaceWidth wordWidths lineBreakIndices pt)"
    by (simp add: assms(1))
  then have "\<exists>x0. tb_wordXpos block = xposLoop x0 gap ws"
    unfolding extractLine_def Let_def len sum gap_def assms(3) assms(2) [symmetric]
    by (simp only: fst_conv TextBlock.select_convs) blast
  then obtain x0 where xs: "tb_wordXpos block = xposLoop x0 gap ws" ..
  have 1: "length (tb_wordXpos block) = length ws"
    by (simp add: xs)
  have 2: "\<forall>n. Suc n < length ws
            \<longrightarrow> tb_wordXpos block ! Suc n = tb_wordXpos block ! n + ws ! n + word_of_int gap"
    by (simp add: xs xposLoop_step)
  have 3: "gap = spareSpace div int (length ws - 1)
         \<and> sum_list (map uint ws) + int (length ws - 1) * gap
               = pageWidth - spareSpace mod int (length ws - 1)"
    if j: ?just and r: "0 \<le> spareSpace" "spareSpace < 2 ^ 31" "length ws < 2 ^ 32"
  proof -
    from j have k: "2 \<le> length ws" by simp
    have g: "gap = spareSpace div int (length ws - 1)"
      using j by (simp add: gap_def justifiedSpacing_eq [OF r(1,2) k r(3)])
    have "int (length ws - 1) * (spareSpace div int (length ws - 1))
            = spareSpace - spareSpace mod int (length ws - 1)"
      by (simp add: minus_mod_eq_mult_div)
    with g assms(3) show ?thesis by simp
  qed
  have 4: "gap = spaceWidth" if "\<not> ?just"
    using that unfolding gap_def by (simp only: if_False)
  from 1 2 3 4 show ?thesis
    by (intro exI [of _ gap]) auto
qed

theorem extractLine_gaps_witness:
  "extractLine 0 205 5 [30, 40, 30, 180] [3, 4] justifiedSample
     = (\<lparr>tb_words = [''aaa'', ''bbbb'', ''ccc''], tb_wordXpos = [0, 82, 174],
          tb_wordStyles = [REGULAR, REGULAR, REGULAR], tb_style = JUSTIFIED\<rparr>,
        justifiedSample\<lparr>words := [''dddddddddddddddddd''], wordStyles := [REGULAR]\<rparr>)
   \<and> (\<exists>gap. (\<forall>n. Suc n < 3 \<longrightarrow> [0, 82, 174 :: 16 word] ! Suc n
                    = [0, 82, 174] ! n + [30, 40, 30] ! n + word_of_int gap)
         \<and> gap = 52 \<and> 100 + 2 * gap = 205 - (1 :: int))"
proof -
  have ex: "extractLine 0 205 5 [30, 40, 30, 180] [3, 4] justifiedSample
     = (\<lparr>tb_words = [''aaa'', ''bbbb'', ''ccc''], tb_wordXpos = [0, 82, 174],
          tb_wordStyles = [REGULAR, REGULAR, REGULAR], tb_style = JUSTIFIED\<rparr>,
        justifiedSample\<lparr>words := [''dddddddddddddddddd''], wordStyles := [REGULAR]\<rparr>)"
    by code_simp
  have ws: "map (\<lambda>i. [30, 40, 30, 180 :: 16 word] ! i)
                [(if 0 < (0::nat) then [3, 4] ! (0 - 1) else 0) ..< [3, 4] ! 0] = [30, 40, 30]"
    by (simp add: upt_rec)
  have st: "style justifiedSample = JUSTIFIED"
    by (simp add: justifiedSample_def)
  from extractLine_gaps [OF ex refl refl] have "\<exists>gap. (\<forall>n. Suc n < 3 \<longrightarrow> [0, 82, 174 :: 16 word] ! Suc n
                    = [0, 82, 174] ! n + [30, 40, 30] ! n + word_of_int gap)
         \<and> gap = 52 \<and> 100 + 2 * gap = 205 - (1 :: int)"
    unfolding ws st by simp
  with ex show ?thesis by blast
qed

section \<open>Minimum prefix and suffix\<close>

text \<open>A compiled pattern: its letters and one weight for every gap before, between and
  after them.\<close>

record LiangPattern =
  pat_letters :: "32 word list"
  pat_weights :: "nat list"

text \<open>Modelled from the spec: \<^verbatim>\<open>LanguageHyphenator::breakIndexes\<close> is declared in
  \<^verbatim>\<open>LanguageHyphenator.h\<close>, which is not part of the sources at hand. The spec says: the
  word is lowercased by the language's rule and put between word-boundary markers;
  every pattern that occurs in it puts its weights on the gaps it covers; each gap
  keeps the largest weight; a gap whose largest weight is odd is a legal break;
  candidates that violate the minimum prefix or the minimum suffix are discarded; a
  word with a codepoint outside the language's alphabet takes no part.\<close>

definition gapWeight :: "LiangPattern list \<Rightarrow> 32 word list \<Rightarrow> nat \<Rightarrow> nat" where
  "gapWeight patterns normalized g =
     foldr max
       (concat (map (\<lambda>p. concat (map (\<lambda>k.
            if take (length (pat_letters p)) (drop k normalized) = pat_letters p
               \<and> k \<le> g \<and> g - k < length (pat_weights p)
            then [pat_weights p ! (g - k)] else [])
          [0 ..< length normalized])) patterns))
       0"

definition liangBreakIndexes ::
  "LiangPattern list \<Rightarrow> (32 word \<Rightarrow> bool) \<Rightarrow> (32 word \<Rightarrow> 32 word) \<Rightarrow> nat \<Rightarrow> nat
     \<Rightarrow> CodepointInfo list \<Rightarrow> nat list" where
  "liangBreakIndexes patterns isLetter toLower minPre minSuf cps =
     (if \<not> list_all (\<lambda>c. isLetter (cp_value c)) cps then []
      else
        let normalized = [0x2E] @ map (\<lambda>c. toLower (cp_value c)) cps @ [0x2E]
        in filter (\<lambda>i. odd (gapWeight patterns normalized (i + 1))
                         \<and> minPre \<le> i \<and> i + minSuf \<le> length cps)
             [1 ..< length cps])"

text \<open>Modelled from the spec: the constructor call of the registry,
  \<^verbatim>\<open>LanguageHyphenator(patterns, isLetter, toLower, minPrefix, minSuffix)\<close>.\<close>

definition languageHyphenator ::
  "LiangPattern list \<Rightarrow> (32 word \<Rightarrow> bool) \<Rightarrow> (32 word \<Rightarrow> 32 word) \<Rightarrow> nat \<Rightarrow> nat
     \<Rightarrow> LanguageHyphenator" where
  "languageHyphenator patterns isLetter toLower minPre minSuf =
     \<lparr>breakIndexes = liangBreakIndexes patterns isLetter toLower minPre minSuf,
      minPrefix = minPre, minSuffix = minSuf\<rparr>"

lemma fallbackIndexes_set:
  "set (fallbackIndexes minPre minSuf n) = {i. minPre \<le> i \<and> i + minSuf \<le> n}"
  by (auto simp: fallbackIndexes_def)

lemma breakOffsets_fallback:
  assumes "word \<noteq> []"
    and "cps = trimSurroundingPunctuationAndFootnote E (collectCodepoints E word)"
    and "buildExplicitBreakInfos E cps = []"
    and "(case cachedHyphenator E of Some h \<Rightarrow> breakIndexes h cps | None \<Rightarrow> []) = []"
  shows "breakOffsets E word True
     = map (\<lambda>idx. \<lparr>byteOffset = byteOffsetForIndex cps idx, requiresInsertedHyphen = True\<rparr>)
         (fallbackIndexes
            (case cachedHyphenator E of Some h \<Rightarrow> minPrefix h | None \<Rightarrow> kDefaultMinPrefix E)
            (case cachedHyphenator E of Some h \<Rightarrow> minSuffix h | None \<Rightarrow> kDefaultMinSuffix E)
            (length cps))"
  using assms(1,3,4) unfolding assms(2) by (simp add: breakOffsets_def Let_def)

text \<open>
  \<^bold>\<open>C9\<close> (minimum-affix bound). Every break index that a language hyphenator with the
  minimums \<open>(p, s)\<close> returns on \<open>n\<close> codepoints satisfies \<open>p \<le> i\<close> and \<open>i + s \<le> n\<close> (the
  hyphenator as modelled from the spec). When the word has no explicit marker, the
  active language yields no break and \<open>includeFallback\<close> is set, \<open>breakOffsets\<close> returns
  the byte offsets, each flagged as needing a hyphen, of exactly the indices \<open>i\<close> with
  \<open>p' \<le> i\<close> and \<open>i + s' \<le> n\<close>, once each and in increasing order, where \<open>p'\<close> and \<open>s'\<close> are
  the minimums of the active language, or the defaults when no language is active.
\<close>

theorem minimum_affix_bounds:
  "(\<forall>i \<in> set (breakIndexes (languageHyphenator patterns isLetter toLower p s) cps).
      p \<le> i \<and> i + s \<le> length cps)
   \<and> (word \<noteq> []
        \<and> cps' = trimSurroundingPunctuationAndFootnote E (collectCodepoints E word)
        \<and> \<not> (\<exists>i. 1 \<le> i \<and> i + 1 < length cps' \<and> explicitMarkerAt E cps' i)
        \<and> (case cachedHyphenator E of Some h \<Rightarrow> breakIndexes h cps' | None \<Rightarrow> []) = []
        \<and> p' = (case cachedHyphenator E of Some h \<Rightarrow> minPrefix h | None \<Rightarrow> kDefaultMinPrefix E)
        \<and> s' = (case cachedHyphenator E of Some h \<Rightarrow> minSuffix h | None \<Rightarrow> kDefaultMinSuffix E)
      \<longrightarrow> breakOffsets E word True
            = map (\<lambda>idx. \<lparr>byteOffset = byteOffsetForIndex cps' idx, requiresInsertedHyphen = True\<rparr>)
                (fallbackIndexes p' s' (length cps'))
          \<and> set (fallbackIndexes p' s' (length cps')) = {i. p' \<le> i \<and> i + s' \<le> length cps'}
          \<and> sorted (fallbackIndexes p' s' (length cps')) \<and> distinct (fallbackIndexes p' s' (length cps')))"
proof (intro conjI impI ballI)
  fix i assume "i \<in> set (breakIndexes (languageHyphenator patterns isLetter toLower p s) cps)"
  then show "p \<le> i" "i + s \<le> length cps"
    by (auto simp: languageHyphenator_def liangBreakIndexes_def Let_def split: if_splits)
next
  assume a: "word \<noteq> []
        \<and> cps' = trimSurroundingPunctuationAndFootnote E (collectCodepoints E word)
        \<and> \<not> (\<exists>i. 1 \<le> i \<and> i + 1 < length cps' \<and> explicitMarkerAt E cps' i)
        \<and> (case cachedHyphenator E of Some h \<Rightarrow> breakIndexes h cps' | None \<Rightarrow> []) = []
        \<and> p' = (case cachedHyphenator E of Some h \<Rightarrow> minPrefix h | None \<Rightarrow> kDefaultMinPrefix E)
        \<and> s' = (case cachedHyphenator E of Some h \<Rightarrow> minSuffix h | None \<Rightarrow> kDefaultMinSuffix E)"
  then have "buildExplicitBreakInfos E cps' = []"
    using buildExplicitBreakInfos_nonempty [of E cps'] by blast
  with a show "breakOffsets E word True
            = map (\<lambda>idx. \<lparr>byteOffset = byteOffsetForIndex cps' idx, requiresInsertedHyphen = True\<rparr>)
                (fallbackIndexes p' s' (length cps'))"
    using breakOffsets_fallback [of word cps' E] by simp
  show "set (fallbackIndexes p' s' (length cps')) = {i. p' \<le> i \<and> i + s' \<le> length cps'}"
    by (rule fallbackIndexes_set)
  show "sorted (fallbackIndexes p' s' (length cps'))" "distinct (fallbackIndexes p' s' (length cps'))"
    by (simp_all add: fallbackIndexes_def)
qed

definition samplePatterns :: "LiangPattern list" where
  "samplePatterns = [\<lparr>pat_letters = [0x6C, 0x6C], pat_weights = [0, 1, 0]\<rparr>]"

definition sampleLanguage :: LanguageHyphenator where
  "sampleLanguage = languageHyphenator samplePatterns (isAlphabetic refCommon) (\<lambda>c. c) 2 2"



theorem minimum_affix_bounds_witness:
  "breakIndexes (languageHyphenator samplePatterns (isAlphabetic refCommon) (\<lambda>c. c) 2 2)
        (utf8Decode 0 ''hello'') = [3]
   \<and> (2 :: nat) \<le> 3 \<and> (3 :: nat) + 2 \<le> length (utf8Decode 0 ''hello'')
   \<and> breakOffsets (refCommon\<lparr>cachedHyphenator := Some sampleLanguage\<rparr>) ''(maison)'' True
       = [\<lparr>byteOffset = 3, requiresInsertedHyphen = True\<rparr>,
          \<lparr>byteOffset = 4, requiresInsertedHyphen = True\<rparr>,
          \<lparr>byteOffset = 5, requiresInsertedHyphen = True\<rparr>]
   \<and> set (fallbackIndexes 2 2 6) = {i. 2 \<le> i \<and> i + 2 \<le> 6}"
proof -
  let ?E = "refCommon\<lparr>cachedHyphenator := Some sampleLanguage\<rparr>"
  let ?cps = "trimSurroundingPunctuationAndFootnote ?E (collectCodepoints ?E ''(maison)'')"
  have cps: "?cps = [\<lparr>cp_value = 0x6D, cp_byteOffset = 1\<rparr>, \<lparr>cp_value = 0x61, cp_byteOffset = 2\<rparr>,
       \<lparr>cp_value = 0x69, cp_byteOffset = 3\<rparr>, \<lparr>cp_value = 0x73, cp_byteOffset = 4\<rparr>,
       \<lparr>cp_value = 0x6F, cp_byteOffset = 5\<rparr>, \<lparr>cp_value = 0x6E, cp_byteOffset = 6\<rparr>]"
    by code_simp
  have len: "length (utf8Decode 0 ''hello'') = 5" by code_simp
  have b: "breakIndexes (languageHyphenator samplePatterns (isAlphabetic refCommon) (\<lambda>c. c) 2 2)
        (utf8Decode 0 ''hello'') = [3]"
    by code_simp
  have h1: "''(maison)'' \<noteq> []" by simp
  have h2: "\<not> (\<exists>i. 1 \<le> i \<and> i + 1 < length ?cps \<and> explicitMarkerAt ?E ?cps i)"
  proof -
    have "buildExplicitBreakInfos ?E ?cps = []" by code_simp
    then show ?thesis
      using buildExplicitBreakInfos_nonempty [of ?E ?cps] by blast
  qed
  have h3: "(case cachedHyphenator ?E of Some h \<Rightarrow> breakIndexes h ?cps | None \<Rightarrow> []) = []"
    by code_simp
  have p: "(case cachedHyphenator ?E of Some h \<Rightarrow> minPrefix h | None \<Rightarrow> kDefaultMinPrefix ?E) = 2"
    and s: "(case cachedHyphenator ?E of Some h \<Rightarrow> minSuffix h | None \<Rightarrow> kDefaultMinSuffix ?E) = 2"
    by (simp_all add: sampleLanguage_def languageHyphenator_def)
  note T = minimum_affix_bounds [of samplePatterns "isAlphabetic refCommon" "\<lambda>c. c" 2 2
              "utf8Decode 0 ''hello''" "''(maison)''" ?cps ?E 2 2]
  from T have "\<forall>i \<in> set (breakIndexes (languageHyphenator samplePatterns (isAlphabetic refCommon) (\<lambda>c. c) 2 2)
                  (utf8Decode 0 ''hello'')). 2 \<le> i \<and> i + 2 \<le> length (utf8Decode 0 ''hello'')"
    by blast
  then have 1: "(2 :: nat) \<le> 3 \<and> (3 :: nat) + 2 \<le> length (utf8Decode 0 ''hello'')"
    unfolding b by simp
  from T h1 h2 h3 p s have 2: "breakOffsets ?E ''(maison)'' True
            = map (\<lambda>idx. \<lparr>byteOffset = byteOffsetForIndex ?cps idx, requiresInsertedHyphen = True\<rparr>)
                (fallbackIndexes 2 2 (length ?cps))"
    and 3: "set (fallbackIndexes 2 2 (length ?cps)) = {i. 2 \<le> i \<and> i + 2 \<le> length ?cps}"
    by simp_all
  have m: "map (\<lambda>idx. \<lparr>byteOffset = byteOffsetForIndex ?cps idx, requiresInsertedHyphen = True\<rparr>)
                (fallbackIndexes 2 2 (length ?cps))
       = [\<lparr>byteOffset = 3, requiresInsertedHyphen = True\<rparr>,
          \<lparr>byteOffset = 4, requiresInsertedHyphen = True\<rparr>,
          \<lparr>byteOffset = 5, requiresInsertedHyphen = True\<rparr>]"
    by code_simp
  have 4: "breakOffsets ?E ''(maison)'' True
       = [\<lparr>byteOffset = 3, requiresInsertedHyphen = True\<rparr>,
          \<lparr>byteOffset = 4, requiresInsertedHyphen = True\<rparr>,
          \<lparr>byteOffset = 5, requiresInsertedHyphen = True\<rparr>]"
    unfolding 2 by (rule m)
  have l6: "length ?cps = 6" unfolding cps by simp
  from 3 have 5: "set (fallbackIndexes 2 2 6) = {i. 2 \<le> i \<and> i + 2 \<le> 6}"
    unfolding l6 .
  from 1 b 4 5 show ?thesis by blast
qed

section \<open>The split policy of the greedy breaker\<close>

lemma breakOffsets_no_fallback:
  assumes "word \<noteq> []"
  shows "breakOffsets E word False
     = (if buildExplicitBreakInfos E (trimSurroundingPunctuationAndFootnote E (collectCodepoints E word)) \<noteq> []
        then buildExplicitBreakInfos E (trimSurroundingPunctuationAndFootnote E (collectCodepoints E word))
        else map (\<lambda>idx. \<lparr>byteOffset = byteOffsetForIndex
                                         (trimSurroundingPunctuationAndFootnote E (collectCodepoints E word)) idx,
                          requiresInsertedHyphen = True\<rparr>)
               (case cachedHyphenator E of
                  Some h \<Rightarrow> breakIndexes h (trimSurroundingPunctuationAndFootnote E (collectCodepoints E word))
                | None \<Rightarrow> []))"
  using assms by (simp add: breakOffsets_def Let_def)

text \<open>
  \<^bold>\<open>C6\<close> (split policy of the greedy breaker). At a word that overflows the current
  line the inner loop asks for break candidates with the fallback allowed exactly when
  the word is the first of the line; for a later word the candidates are the explicit
  markers or else the breaks of the active language, never the fallback ones. When
  some candidate's prefix fits the available width, the word is split at a fitting
  candidate of the largest prefix width, the prefix closes the line and its width is
  cached. When none fits (or no width is available) nothing is changed: a later word
  is left for the next line (the line closes before it), a first word is put on the
  line alone and the line closes after it.
\<close>

theorem greedy_split_policy:
  assumes "currentIndex < length wordWidths"
    and "spacing = (if currentIndex = lineStart then 0 else spaceWidth)"
    and "pageWidth < lineWidth + (spacing + uint (wordWidths ! currentIndex))"
    and "availableWidth = pageWidth - lineWidth - spacing"
    and "word = words pt ! currentIndex" and "sty = wordStyles pt ! currentIndex"
    and "candidates = breakOffsets E word (currentIndex = lineStart)"
    and "fillLine E renderer fontId pageWidth spaceWidth lineStart lineWidth currentIndex pt wordWidths
           = (k, pt', wordWidths')"
  shows "(currentIndex \<noteq> lineStart \<and> word \<noteq> [] \<longrightarrow>
            candidates
            = (if buildExplicitBreakInfos E (trimSurroundingPunctuationAndFootnote E (collectCodepoints E word)) \<noteq> []
               then buildExplicitBreakInfos E (trimSurroundingPunctuationAndFootnote E (collectCodepoints E word))
               else map (\<lambda>idx. \<lparr>byteOffset = byteOffsetForIndex
                                         (trimSurroundingPunctuationAndFootnote E (collectCodepoints E word)) idx,
                                 requiresInsertedHyphen = True\<rparr>)
                      (case cachedHyphenator E of
                         Some h \<Rightarrow> breakIndexes h (trimSurroundingPunctuationAndFootnote E (collectCodepoints E word))
                       | None \<Rightarrow> [])))
       \<and> (if 0 < availableWidth \<and> currentIndex < length (words pt)
              \<and> (\<exists>info \<in> set candidates. fittingBreak renderer fontId word sty availableWidth info)
           then k = Suc currentIndex
              \<and> (\<exists>info \<in> set candidates.
                     fittingBreak renderer fontId word sty availableWidth info
                   \<and> (\<forall>info' \<in> set candidates.
                         fittingBreak renderer fontId word sty availableWidth info'
                         \<longrightarrow> prefixWidthOf renderer fontId word sty info'
                               \<le> prefixWidthOf renderer fontId word sty info)
                   \<and> words pt' = take currentIndex (words pt)
                        @ (take (byteOffset info) word
                             @ (if requiresInsertedHyphen info then [CHR ''-''] else []))
                        # drop (byteOffset info) word
                        # drop (Suc currentIndex) (words pt)
                   \<and> uint (wordWidths' ! currentIndex) = prefixWidthOf renderer fontId word sty info)
           else pt' = pt \<and> wordWidths' = wordWidths
              \<and> k = (if currentIndex = lineStart then Suc currentIndex else currentIndex))"
proof (intro conjI impI)
  assume "currentIndex \<noteq> lineStart \<and> word \<noteq> []"
  then show "candidates
            = (if buildExplicitBreakInfos E (trimSurroundingPunctuationAndFootnote E (collectCodepoints E word)) \<noteq> []
               then buildExplicitBreakInfos E (trimSurroundingPunctuationAndFootnote E (collectCodepoints E word))
               else map (\<lambda>idx. \<lparr>byteOffset = byteOffsetForIndex
                                         (trimSurroundingPunctuationAndFootnote E (collectCodepoints E word)) idx,
                                 requiresInsertedHyphen = True\<rparr>)
                      (case cachedHyphenator E of
                         Some h \<Rightarrow> breakIndexes h (trimSurroundingPunctuationAndFootnote E (collectCodepoints E word))
                       | None \<Rightarrow> []))"
    using breakOffsets_no_fallback [of word E] by (simp add: assms(7))
next
  let ?h = "hyphenateWordAtIndex E renderer fontId currentIndex availableWidth
              (currentIndex = lineStart) pt wordWidths"
  let ?r = "if 0 < availableWidth then ?h else (False, pt, wordWidths)"
  let ?can = "0 < availableWidth \<and> currentIndex < length (words pt)
              \<and> (\<exists>info \<in> set candidates. fittingBreak renderer fontId word sty availableWidth info)"
  obtain split pt1 ww1 where r: "?r = (split, pt1, ww1)" by (cases ?r) auto
  have over: "\<not> lineWidth + ((if currentIndex = lineStart then 0 else spaceWidth)
                          + uint (wordWidths ! currentIndex)) \<le> pageWidth"
    using assms(2,3) by simp
  have res: "(k, pt', wordWidths')
      = (if split \<or> currentIndex = lineStart then (Suc currentIndex, pt1, ww1)
         else (currentIndex, pt1, ww1))"
    using fillLine_overflow [OF assms(1) over, of E renderer fontId pt split pt1 ww1] r assms(8)
    unfolding assms(4) assms(2) by simp
  have fails: "\<not> fst ?h \<longleftrightarrow> \<not> ?can"
    unfolding hyphenate_fails_iff assms(5,6,7) by auto
  show "if ?can
        then k = Suc currentIndex
              \<and> (\<exists>info \<in> set candidates.
                     fittingBreak renderer fontId word sty availableWidth info
                   \<and> (\<forall>info' \<in> set candidates.
                         fittingBreak renderer fontId word sty availableWidth info'
                         \<longrightarrow> prefixWidthOf renderer fontId word sty info'
                               \<le> prefixWidthOf renderer fontId word sty info)
                   \<and> words pt' = take currentIndex (words pt)
                        @ (take (byteOffset info) word
                             @ (if requiresInsertedHyphen info then [CHR ''-''] else []))
                        # drop (byteOffset info) word
                        # drop (Suc currentIndex) (words pt)
                   \<and> uint (wordWidths' ! currentIndex) = prefixWidthOf renderer fontId word sty info)
        else pt' = pt \<and> wordWidths' = wordWidths
              \<and> k = (if currentIndex = lineStart then Suc currentIndex else currentIndex)"
  proof (cases ?can)
    case True
    with fails have "fst ?h" by blast
    with True r have h: "?h = (True, pt1, ww1)" and split by (auto simp: prod_eq_iff)
    from res \<open>split\<close> have k: "k = Suc currentIndex" "pt' = pt1" "wordWidths' = ww1" by simp_all
    from hyphenate_True [OF h] obtain info where
      info: "info \<in> set candidates" "fittingBreak renderer fontId word sty availableWidth info"
        "\<forall>info' \<in> set candidates. fittingBreak renderer fontId word sty availableWidth info'
           \<longrightarrow> prefixWidthOf renderer fontId word sty info' \<le> prefixWidthOf renderer fontId word sty info"
      and w: "words pt1 = insertAt (Suc currentIndex) (drop (byteOffset info) word)
                          ((words pt)[currentIndex := take (byteOffset info) word
                              @ (if requiresInsertedHyphen info then [CHR ''-''] else [])])"
      and ww: "ww1 = insertAt (Suc currentIndex)
                    (measureWordWidth renderer fontId (drop (byteOffset info) word) sty False)
                    (wordWidths[currentIndex := word_of_int (prefixWidthOf renderer fontId word sty info)])"
      unfolding assms(5,6,7) by auto
    from True have ci: "currentIndex < length (words pt)" by simp
    have w': "words pt' = take currentIndex (words pt)
                        @ (take (byteOffset info) word
                             @ (if requiresInsertedHyphen info then [CHR ''-''] else []))
                        # drop (byteOffset info) word
                        # drop (Suc currentIndex) (words pt)"
      unfolding k w by (rule insertAt_update [OF ci])
    have "wordWidths' ! currentIndex = word_of_int (prefixWidthOf renderer fontId word sty info)"
      unfolding k ww using assms(1) by (simp add: insertAt_def nth_append)
    then have u: "uint (wordWidths' ! currentIndex) = prefixWidthOf renderer fontId word sty info"
      by (simp add: prefixWidthOf_def)
    from True k(1) info w' u show ?thesis by auto
  next
    case False
    have "\<not> split \<and> pt1 = pt \<and> ww1 = wordWidths"
    proof (cases "0 < availableWidth")
      case True
      with r have h: "?h = (split, pt1, ww1)" by simp
      with fails False have "\<not> split" by simp
      with h hyphenate_False [of E renderer fontId currentIndex availableWidth
              "currentIndex = lineStart" pt wordWidths pt1 ww1]
      show ?thesis by simp
    next
      case False
      with r show ?thesis by simp
    qed
    with res False show ?thesis by (simp split: if_splits)
  qed
qed


theorem greedy_split_policy_witness:
  "fillLine refCommon monoRenderer 0 45 5 0 0 0 twoWords [50, 50]
     = (1, twoWords\<lparr>words := [''hel-'', ''lo'', ''world''], wordStyles := [REGULAR, REGULAR, BOLD]\<rparr>,
        [40, 20, 50])
   \<and> (\<exists>info \<in> set (breakOffsets refCommon ''hello'' True).
         fittingBreak monoRenderer 0 ''hello'' REGULAR 45 info
       \<and> (\<forall>info' \<in> set (breakOffsets refCommon ''hello'' True).
             fittingBreak monoRenderer 0 ''hello'' REGULAR 45 info'
             \<longrightarrow> prefixWidthOf monoRenderer 0 ''hello'' REGULAR info' \<le> 40)
       \<and> prefixWidthOf monoRenderer 0 ''hello'' REGULAR info = 40)
   \<and> fillLine refCommon monoRenderer 0 75 5 0 50 1 twoWords [50, 50] = (1, twoWords, [50, 50])
   \<and> breakOffsets refCommon ''world'' False = []"
proof -
  have r1: "fillLine refCommon monoRenderer 0 45 5 0 0 0 twoWords [50, 50]
     = (1, twoWords\<lparr>words := [''hel-'', ''lo'', ''world''], wordStyles := [REGULAR, REGULAR, BOLD]\<rparr>,
        [40, 20, 50])"
    by code_simp
  have r2: "fillLine refCommon monoRenderer 0 75 5 0 50 1 twoWords [50, 50] = (1, twoWords, [50, 50])"
    by code_simp
  have w0: "words twoWords ! 0 = ''hello''" "wordStyles twoWords ! 0 = REGULAR"
    and w1: "words twoWords ! 1 = ''world''" "wordStyles twoWords ! 1 = BOLD"
    and l: "length (words twoWords) = 2"
    by (simp_all add: twoWords_def)
  have can: "\<exists>info \<in> set (breakOffsets refCommon ''hello'' True).
               fittingBreak monoRenderer 0 ''hello'' REGULAR 45 info"
    by code_simp
  have none: "breakOffsets refCommon ''world'' False = []"
    by code_simp
  have "(40 :: 16 word) = [40, 20, 50] ! 0" by simp
  have A: "\<exists>info \<in> set (breakOffsets refCommon ''hello'' True).
         fittingBreak monoRenderer 0 ''hello'' REGULAR 45 info
       \<and> (\<forall>info' \<in> set (breakOffsets refCommon ''hello'' True).
             fittingBreak monoRenderer 0 ''hello'' REGULAR 45 info'
             \<longrightarrow> prefixWidthOf monoRenderer 0 ''hello'' REGULAR info' \<le> 40)
       \<and> prefixWidthOf monoRenderer 0 ''hello'' REGULAR info = 40"
    using greedy_split_policy [of 0 "[50, 50]" 0 0 5 45 0 45 "''hello''" twoWords REGULAR
            "breakOffsets refCommon ''hello'' True" refCommon monoRenderer 0 1
            "twoWords\<lparr>words := [''hel-'', ''lo'', ''world''], wordStyles := [REGULAR, REGULAR, BOLD]\<rparr>"
            "[40, 20, 50]"] can
    by (simp add: w0 l r1) metis
  have B: "breakOffsets refCommon ''world'' False = []"
    using greedy_split_policy [of 1 "[50, 50]" 5 0 5 75 50 20 "''world''" twoWords BOLD
            "breakOffsets refCommon ''world'' False" refCommon monoRenderer 0 1 twoWords "[50, 50]"]
    by (simp add: w1 l r2 none)
  from r1 r2 A B show ?thesis by blast
qed

section \<open>What stripping computes\<close>

declare strip_loop.simps [simp del]

text \<open>A direct description of the result of the stripping loop: read the bytes from the
  left and leave out every soft hyphen met.\<close>

fun dropSoft :: "string \<Rightarrow> string" where
  "dropSoft (a # b # cs) =
     (if a = CHR 0xC2 \<and> b = CHR 0xAD then dropSoft cs else a # dropSoft (b # cs))"
| "dropSoft cs = cs"

lemma find_in_soft_Cons:
  "find_in SOFT_HYPHEN_UTF8 (a # b # cs)
     = (if a = CHR 0xC2 \<and> b = CHR 0xAD then Some 0
        else map_option Suc (find_in SOFT_HYPHEN_UTF8 (b # cs)))"
  by (simp add: SOFT_HYPHEN_UTF8_def)

lemma find_in_soft_short [simp]:
  "find_in SOFT_HYPHEN_UTF8 [] = None" "find_in SOFT_HYPHEN_UTF8 [a] = None"
  by (simp_all add: SOFT_HYPHEN_UTF8_def)

declare find_in.simps [simp del]

lemma dropSoft_none:
  "find_in SOFT_HYPHEN_UTF8 w = None \<Longrightarrow> dropSoft w = w"
  by (induction w rule: dropSoft.induct)
     (auto simp: find_in_soft_Cons split: if_splits)

lemma dropSoft_some:
  "find_in SOFT_HYPHEN_UTF8 w = Some p \<Longrightarrow> dropSoft w = take p w @ dropSoft (drop (p + 2) w)"
proof (induction w arbitrary: p rule: dropSoft.induct)
  case (1 a b cs)
  show ?case
  proof (cases "a = CHR 0xC2 \<and> b = CHR 0xAD")
    case True
    with "1.prems" show ?thesis by (simp add: find_in_soft_Cons)
  next
    case False
    with "1.prems" obtain q where q: "find_in SOFT_HYPHEN_UTF8 (b # cs) = Some q" "p = Suc q"
      by (auto simp: find_in_soft_Cons)
    from "1.IH"(2) [OF False q(1)] False q(2) show ?thesis by auto
  qed
qed simp_all

lemma strip_loop_dropSoft:
  "pos \<le> length word \<Longrightarrow> strip_loop pos word = take pos word @ dropSoft (drop pos word)"
proof (induction pos word rule: strip_loop.induct)
  case (1 pos word)
  show ?case
  proof (cases "find_in SOFT_HYPHEN_UTF8 (drop pos word)")
    case None
    with "1.prems" have "str_find word SOFT_HYPHEN_UTF8 pos = None"
      by (simp add: str_find_def)
    then have "strip_loop pos word = word"
      by (subst strip_loop.simps) simp
    with None show ?thesis
      by (simp add: dropSoft_none)
  next
    case (Some p)
    with "1.prems" have f: "str_find word SOFT_HYPHEN_UTF8 pos = Some (pos + p)"
      by (simp add: str_find_def)
    from find_in_bound [OF Some] have b: "pos + p + 2 \<le> length word"
      by (simp add: SOFT_HYPHEN_UTF8_def)
    let ?w = "erase word (pos + p) SOFT_HYPHEN_BYTES"
    have le: "pos + p \<le> length ?w"
      using b by (simp add: erase_def SOFT_HYPHEN_BYTES_def)
    have t: "take (pos + p) ?w = take (pos + p) word"
      using b by (simp add: erase_def)
    have d: "drop (pos + p) ?w = drop (pos + p + 2) word"
      using b by (simp add: erase_def SOFT_HYPHEN_BYTES_def)
    have "strip_loop pos word = strip_loop (pos + p) ?w"
      by (subst strip_loop.simps) (simp add: f)
    also have "\<dots> = take (pos + p) word @ dropSoft (drop (pos + p + 2) word)"
      using "1.IH" [OF f le] by (simp only: t d)
    also have "\<dots> = take pos word @ take p (drop pos word) @ dropSoft (drop (p + 2) (drop pos word))"
    proof -
      have "take (pos + p) word = take pos word @ take p (drop pos word)"
        by (rule take_add)
      moreover have "drop (pos + p + 2) word = drop (p + 2) (drop pos word)"
        by (simp add: add.commute add.left_commute)
      ultimately show ?thesis by simp
    qed
    also have "\<dots> = take pos word @ dropSoft (drop pos word)"
      by (simp add: dropSoft_some [OF Some])
    finally show ?thesis .
  qed
qed

lemma stripSoftHyphensInPlace_dropSoft: "stripSoftHyphensInPlace word = dropSoft word"
  by (simp add: stripSoftHyphensInPlace_def strip_loop_dropSoft)

lemma containsSoftHyphen_find: "containsSoftHyphen word \<longleftrightarrow> find_in SOFT_HYPHEN_UTF8 word \<noteq> None"
  by (simp add: containsSoftHyphen_def str_find_def)

text \<open>The word as it is emitted and measured: stripped when it holds a soft hyphen.\<close>

lemma stripped_if_contains:
  "(if containsSoftHyphen word then stripSoftHyphensInPlace word else word) = dropSoft word"
  by (auto simp: stripSoftHyphensInPlace_dropSoft containsSoftHyphen_find dropSoft_none)

lemma measureWordWidth_dropSoft:
  "measureWordWidth renderer fontId word sty appendHyphen
     = word_of_int (getTextWidth renderer fontId
                      (dropSoft word @ (if appendHyphen then [CHR ''-''] else [])) sty)"
  by (auto simp: measureWordWidth_def Let_def stripSoftHyphensInPlace_dropSoft
        containsSoftHyphen_find dropSoft_none)

lemma dropSoft_snoc:
  "c \<noteq> CHR 0xAD \<Longrightarrow> dropSoft (w @ [c]) = dropSoft w @ [c]"
  by (induction w rule: dropSoft.induct) auto

lemma measureWordWidth_prefix:
  "measureWordWidth renderer fontId (w @ (if needsHyphen then [CHR ''-''] else [])) sty False
     = measureWordWidth renderer fontId w sty needsHyphen"
  by (simp add: measureWordWidth_dropSoft dropSoft_snoc)

text \<open>In well-formed UTF-8 the lead byte \<open>0xC2\<close> is followed by a continuation byte, so
  it is never followed by another \<open>0xC2\<close>. On such a word the stripping loop leaves no
  soft hyphen behind.\<close>

fun noDoubleLead :: "string \<Rightarrow> bool" where
  "noDoubleLead (a # b # cs) = (\<not> (a = CHR 0xC2 \<and> b = CHR 0xC2) \<and> noDoubleLead (b # cs))"
| "noDoubleLead cs = True"

lemma dropSoft_keep: "a \<noteq> CHR 0xC2 \<Longrightarrow> dropSoft (a # cs) = a # dropSoft cs"
  by (cases cs) simp_all

lemma noDoubleLead_tl: "noDoubleLead (a # cs) \<Longrightarrow> noDoubleLead cs"
  by (cases cs) simp_all

lemma dropSoft_clean:
  "noDoubleLead w \<Longrightarrow> find_in SOFT_HYPHEN_UTF8 (dropSoft w) = None"
proof (induction w rule: dropSoft.induct)
  case (1 a b cs)
  show ?case
  proof (cases "a = CHR 0xC2 \<and> b = CHR 0xAD")
    case True
    from "1.prems" have "noDoubleLead cs" by (auto dest: noDoubleLead_tl)
    with "1.IH"(1) [OF True] True show ?thesis by simp
  next
    case False
    from "1.prems" have n: "noDoubleLead (b # cs)" and ab: "\<not> (a = CHR 0xC2 \<and> b = CHR 0xC2)"
      by simp_all
    from "1.IH"(2) [OF False n] have ih: "find_in SOFT_HYPHEN_UTF8 (dropSoft (b # cs)) = None" .
    show ?thesis
    proof (cases "a = CHR 0xC2")
      case True
      with ab False have b: "b \<noteq> CHR 0xC2" "b \<noteq> CHR 0xAD" by simp_all
      then have "dropSoft (b # cs) = b # dropSoft cs" by (simp add: dropSoft_keep)
      with ih False b show ?thesis
        by (simp add: find_in_soft_Cons)
    next
      case na: False
      obtain x where "dropSoft (b # cs) = [] \<or> dropSoft (b # cs) = x # tl (dropSoft (b # cs))"
        by (cases "dropSoft (b # cs)") auto
      with ih False na show ?thesis
        by (cases "dropSoft (b # cs)") (auto simp: find_in.simps SOFT_HYPHEN_UTF8_def)
    qed
  qed
qed simp_all

lemma noDoubleLead_append:
  "noDoubleLead (xs @ ys)
     \<longleftrightarrow> noDoubleLead xs \<and> noDoubleLead ys
         \<and> \<not> (xs \<noteq> [] \<and> ys \<noteq> [] \<and> last xs = CHR 0xC2 \<and> hd ys = CHR 0xC2)"
  apply (induction xs rule: noDoubleLead.induct)
  subgoal by auto
  subgoal by simp
  subgoal by (cases ys) auto
  done

lemma noDoubleLead_take: "noDoubleLead w \<Longrightarrow> noDoubleLead (take n w)"
  using noDoubleLead_append [of "take n w" "drop n w"] by simp

lemma noDoubleLead_drop: "noDoubleLead w \<Longrightarrow> noDoubleLead (drop n w)"
  using noDoubleLead_append [of "take n w" "drop n w"] by simp

section \<open>Realised splits\<close>

text \<open>One realised split: a call of \<open>hyphenateWordAtIndex\<close>, at an index inside the width
  vector, that returned true.\<close>

definition splitStep ::
  "HyphenationCommon \<Rightarrow> GfxRenderer \<Rightarrow> int \<Rightarrow> ParsedText \<times> 16 word list
     \<Rightarrow> ParsedText \<times> 16 word list \<Rightarrow> bool" where
  "splitStep E renderer fontId st st' \<longleftrightarrow>
     (\<exists>i a fb. i < length (snd st)
        \<and> hyphenateWordAtIndex E renderer fontId i a fb (fst st) (snd st) = (True, st'))"

lemma splitStepI:
  "i < length ww \<Longrightarrow> hyphenateWordAtIndex E renderer fontId i a fb pt ww = (True, pt', ww')
     \<Longrightarrow> splitStep E renderer fontId (pt, ww) (pt', ww')"
  unfolding splitStep_def by force

lemma fillLine_splits:
  "fillLine E renderer fontId pageWidth spaceWidth lineStart lineWidth currentIndex pt wordWidths
      = (k, pt', wordWidths')
   \<Longrightarrow> (splitStep E renderer fontId)\<^sup>*\<^sup>* (pt, wordWidths) (pt', wordWidths')"
proof (induction E renderer fontId pageWidth spaceWidth lineStart lineWidth currentIndex pt wordWidths
       rule: fillLine.induct)
  case (1 E renderer fontId pageWidth spaceWidth lineStart lineWidth currentIndex pt wordWidths)
  note eq = "1.prems"
  show ?case
  proof (cases "currentIndex < length wordWidths")
    case False
    with eq show ?thesis by (simp add: fillLine_done)
  next
    case inside: True
    let ?spacing = "if currentIndex = lineStart then 0 else spaceWidth"
    let ?candidateWidth = "?spacing + uint (wordWidths ! currentIndex)"
    show ?thesis
    proof (cases "lineWidth + ?candidateWidth \<le> pageWidth")
      case True
      from eq have "fillLine E renderer fontId pageWidth spaceWidth lineStart
            (lineWidth + ?candidateWidth) (Suc currentIndex) pt wordWidths = (k, pt', wordWidths')"
        by (simp only: fillLine_fits [OF inside True])
      from "1.IH" [OF inside refl refl refl True this] show ?thesis .
    next
      case False
      let ?availableWidth = "pageWidth - lineWidth - ?spacing"
      let ?r = "if 0 < ?availableWidth
                    then hyphenateWordAtIndex E renderer fontId currentIndex ?availableWidth
                           (currentIndex = lineStart) pt wordWidths
                    else (False, pt, wordWidths)"
      obtain split pt1 ww1 where r: "?r = (split, pt1, ww1)" by (cases ?r) auto
      from eq have res: "(k, pt', wordWidths') =
          (if split \<or> currentIndex = lineStart then (Suc currentIndex, pt1, ww1)
           else (currentIndex, pt1, ww1))"
        by (simp only: fillLine_overflow [OF inside False r])
      then have st: "pt' = pt1" "wordWidths' = ww1" by (simp_all split: if_splits)
      show ?thesis
      proof (cases split)
        case True
        with r have "hyphenateWordAtIndex E renderer fontId currentIndex ?availableWidth
                           (currentIndex = lineStart) pt wordWidths = (True, pt1, ww1)"
          by (auto split: if_splits)
        from splitStepI [OF inside this] show ?thesis
          unfolding st by (rule r_into_rtranclp)
      next
        case False
        with r have "pt1 = pt \<and> ww1 = wordWidths"
          using hyphenate_False [of E renderer fontId currentIndex ?availableWidth
                  "currentIndex = lineStart" pt wordWidths pt1 ww1]
          by (auto split: if_splits)
        then show ?thesis unfolding st by simp
      qed
    qed
  qed
qed

lemma hyphenatedLoop_done:
  "\<not> currentIndex < length wordWidths
     \<Longrightarrow> hyphenatedLoop E renderer fontId pageWidth spaceWidth currentIndex pt wordWidths lineBreakIndices
           = (lineBreakIndices, pt, wordWidths)"
  by (subst hyphenatedLoop.simps) simp

lemma hyphenatedLoop_step:
  "currentIndex < length wordWidths
     \<Longrightarrow> fillLine E renderer fontId pageWidth spaceWidth currentIndex 0 currentIndex pt wordWidths
           = (k, pt1, ww1)
     \<Longrightarrow> hyphenatedLoop E renderer fontId pageWidth spaceWidth currentIndex pt wordWidths lineBreakIndices
           = hyphenatedLoop E renderer fontId pageWidth spaceWidth k pt1 ww1 (lineBreakIndices @ [k])"
  by (subst hyphenatedLoop.simps) simp

lemma hyphenatedLoop_splits:
  "hyphenatedLoop E renderer fontId pageWidth spaceWidth currentIndex pt wordWidths lineBreakIndices
      = (bs, pt', wordWidths')
   \<Longrightarrow> (splitStep E renderer fontId)\<^sup>*\<^sup>* (pt, wordWidths) (pt', wordWidths')"
proof (induction E renderer fontId pageWidth spaceWidth currentIndex pt wordWidths lineBreakIndices
       rule: hyphenatedLoop.induct)
  case (1 E renderer fontId pageWidth spaceWidth currentIndex pt wordWidths lineBreakIndices)
  show ?case
  proof (cases "currentIndex < length wordWidths")
    case False
    with "1.prems" show ?thesis by (simp add: hyphenatedLoop_done)
  next
    case True
    obtain k pt1 ww1 where f: "fillLine E renderer fontId pageWidth spaceWidth currentIndex 0
                                 currentIndex pt wordWidths = (k, pt1, ww1)"
      by (metis prod_cases3)
    from "1.prems" have "hyphenatedLoop E renderer fontId pageWidth spaceWidth k pt1 ww1
                           (lineBreakIndices @ [k]) = (bs, pt', wordWidths')"
      by (simp only: hyphenatedLoop_step [OF True f])
    from "1.IH" [OF True f [symmetric] refl this] fillLine_splits [OF f]
    show ?thesis by simp
  qed
qed

lemma splitOversized_done:
  "\<not> i < length wordWidths
     \<Longrightarrow> splitOversized E renderer fontId pageWidth i pt wordWidths = (pt, wordWidths)"
  by (subst splitOversized.simps) simp

lemma splitOversized_fits:
  "i < length wordWidths \<Longrightarrow> \<not> pageWidth < uint (wordWidths ! i)
     \<Longrightarrow> splitOversized E renderer fontId pageWidth i pt wordWidths
           = splitOversized E renderer fontId pageWidth (Suc i) pt wordWidths"
  by (subst splitOversized.simps) simp

lemma splitOversized_over:
  "i < length wordWidths \<Longrightarrow> pageWidth < uint (wordWidths ! i)
     \<Longrightarrow> hyphenateWordAtIndex E renderer fontId i pageWidth True pt wordWidths = (split, pt1, ww1)
     \<Longrightarrow> splitOversized E renderer fontId pageWidth i pt wordWidths
           = (if split then splitOversized E renderer fontId pageWidth i pt1 ww1
              else splitOversized E renderer fontId pageWidth (Suc i) pt1 ww1)"
  by (subst splitOversized.simps) simp

lemma splitOversized_splits:
  "splitOversized E renderer fontId pageWidth i pt wordWidths = (pt', wordWidths')
   \<Longrightarrow> (splitStep E renderer fontId)\<^sup>*\<^sup>* (pt, wordWidths) (pt', wordWidths')"
proof (induction E renderer fontId pageWidth i pt wordWidths rule: splitOversized.induct)
  case (1 E renderer fontId pageWidth i pt wordWidths)
  show ?case
  proof (cases "i < length wordWidths")
    case False
    with "1.prems" show ?thesis by (simp add: splitOversized_done)
  next
    case inside: True
    show ?thesis
    proof (cases "pageWidth < uint (wordWidths ! i)")
      case False
      with "1.prems" inside have "splitOversized E renderer fontId pageWidth (Suc i) pt wordWidths
                             = (pt', wordWidths')"
        by (simp add: splitOversized_fits)
      from "1.IH"(3) [OF inside False this] show ?thesis .
    next
      case True
      obtain split pt1 ww1 where h: "hyphenateWordAtIndex E renderer fontId i pageWidth True pt wordWidths
                                       = (split, pt1, ww1)"
        by (metis prod_cases3)
      show ?thesis
      proof (cases split)
        case True
        with "1.prems" have "splitOversized E renderer fontId pageWidth i pt1 ww1 = (pt', wordWidths')"
          by (simp add: splitOversized_over [OF inside \<open>pageWidth < uint (wordWidths ! i)\<close> h])
        from "1.IH"(1) [OF inside \<open>pageWidth < uint (wordWidths ! i)\<close> h [symmetric] refl True this]
        have "(splitStep E renderer fontId)\<^sup>*\<^sup>* (pt1, ww1) (pt', wordWidths')" .
        moreover from h True have "splitStep E renderer fontId (pt, wordWidths) (pt1, ww1)"
          by (intro splitStepI [OF inside]) simp
        ultimately show ?thesis by simp
      next
        case False
        with h have same: "pt1 = pt" "ww1 = wordWidths"
          using hyphenate_False [of E renderer fontId i pageWidth True pt wordWidths pt1 ww1] by simp_all
        from "1.prems" False have "splitOversized E renderer fontId pageWidth (Suc i) pt1 ww1
                                     = (pt', wordWidths')"
          by (simp add: splitOversized_over [OF inside \<open>pageWidth < uint (wordWidths ! i)\<close> h])
        from "1.IH"(2) [OF inside \<open>pageWidth < uint (wordWidths ! i)\<close> h [symmetric] refl False this]
        show ?thesis unfolding same .
      qed
    qed
  qed
qed


text \<open>What a realised split does to the three lists.\<close>

lemma splitStep_cases:
  assumes "splitStep E renderer fontId (pt, ww) (pt', ww')"
  obtains i off nh where
    "i < length (words pt)" "i < length ww" "0 < off" "off < length (words pt ! i)"
    "words pt' = take i (words pt)
        @ (take off (words pt ! i) @ (if nh then [CHR ''-''] else []))
        # drop off (words pt ! i) # drop (Suc i) (words pt)"
    "wordStyles pt' = insertAt (Suc i) (wordStyles pt ! i) (wordStyles pt)"
    "ww' = insertAt (Suc i) (measureWordWidth renderer fontId (drop off (words pt ! i)) (wordStyles pt ! i) False)
             (ww[i := measureWordWidth renderer fontId (take off (words pt ! i)) (wordStyles pt ! i) nh])"
    "style pt' = style pt" "extraParagraphSpacing pt' = extraParagraphSpacing pt"
    "hyphenationEnabled pt' = hyphenationEnabled pt"
proof -
  from assms obtain i a fb where i: "i < length ww"
    and h: "hyphenateWordAtIndex E renderer fontId i a fb pt ww = (True, pt', ww')"
    unfolding splitStep_def by auto
  from hyphenate_True [OF h] obtain info where
    iw: "i < length (words pt)"
    and fit: "fittingBreak renderer fontId (words pt ! i) (wordStyles pt ! i) a info"
    and pt': "pt' = pt\<lparr>words := insertAt (Suc i) (drop (byteOffset info) (words pt ! i))
                          ((words pt)[i := take (byteOffset info) (words pt ! i)
                              @ (if requiresInsertedHyphen info then [CHR ''-''] else [])]),
                      wordStyles := insertAt (Suc i) (wordStyles pt ! i) (wordStyles pt)\<rparr>"
    and ww': "ww' = insertAt (Suc i)
                    (measureWordWidth renderer fontId (drop (byteOffset info) (words pt ! i))
                       (wordStyles pt ! i) False)
                    (ww[i := word_of_int (prefixWidthOf renderer fontId (words pt ! i) (wordStyles pt ! i) info)])"
    by auto
  from fit have off: "0 < byteOffset info" "byteOffset info < length (words pt ! i)"
    by (simp_all add: fittingBreak_def)
  show thesis
  proof (rule that [of i "byteOffset info" "requiresInsertedHyphen info"])
    show "words pt' = take i (words pt)
        @ (take (byteOffset info) (words pt ! i) @ (if requiresInsertedHyphen info then [CHR ''-''] else []))
        # drop (byteOffset info) (words pt ! i) # drop (Suc i) (words pt)"
      using insertAt_update [OF iw] by (simp add: pt')
    show "ww' = insertAt (Suc i) (measureWordWidth renderer fontId (drop (byteOffset info) (words pt ! i)) (wordStyles pt ! i) False)
             (ww[i := measureWordWidth renderer fontId (take (byteOffset info) (words pt ! i)) (wordStyles pt ! i)
                        (requiresInsertedHyphen info)])"
      by (simp add: ww' prefixWidthOf_def)
  qed (use i iw off pt' in simp_all)
qed

definition inSync :: "ParsedText \<Rightarrow> 16 word list \<Rightarrow> bool" where
  "inSync pt wordWidths \<longleftrightarrow>
     length (wordStyles pt) = length (words pt) \<and> length wordWidths = length (words pt)"

lemma splitStep_inSync:
  assumes "splitStep E renderer fontId (pt, ww) (pt', ww')" and "inSync pt ww"
  shows "inSync pt' ww'"
  using assms(1)
proof (cases rule: splitStep_cases)
  case (1 i off nh)
  with assms(2) show ?thesis
    by (simp add: inSync_def)
qed

lemma calculateWordWidths_zip:
  "length (wordStyles pt) = length (words pt)
     \<Longrightarrow> calculateWordWidths renderer fontId pt
           = map (\<lambda>(w, s). measureWordWidth renderer fontId w s False) (zip (words pt) (wordStyles pt))"
  by (auto simp: calculateWordWidths_def intro!: nth_equalityI)

lemma insertAt_update_append:
  "length xs = i \<Longrightarrow> insertAt (Suc i) r ((xs @ a # ys)[i := p]) = xs @ p # r # ys"
  by (simp add: insertAt_def list_update_append)

lemma splitStep_cached:
  assumes "splitStep E renderer fontId (pt, ww) (pt', ww')" and "inSync pt ww"
    and "ww = calculateWordWidths renderer fontId pt"
  shows "ww' = calculateWordWidths renderer fontId pt'"
  using assms(1)
proof (cases rule: splitStep_cases)
  case (1 i off nh)
  let ?m = "\<lambda>(w, s). measureWordWidth renderer fontId w s False"
  let ?ws = "words pt" and ?ss = "wordStyles pt"
  let ?p = "take off (?ws ! i) @ (if nh then [CHR ''-''] else [])" and ?r = "drop off (?ws ! i)"
  from assms(2) have len: "length ?ss = length ?ws" "length ww = length ?ws"
    by (simp_all add: inSync_def)
  from splitStep_inSync [OF assms(1,2)] have len': "length (wordStyles pt') = length (words pt')"
    by (simp add: inSync_def)
  have ws: "?ws = take i ?ws @ ?ws ! i # drop (Suc i) ?ws"
    using 1(1) by (simp add: id_take_nth_drop [symmetric])
  have ss: "?ss = take i ?ss @ ?ss ! i # drop (Suc i) ?ss"
    using 1(1) len by (simp add: id_take_nth_drop [symmetric])
  have ss': "wordStyles pt' = take i ?ss @ ?ss ! i # ?ss ! i # drop (Suc i) ?ss"
    using 1(1) len by (simp add: 1(6) insertAt_def take_Suc_conv_app_nth)
  have z: "zip ?ws ?ss = zip (take i ?ws) (take i ?ss) @ (?ws ! i, ?ss ! i) # zip (drop (Suc i) ?ws) (drop (Suc i) ?ss)"
    using 1(1) len by (subst ws, subst ss) (simp only: zip_append length_take min.idem len zip_Cons_Cons)
  have z': "zip (words pt') (wordStyles pt')
      = zip (take i ?ws) (take i ?ss) @ (?p, ?ss ! i) # (?r, ?ss ! i) # zip (drop (Suc i) ?ws) (drop (Suc i) ?ss)"
    using len by (simp add: 1(5) ss')
  have ww: "ww = map ?m (zip (take i ?ws) (take i ?ss)) @ ?m (?ws ! i, ?ss ! i)
                  # map ?m (zip (drop (Suc i) ?ws) (drop (Suc i) ?ss))"
    using assms(3) z by (simp add: calculateWordWidths_zip len)
  have li: "length (map ?m (zip (take i ?ws) (take i ?ss))) = i"
    using 1(1) len by simp
  have "ww' = map ?m (zip (take i ?ws) (take i ?ss))
                @ measureWordWidth renderer fontId (take off (?ws ! i)) (?ss ! i) nh
                # measureWordWidth renderer fontId ?r (?ss ! i) False
                # map ?m (zip (drop (Suc i) ?ws) (drop (Suc i) ?ss))"
    unfolding 1(7) by (subst ww) (simp only: insertAt_update_append [OF li])
  also have "\<dots> = map ?m (zip (words pt') (wordStyles pt'))"
    unfolding z' by (simp add: measureWordWidth_prefix)
  finally show ?thesis
    by (simp add: calculateWordWidths_zip len')
qed

text \<open>The same split seen on the word list alone.\<close>

definition splitInPlace :: "string list \<Rightarrow> string list \<Rightarrow> bool" where
  "splitInPlace ws ws' \<longleftrightarrow>
     (\<exists>i off hy. i < length ws \<and> 0 < off \<and> off < length (ws ! i) \<and> (hy = [] \<or> hy = [CHR ''-''])
        \<and> ws' = take i ws @ (take off (ws ! i) @ hy) # drop off (ws ! i) # drop (Suc i) ws)"

lemma splitStep_splitInPlace:
  assumes "splitStep E renderer fontId (pt, ww) (pt', ww')"
  shows "splitInPlace (words pt) (words pt')"
  using assms
proof (cases rule: splitStep_cases)
  case (1 i off nh)
  show ?thesis
    unfolding splitInPlace_def
    by (rule exI [of _ i], rule exI [of _ off], rule exI [of _ "if nh then [CHR ''-''] else []"])
       (use 1 in simp)
qed

lemma splitInPlace_length: "splitInPlace ws ws' \<Longrightarrow> length ws' = Suc (length ws)"
  by (auto simp: splitInPlace_def)

lemma splitInPlace_nonempty:
  assumes "splitInPlace ws ws'" and "\<forall>w \<in> set ws. w \<noteq> []"
  shows "\<forall>w \<in> set ws'. w \<noteq> []"
proof -
  from assms(1) obtain i off hy where i: "i < length ws" and off: "0 < off" "off < length (ws ! i)"
    and ws': "ws' = take i ws @ (take off (ws ! i) @ hy) # drop off (ws ! i) # drop (Suc i) ws"
    unfolding splitInPlace_def by blast
  from off have "take off (ws ! i) @ hy \<noteq> []" "drop off (ws ! i) \<noteq> []"
    by auto
  with assms(2) show ?thesis
    unfolding ws' by (auto dest: in_set_takeD in_set_dropD)
qed

lemma splitInPlace_noDoubleLead:
  assumes "splitInPlace ws ws'" and "\<forall>w \<in> set ws. noDoubleLead w"
  shows "\<forall>w \<in> set ws'. noDoubleLead w"
proof -
  from assms(1) obtain i off hy where i: "i < length ws" and hy: "hy = [] \<or> hy = [CHR ''-'']"
    and ws': "ws' = take i ws @ (take off (ws ! i) @ hy) # drop off (ws ! i) # drop (Suc i) ws"
    unfolding splitInPlace_def by blast
  from i assms(2) have w: "noDoubleLead (ws ! i)" by simp
  have p: "noDoubleLead (take off (ws ! i) @ hy)"
    using hy noDoubleLead_take [OF w, of off] by (auto simp: noDoubleLead_append)
  have r: "noDoubleLead (drop off (ws ! i))"
    by (rule noDoubleLead_drop [OF w])
  from assms(2) p r show ?thesis
    unfolding ws' by (auto dest: in_set_takeD in_set_dropD)
qed


lemma splitStep_style:
  assumes "splitStep E renderer fontId (pt, ww) (pt', ww')"
  shows "style pt' = style pt \<and> extraParagraphSpacing pt' = extraParagraphSpacing pt
         \<and> hyphenationEnabled pt' = hyphenationEnabled pt"
  using assms by (cases rule: splitStep_cases) simp

text \<open>What any number of realised splits keeps.\<close>

lemma splits_keep:
  assumes "(splitStep E renderer fontId)\<^sup>*\<^sup>* (pt, ww) (pt', ww')" and "inSync pt ww"
  shows "inSync pt' ww'
    \<and> (ww = calculateWordWidths renderer fontId pt \<longrightarrow> ww' = calculateWordWidths renderer fontId pt')
    \<and> (\<exists>n. (splitInPlace ^^ n) (words pt) (words pt'))
    \<and> style pt' = style pt \<and> extraParagraphSpacing pt' = extraParagraphSpacing pt
    \<and> hyphenationEnabled pt' = hyphenationEnabled pt"
  using assms(1)
proof (induction rule: rtranclp_induct2)
  case refl
  have "(splitInPlace ^^ 0) (words pt) (words pt)" by simp
  with assms(2) show ?case by blast
next
  case (step pt1 ww1 pt2 ww2)
  from step.IH obtain n where n: "(splitInPlace ^^ n) (words pt) (words pt1)" by blast
  from splitStep_splitInPlace [OF step.hyps(2)] n
  have "(splitInPlace ^^ Suc n) (words pt) (words pt2)" by auto
  then have ex: "\<exists>n. (splitInPlace ^^ n) (words pt) (words pt2)" ..
  from step.IH have s1: "inSync pt1 ww1" by simp
  note s2 = splitStep_inSync [OF step.hyps(2) s1]
  have c: "ww = calculateWordWidths renderer fontId pt \<longrightarrow> ww2 = calculateWordWidths renderer fontId pt2"
    using step.IH splitStep_cached [OF step.hyps(2) s1] by blast
  from s2 c ex splitStep_style [OF step.hyps(2)] step.IH show ?case by simp
qed

lemma splitsN_length: "(splitInPlace ^^ n) ws ws' \<Longrightarrow> length ws' = length ws + n"
  by (induction n arbitrary: ws') (auto dest: splitInPlace_length)

lemma splitsN_nonempty:
  "(splitInPlace ^^ n) ws ws' \<Longrightarrow> \<forall>w \<in> set ws. w \<noteq> [] \<Longrightarrow> \<forall>w \<in> set ws'. w \<noteq> []"
proof (induction n arbitrary: ws')
  case 0
  then show ?case by simp
next
  case (Suc n)
  from Suc.prems(1) obtain ws1 where "(splitInPlace ^^ n) ws ws1" "splitInPlace ws1 ws'" by auto
  with Suc.IH [OF _ Suc.prems(2)] show ?case
    using splitInPlace_nonempty by blast
qed

lemma splitsN_noDoubleLead:
  "(splitInPlace ^^ n) ws ws' \<Longrightarrow> \<forall>w \<in> set ws. noDoubleLead w \<Longrightarrow> \<forall>w \<in> set ws'. noDoubleLead w"
proof (induction n arbitrary: ws')
  case 0
  then show ?case by simp
next
  case (Suc n)
  from Suc.prems(1) obtain ws1 where "(splitInPlace ^^ n) ws ws1" "splitInPlace ws1 ws'" by auto
  with Suc.IH [OF _ Suc.prems(2)] show ?case
    using splitInPlace_noDoubleLead by blast
qed

lemma computeHyphenatedLineBreaks_splits:
  "computeHyphenatedLineBreaks E renderer fontId pageWidth spaceWidth pt ww = (bs, pt', ww')
     \<Longrightarrow> (splitStep E renderer fontId)\<^sup>*\<^sup>* (pt, ww) (pt', ww')"
  unfolding computeHyphenatedLineBreaks_def by (rule hyphenatedLoop_splits)

lemma computeLineBreaks_state:
  "computeLineBreaks E renderer fontId pageWidth spaceWidth pt ww = (bs, pt', ww')
     \<Longrightarrow> (pt', ww') = (if words pt = [] then (pt, ww)
                       else splitOversized E renderer fontId pageWidth 0 pt ww)"
  by (auto simp: computeLineBreaks_def Let_def split: if_splits prod.splits)

lemma computeLineBreaks_splits:
  "computeLineBreaks E renderer fontId pageWidth spaceWidth pt ww = (bs, pt', ww')
     \<Longrightarrow> (splitStep E renderer fontId)\<^sup>*\<^sup>* (pt, ww) (pt', ww')"
proof -
  assume "computeLineBreaks E renderer fontId pageWidth spaceWidth pt ww = (bs, pt', ww')"
  from computeLineBreaks_state [OF this] show ?thesis
  proof (cases "words pt = []")
    case True
    with \<open>(pt', ww') = _\<close> show ?thesis by simp
  next
    case False
    with \<open>(pt', ww') = _\<close> have "splitOversized E renderer fontId pageWidth 0 pt ww = (pt', ww')"
      by simp
    then show ?thesis by (rule splitOversized_splits)
  qed
qed

section \<open>Extraction of the lines\<close>

text \<open>The index at which line \<open>i\<close> starts (\<^verbatim>\<open>lastBreakAt\<close> in \<^verbatim>\<open>extractLine\<close>).\<close>

definition lineStartOf :: "nat list \<Rightarrow> nat \<Rightarrow> nat" where
  "lineStartOf bs i = (if 0 < i then bs ! (i - 1) else 0)"

lemma extractLine_result:
  assumes "extractLine i pageWidth spaceWidth ww bs pt = (block, pt')"
  shows "tb_words block = map dropSoft (take (bs ! i - lineStartOf bs i) (words pt))"
    and "tb_wordStyles block = take (bs ! i - lineStartOf bs i) (wordStyles pt)"
    and "tb_style block = style pt"
    and "pt' = pt\<lparr>words := drop (bs ! i - lineStartOf bs i) (words pt),
                   wordStyles := drop (bs ! i - lineStartOf bs i) (wordStyles pt)\<rparr>"
  using assms
  by (auto simp: extractLine_def Let_def lineStartOf_def stripped_if_contains)

text \<open>Line \<open>j\<close> as it is extracted when the lines before it have been taken from the word
  list \<open>W\<close> and the style list \<open>S\<close>.\<close>

definition lineBlock ::
  "int \<Rightarrow> int \<Rightarrow> 16 word list \<Rightarrow> nat list \<Rightarrow> ParsedText \<Rightarrow> nat \<Rightarrow> TextBlock" where
  "lineBlock pageWidth spaceWidth ww bs pt j =
     fst (extractLine j pageWidth spaceWidth ww bs
            (pt\<lparr>words := drop (lineStartOf bs j) (words pt),
                wordStyles := drop (lineStartOf bs j) (wordStyles pt)\<rparr>))"

lemma extractLine_style_only:
  "fst (extractLine i pageWidth spaceWidth ww bs pt)
     = fst (extractLine i pageWidth spaceWidth ww bs
              (pt\<lparr>extraParagraphSpacing := e, hyphenationEnabled := h\<rparr>))"
  by (simp add: extractLine_def Let_def)

lemma extractLines_range:
  assumes "\<forall>j. i \<le> j \<and> j < m \<longrightarrow> lineStartOf bs j \<le> bs ! j" and "i \<le> m"
  shows "extractLines pageWidth spaceWidth ww bs [i ..< m]
           (acc, pt\<lparr>words := drop (lineStartOf bs i) (words pt),
                     wordStyles := drop (lineStartOf bs i) (wordStyles pt)\<rparr>)
       = (acc @ map (lineBlock pageWidth spaceWidth ww bs pt) [i ..< m],
          pt\<lparr>words := drop (lineStartOf bs m) (words pt),
             wordStyles := drop (lineStartOf bs m) (wordStyles pt)\<rparr>)"
  using assms
proof (induction "m - i" arbitrary: i acc)
  case 0
  then have "i = m" by simp
  then show ?case by simp
next
  case (Suc d)
  then have im: "i < m" by simp
  let ?pt = "pt\<lparr>words := drop (lineStartOf bs i) (words pt),
                 wordStyles := drop (lineStartOf bs i) (wordStyles pt)\<rparr>"
  obtain block pt1 where e: "extractLine i pageWidth spaceWidth ww bs ?pt = (block, pt1)"
    by (cases "extractLine i pageWidth spaceWidth ww bs ?pt") auto
  from Suc.prems(1) im have le: "lineStartOf bs i \<le> bs ! i" by simp
  have b: "block = lineBlock pageWidth spaceWidth ww bs pt i"
    using e by (simp add: lineBlock_def)
  have next_start: "lineStartOf bs (Suc i) = bs ! i"
    by (simp add: lineStartOf_def)
  have pt1: "pt1 = pt\<lparr>words := drop (lineStartOf bs (Suc i)) (words pt),
                        wordStyles := drop (lineStartOf bs (Suc i)) (wordStyles pt)\<rparr>"
    using extractLine_result(4) [OF e] le by (simp add: next_start)
  have "extractLines pageWidth spaceWidth ww bs [i ..< m] (acc, ?pt)
      = extractLines pageWidth spaceWidth ww bs [Suc i ..< m] (acc @ [block], pt1)"
    using im e by (simp add: upt_conv_Cons)
  also have "\<dots> = ((acc @ [block]) @ map (lineBlock pageWidth spaceWidth ww bs pt) [Suc i ..< m],
          pt\<lparr>words := drop (lineStartOf bs m) (words pt),
             wordStyles := drop (lineStartOf bs m) (wordStyles pt)\<rparr>)"
    unfolding pt1 using Suc.hyps(2) Suc.prems im by (intro Suc.hyps(1)) auto
  finally show ?case
    using im by (simp add: upt_conv_Cons b)
qed

lemma lineBlock_words:
  "tb_words (lineBlock pageWidth spaceWidth ww bs pt j)
     = map dropSoft (take (bs ! j - lineStartOf bs j) (drop (lineStartOf bs j) (words pt)))"
  "tb_wordStyles (lineBlock pageWidth spaceWidth ww bs pt j)
     = take (bs ! j - lineStartOf bs j) (drop (lineStartOf bs j) (wordStyles pt))"
  "tb_style (lineBlock pageWidth spaceWidth ww bs pt j) = style pt"
proof -
  let ?pt = "pt\<lparr>words := drop (lineStartOf bs j) (words pt),
                 wordStyles := drop (lineStartOf bs j) (wordStyles pt)\<rparr>"
  obtain block pt1 where e: "extractLine j pageWidth spaceWidth ww bs ?pt = (block, pt1)"
    by (cases "extractLine j pageWidth spaceWidth ww bs ?pt") auto
  then have b: "lineBlock pageWidth spaceWidth ww bs pt j = block"
    by (simp add: lineBlock_def)
  from extractLine_result(1-3) [OF e]
  show "tb_words (lineBlock pageWidth spaceWidth ww bs pt j)
     = map dropSoft (take (bs ! j - lineStartOf bs j) (drop (lineStartOf bs j) (words pt)))"
    "tb_wordStyles (lineBlock pageWidth spaceWidth ww bs pt j)
     = take (bs ! j - lineStartOf bs j) (drop (lineStartOf bs j) (wordStyles pt))"
    "tb_style (lineBlock pageWidth spaceWidth ww bs pt j) = style pt"
    unfolding b by simp_all
qed

text \<open>Consecutive segments put together.\<close>

lemma concat_segments:
  assumes "\<forall>j < m. lineStartOf bs j \<le> bs ! j"
  shows "concat (map (\<lambda>j. take (bs ! j - lineStartOf bs j) (drop (lineStartOf bs j) W)) [0 ..< m])
           = take (lineStartOf bs m) W"
  using assms
proof (induction m)
  case 0
  then show ?case by (simp add: lineStartOf_def)
next
  case (Suc m)
  then have ih: "concat (map (\<lambda>j. take (bs ! j - lineStartOf bs j) (drop (lineStartOf bs j) W)) [0 ..< m])
           = take (lineStartOf bs m) W"
    by simp
  from Suc.prems have le: "lineStartOf bs m \<le> bs ! m" by simp
  have n: "lineStartOf bs (Suc m) = bs ! m" by (simp add: lineStartOf_def)
  have "take (lineStartOf bs m) W @ take (bs ! m - lineStartOf bs m) (drop (lineStartOf bs m) W)
          = take (bs ! m) W"
    using le take_add [of "lineStartOf bs m" "bs ! m - lineStartOf bs m" W] by simp
  with ih show ?case by (simp add: n)
qed

section \<open>The lines of the greedy breaker\<close>

text \<open>The content width of the words \<open>s, ..., e - 1\<close> laid on one line: their widths and
  a base space between neighbours. (For \<open>e = s\<close> this is \<open>- spaceWidth\<close>, the start value
  of \<^verbatim>\<open>currlen\<close> in \<^verbatim>\<open>computeLineBreaks\<close>.)\<close>

definition lineLen :: "int \<Rightarrow> 16 word list \<Rightarrow> nat \<Rightarrow> nat \<Rightarrow> int" where
  "lineLen spaceWidth ww s e =
     sum_list (map (\<lambda>t. uint (ww ! t)) [s ..< e]) + (int (e - s) - 1) * spaceWidth"

lemma lineLen_Suc:
  "s \<le> e \<Longrightarrow> lineLen spaceWidth ww s (Suc e) = lineLen spaceWidth ww s e + uint (ww ! e) + spaceWidth"
  by (simp add: lineLen_def Suc_diff_le algebra_simps)

lemma lineLen_single: "lineLen spaceWidth ww s (Suc s) = uint (ww ! s)"
  by (simp add: lineLen_def)

lemma lineLen_empty: "lineLen spaceWidth ww s s = - spaceWidth"
  by (simp add: lineLen_def)

lemma lineLen_cong:
  assumes "take e ww' = take e ww"
  shows "lineLen spaceWidth ww' s e = lineLen spaceWidth ww s e"
proof -
  have "map (\<lambda>t. uint (ww' ! t)) [s ..< e] = map (\<lambda>t. uint (ww ! t)) [s ..< e]"
  proof (rule map_cong [OF refl])
    fix t assume "t \<in> set [s ..< e]"
    then have "t < e" by simp
    then have "ww' ! t = take e ww' ! t" "ww ! t = take e ww ! t" by simp_all
    with assms show "uint (ww' ! t) = uint (ww ! t)" by simp
  qed
  then show ?thesis by (simp only: lineLen_def)
qed

text \<open>A word that cannot be split to fit a whole line: no width is available, or no
  candidate, the fallback ones included, has a prefix that fits.\<close>

definition unsplittable ::
  "HyphenationCommon \<Rightarrow> GfxRenderer \<Rightarrow> int \<Rightarrow> int \<Rightarrow> string \<Rightarrow> Style \<Rightarrow> bool" where
  "unsplittable E renderer fontId pageWidth word sty \<longleftrightarrow>
     pageWidth \<le> 0
     \<or> (\<forall>info \<in> set (breakOffsets E word True). \<not> fittingBreak renderer fontId word sty pageWidth info)"

lemma hyphenate_fails_unsplittable:
  "i < length (words pt)
     \<Longrightarrow> \<not> fst (hyphenateWordAtIndex E renderer fontId i pageWidth True pt ww)
         \<longleftrightarrow> unsplittable E renderer fontId pageWidth (words pt ! i) (wordStyles pt ! i)"
  by (auto simp: hyphenate_fails_iff unsplittable_def)

text \<open>A line from \<open>s\<close> to \<open>e\<close> is in order when its content fits the page, or when it is one
  word that is wider than the page and cannot be split.\<close>

definition lineOK ::
  "HyphenationCommon \<Rightarrow> GfxRenderer \<Rightarrow> int \<Rightarrow> int \<Rightarrow> int \<Rightarrow> ParsedText \<Rightarrow> 16 word list
     \<Rightarrow> nat \<Rightarrow> nat \<Rightarrow> bool" where
  "lineOK E renderer fontId pageWidth spaceWidth pt ww s e \<longleftrightarrow>
     lineLen spaceWidth ww s e \<le> pageWidth
     \<or> (e = Suc s \<and> pageWidth < uint (ww ! s)
         \<and> unsplittable E renderer fontId pageWidth (words pt ! s) (wordStyles pt ! s))"

lemma lineOK_cong:
  assumes "take e ww' = take e ww" "take e (words pt') = take e (words pt)"
    "take e (wordStyles pt') = take e (wordStyles pt)" "s < e"
  shows "lineOK E renderer fontId pageWidth spaceWidth pt' ww' s e
           = lineOK E renderer fontId pageWidth spaceWidth pt ww s e"
proof -
  from assms(4) have "ww' ! s = take e ww' ! s" "ww ! s = take e ww ! s"
    "words pt' ! s = take e (words pt') ! s" "words pt ! s = take e (words pt) ! s"
    "wordStyles pt' ! s = take e (wordStyles pt') ! s" "wordStyles pt ! s = take e (wordStyles pt) ! s"
    by simp_all
  with assms(1-3) have "ww' ! s = ww ! s" "words pt' ! s = words pt ! s"
    "wordStyles pt' ! s = wordStyles pt ! s"
    by simp_all
  then show ?thesis
    by (simp add: lineOK_def lineLen_cong [OF assms(1)])
qed

text \<open>The states of the engine with equal lists up to an index.\<close>

definition sameUpTo :: "nat \<Rightarrow> ParsedText \<times> 16 word list \<Rightarrow> ParsedText \<times> 16 word list \<Rightarrow> bool" where
  "sameUpTo k st st' \<longleftrightarrow>
     take k (snd st') = take k (snd st)
     \<and> take k (words (fst st')) = take k (words (fst st))
     \<and> take k (wordStyles (fst st')) = take k (wordStyles (fst st))"

lemma sameUpTo_refl [simp]: "sameUpTo k st st"
  by (simp add: sameUpTo_def)

lemma take_le_eq: "take k xs = take k ys \<Longrightarrow> j \<le> k \<Longrightarrow> take j xs = take j ys"
  by (metis min.absorb1 take_take)

lemma sameUpTo_le: "sameUpTo k st st' \<Longrightarrow> j \<le> k \<Longrightarrow> sameUpTo j st st'"
  unfolding sameUpTo_def by (blast intro: take_le_eq)

lemma sameUpTo_trans: "sameUpTo k st st' \<Longrightarrow> sameUpTo k st' st'' \<Longrightarrow> sameUpTo k st st''"
  by (simp add: sameUpTo_def)

lemma take_insertAt_update:
  "i < length xs \<Longrightarrow> take i (insertAt (Suc i) r (xs[i := p])) = take i xs"
  by (simp add: insertAt_def min_def)

lemma splitStep_at_sameUpTo:
  assumes "hyphenateWordAtIndex E renderer fontId i a fb pt ww = (True, pt', ww')"
    and "inSync pt ww"
  shows "sameUpTo i (pt, ww) (pt', ww')"
proof -
  from hyphenate_True [OF assms(1)] obtain info where
    i: "i < length (words pt)" and
    pt': "pt' = pt\<lparr>words := insertAt (Suc i) (drop (byteOffset info) (words pt ! i))
                          ((words pt)[i := take (byteOffset info) (words pt ! i)
                              @ (if requiresInsertedHyphen info then [CHR ''-''] else [])]),
                      wordStyles := insertAt (Suc i) (wordStyles pt ! i) (wordStyles pt)\<rparr>"
    and ww': "ww' = insertAt (Suc i)
                    (measureWordWidth renderer fontId (drop (byteOffset info) (words pt ! i))
                       (wordStyles pt ! i) False)
                    (ww[i := word_of_int (prefixWidthOf renderer fontId (words pt ! i) (wordStyles pt ! i) info)])"
    by auto
  from i assms(2) have l: "i < length ww" "i < length (wordStyles pt)"
    by (simp_all add: inSync_def)
  have "take i (wordStyles pt') = take i (wordStyles pt)"
    using l(2) by (simp add: pt' insertAt_def min_def)
  with i l show ?thesis
    by (simp add: sameUpTo_def pt' ww' take_insertAt_update)
qed


text \<open>What one run of the inner loop guarantees, from any point of the line on.\<close>

lemma fillLine_line:
  assumes "fillLine E renderer fontId pageWidth spaceWidth s lineWidth cur pt ww = (k, pt', ww')"
    and "inSync pt ww" and "s \<le> cur" and "cur \<le> length ww"
    and "lineWidth = (if cur = s then 0 else lineLen spaceWidth ww s cur)"
    and "cur \<noteq> s \<longrightarrow> lineWidth \<le> pageWidth"
  shows "cur \<le> k \<and> k \<le> length ww' \<and> (cur < length ww \<longrightarrow> s < k)
       \<and> sameUpTo cur (pt, ww) (pt', ww')
       \<and> (s < k \<longrightarrow> lineOK E renderer fontId pageWidth spaceWidth pt' ww' s k)
       \<and> (length ww' \<le> k \<longrightarrow> pt' = pt \<and> ww' = ww)"
  using assms
proof (induction E renderer fontId pageWidth spaceWidth s lineWidth cur pt ww
       rule: fillLine.induct)
  case (1 E renderer fontId pageWidth spaceWidth s lineWidth cur pt ww)
  note eq = "1.prems"(1) and sync = "1.prems"(2) and le = "1.prems"(3,4)
    and lw = "1.prems"(5) and lwfit = "1.prems"(6)
  show ?case
  proof (cases "cur < length ww")
    case False
    with eq have r: "k = cur" "pt' = pt" "ww' = ww" by (simp_all add: fillLine_done)
    from False le have c: "cur = length ww" by simp
    have "s < k \<longrightarrow> lineOK E renderer fontId pageWidth spaceWidth pt' ww' s k"
      using lw lwfit by (auto simp: r lineOK_def)
    with False c show ?thesis by (simp add: r)
  next
    case inside: True
    let ?spacing = "if cur = s then 0 else spaceWidth"
    let ?candidateWidth = "?spacing + uint (ww ! cur)"
    have next_len: "lineWidth + ?candidateWidth = lineLen spaceWidth ww s (Suc cur)"
      using lw le(1) by (auto simp: lineLen_empty lineLen_Suc)
    show ?thesis
    proof (cases "lineWidth + ?candidateWidth \<le> pageWidth")
      case True
      from eq have rec: "fillLine E renderer fontId pageWidth spaceWidth s
            (lineWidth + ?candidateWidth) (Suc cur) pt ww = (k, pt', ww')"
        by (simp only: fillLine_fits [OF inside True])
      have p: "s \<le> Suc cur" "Suc cur \<le> length ww"
        "lineWidth + ?candidateWidth = (if Suc cur = s then 0 else lineLen spaceWidth ww s (Suc cur))"
        "Suc cur \<noteq> s \<longrightarrow> lineWidth + ?candidateWidth \<le> pageWidth"
        using le inside True next_len by auto
      from "1.IH" [OF inside refl refl refl True rec sync p]
      have ih: "Suc cur \<le> k" "k \<le> length ww'" "sameUpTo (Suc cur) (pt, ww) (pt', ww')"
        "s < k \<longrightarrow> lineOK E renderer fontId pageWidth spaceWidth pt' ww' s k"
        "length ww' \<le> k \<longrightarrow> pt' = pt \<and> ww' = ww"
        by simp_all
      from ih(1) le(1) have "cur \<le> k" "s < k" by simp_all
      with ih sameUpTo_le [OF ih(3), of cur] show ?thesis by simp
    next
      case False
      let ?availableWidth = "pageWidth - lineWidth - ?spacing"
      let ?r = "if 0 < ?availableWidth
                    then hyphenateWordAtIndex E renderer fontId cur ?availableWidth (cur = s) pt ww
                    else (False, pt, ww)"
      obtain split pt1 ww1 where r: "?r = (split, pt1, ww1)" by (cases ?r) auto
      from eq have res: "(k, pt', ww') =
          (if split \<or> cur = s then (Suc cur, pt1, ww1) else (cur, pt1, ww1))"
        by (simp only: fillLine_overflow [OF inside False r])
      then have st: "pt' = pt1" "ww' = ww1" by (simp_all split: if_splits)
      show ?thesis
      proof (cases split)
        case True
        with r have h: "hyphenateWordAtIndex E renderer fontId cur ?availableWidth (cur = s) pt ww
                          = (True, pt', ww')"
          by (auto simp: st split: if_splits)
        from res True have k: "k = Suc cur" by simp
        from hyphenate_True [OF h] have len: "length ww' = Suc (length ww)" by auto
        note same = splitStep_at_sameUpTo [OF h sync]
        note w = hyphenate_True_width [OF h inside]
        have "lineLen spaceWidth ww' s (Suc cur) \<le> pageWidth"
        proof (cases "cur = s")
          case True
          with w lw show ?thesis by (simp add: lineLen_single)
        next
          case False
          with le(1) have "lineLen spaceWidth ww' s (Suc cur)
              = lineLen spaceWidth ww' s cur + uint (ww' ! cur) + spaceWidth"
            by (simp add: lineLen_Suc)
          also have "lineLen spaceWidth ww' s cur = lineLen spaceWidth ww s cur"
            using same by (intro lineLen_cong) (simp add: sameUpTo_def)
          finally show ?thesis using w lw False by simp
        qed
        then have "lineOK E renderer fontId pageWidth spaceWidth pt' ww' s k"
          by (simp add: lineOK_def k)
        with k len inside le(1) same show ?thesis by simp
      next
        case nosplit: False
        with r have same: "pt1 = pt" "ww1 = ww"
          using hyphenate_False [of E renderer fontId cur ?availableWidth "cur = s" pt ww pt1 ww1]
          by (auto split: if_splits)
        show ?thesis
        proof (cases "cur = s")
          case True
          with res have k: "k = Suc s" by simp
          from True False lw have over: "pageWidth < uint (ww ! s)" by simp
          from inside sync True have sw: "s < length (words pt)" by (simp add: inSync_def)
          have "unsplittable E renderer fontId pageWidth (words pt ! s) (wordStyles pt ! s)"
          proof (cases "0 < pageWidth")
            case False
            then show ?thesis by (simp add: unsplittable_def)
          next
            case pos: True
            with r True lw nosplit have "\<not> fst (hyphenateWordAtIndex E renderer fontId s pageWidth True pt ww)"
              by simp
            with sw show ?thesis by (simp add: hyphenate_fails_unsplittable)
          qed
          with over have "lineOK E renderer fontId pageWidth spaceWidth pt ww s (Suc s)"
            by (simp add: lineOK_def)
          with k True inside show ?thesis by (simp add: st same)
        next
          case False
          with res nosplit have k: "k = cur" by simp
          from False lw lwfit have "lineOK E renderer fontId pageWidth spaceWidth pt ww s cur"
            by (simp add: lineOK_def)
          with k False le inside show ?thesis by (simp add: st same)
        qed
      qed
    qed
  qed
qed


lemma splits_length:
  assumes "(splitStep E renderer fontId)\<^sup>*\<^sup>* (pt, ww) (pt', ww')" and "inSync pt ww"
  shows "length ww \<le> length ww'"
proof -
  from splits_keep [OF assms] obtain n where
    "inSync pt' ww'" "(splitInPlace ^^ n) (words pt) (words pt')" by blast
  with assms(2) splitsN_length [of n "words pt" "words pt'"] show ?thesis
    by (simp add: inSync_def)
qed

text \<open>The outer loop: the breaks it appends rise strictly, end at the end of the width
  vector, and every line between two of them is in order. The last line is what the
  inner loop makes of the final lists without changing them.\<close>

lemma hyphenatedLoop_lines:
  assumes "hyphenatedLoop E renderer fontId pageWidth spaceWidth c pt ww acc = (bs, pt', ww')"
    and "inSync pt ww" and "c \<le> length ww"
  shows "\<exists>new. bs = acc @ new \<and> sorted_wrt (<) (c # new)
       \<and> (\<forall>b \<in> set new. b \<le> length ww')
       \<and> (if c < length ww then new \<noteq> [] \<and> last new = length ww' else new = [])
       \<and> sameUpTo c (pt, ww) (pt', ww')
       \<and> (\<forall>j < length new. lineOK E renderer fontId pageWidth spaceWidth pt' ww' ((c # new) ! j) (new ! j))
       \<and> (new \<noteq> [] \<longrightarrow>
            fillLine E renderer fontId pageWidth spaceWidth (last (c # butlast new)) 0
              (last (c # butlast new)) pt' ww' = (length ww', pt', ww'))"
  using assms
proof (induction E renderer fontId pageWidth spaceWidth c pt ww acc
       rule: hyphenatedLoop.induct)
  case (1 E renderer fontId pageWidth spaceWidth c pt ww acc)
  show ?case
  proof (cases "c < length ww")
    case False
    with "1.prems"(1) have "bs = acc" "pt' = pt" "ww' = ww"
      by (simp_all add: hyphenatedLoop_done)
    with False show ?thesis by (intro exI [of _ "[]"]) simp
  next
    case True
    obtain k pt1 ww1 where f: "fillLine E renderer fontId pageWidth spaceWidth c 0 c pt ww = (k, pt1, ww1)"
      by (metis prod_cases3)
    from fillLine_line [OF f "1.prems"(2) order_refl "1.prems"(3)] True
    have fl: "c < k" "k \<le> length ww1" "sameUpTo c (pt, ww) (pt1, ww1)"
      "lineOK E renderer fontId pageWidth spaceWidth pt1 ww1 c k"
      "length ww1 \<le> k \<longrightarrow> pt1 = pt \<and> ww1 = ww"
      by simp_all
    from splits_keep [OF fillLine_splits [OF f] "1.prems"(2)] have sync1: "inSync pt1 ww1" by simp
    from "1.prems"(1) have rec: "hyphenatedLoop E renderer fontId pageWidth spaceWidth k pt1 ww1 (acc @ [k])
                                   = (bs, pt', ww')"
      by (simp only: hyphenatedLoop_step [OF True f])
    from "1.IH" [OF True f [symmetric] refl rec sync1 fl(2)] obtain new1 where
      bs: "bs = (acc @ [k]) @ new1" and sorted1: "sorted_wrt (<) (k # new1)"
      and bound1: "\<forall>b \<in> set new1. b \<le> length ww'"
      and last1: "if k < length ww1 then new1 \<noteq> [] \<and> last new1 = length ww' else new1 = []"
      and same1: "sameUpTo k (pt1, ww1) (pt', ww')"
      and ok1: "\<forall>j < length new1. lineOK E renderer fontId pageWidth spaceWidth pt' ww' ((k # new1) ! j) (new1 ! j)"
      and fix1: "new1 \<noteq> [] \<longrightarrow>
            fillLine E renderer fontId pageWidth spaceWidth (last (k # butlast new1)) 0
              (last (k # butlast new1)) pt' ww' = (length ww', pt', ww')"
      by blast
    from splits_length [OF hyphenatedLoop_splits [OF rec] sync1] have mono: "length ww1 \<le> length ww'" .
    have a: "bs = acc @ (k # new1)" using bs by simp
    have b: "sorted_wrt (<) (c # k # new1)"
      using sorted1 fl(1) by auto
    have c: "\<forall>b \<in> set (k # new1). b \<le> length ww'"
      using bound1 fl(2) mono by simp
    have done1: "new1 = [] \<Longrightarrow> pt' = pt1 \<and> ww' = ww1 \<and> k = length ww1"
    proof -
      assume e: "new1 = []"
      with last1 have nk: "\<not> k < length ww1" by (auto split: if_splits)
      with rec have "pt' = pt1" "ww' = ww1" by (simp_all add: hyphenatedLoop_done)
      with nk fl(2) show ?thesis by simp
    qed
    have d: "last (k # new1) = length ww'"
    proof (cases "new1 = []")
      case True
      with done1 show ?thesis by simp
    next
      case False
      with last1 show ?thesis by (auto split: if_splits)
    qed
    have e: "sameUpTo c (pt, ww) (pt', ww')"
      using sameUpTo_trans [OF fl(3) sameUpTo_le [OF same1]] fl(1) by simp
    have g: "\<forall>j < length (k # new1).
               lineOK E renderer fontId pageWidth spaceWidth pt' ww' ((c # k # new1) ! j) ((k # new1) ! j)"
    proof (intro allI impI)
      fix j assume j: "j < length (k # new1)"
      show "lineOK E renderer fontId pageWidth spaceWidth pt' ww' ((c # k # new1) ! j) ((k # new1) ! j)"
      proof (cases j)
        case 0
        have "lineOK E renderer fontId pageWidth spaceWidth pt' ww' c k
                = lineOK E renderer fontId pageWidth spaceWidth pt1 ww1 c k"
          using same1 fl(1) by (intro lineOK_cong) (simp_all add: sameUpTo_def)
        with fl(4) 0 show ?thesis by simp
      next
        case (Suc j')
        with j ok1 show ?thesis by simp
      qed
    qed
    have h: "fillLine E renderer fontId pageWidth spaceWidth (last (c # butlast (k # new1))) 0
              (last (c # butlast (k # new1))) pt' ww' = (length ww', pt', ww')"
    proof (cases "new1 = []")
      case True
      from done1 [OF True] fl(5) have "pt1 = pt" "ww1 = ww" "pt' = pt" "ww' = ww" "k = length ww"
        by simp_all
      with f True show ?thesis by simp
    next
      case False
      with fix1 show ?thesis by simp
    qed
    from a b c d e g h True show ?thesis
      by (intro exI [of _ "k # new1"]) simp
  qed
qed

section \<open>The lines of the breaker that minimises raggedness\<close>

text \<open>After the first loop every word from the start index on fits the page or cannot
  be split.\<close>

lemma nth_take_eq: "take k xs = take k ys \<Longrightarrow> i < k \<Longrightarrow> xs ! i = ys ! i"
  by (metis nth_take)

lemma splitOversized_result:
  assumes "splitOversized E renderer fontId pageWidth i pt ww = (pt', ww')" and "inSync pt ww"
  shows "sameUpTo i (pt, ww) (pt', ww')
       \<and> (\<forall>t. i \<le> t \<and> t < length ww'
              \<longrightarrow> uint (ww' ! t) \<le> pageWidth
                  \<or> unsplittable E renderer fontId pageWidth (words pt' ! t) (wordStyles pt' ! t))"
  using assms
proof (induction E renderer fontId pageWidth i pt ww rule: splitOversized.induct)
  case (1 E renderer fontId pageWidth i pt ww)
  note sync = "1.prems"(2)
  show ?case
  proof (cases "i < length ww")
    case False
    with "1.prems"(1) show ?thesis by (simp add: splitOversized_done)
  next
    case inside: True
    have at_i: "uint (ww' ! i) \<le> pageWidth
                  \<or> unsplittable E renderer fontId pageWidth (words pt' ! i) (wordStyles pt' ! i)"
      if same: "sameUpTo (Suc i) (pt, ww) (pt', ww')"
        and here: "uint (ww ! i) \<le> pageWidth
                  \<or> unsplittable E renderer fontId pageWidth (words pt ! i) (wordStyles pt ! i)"
    proof -
      from same have "ww' ! i = ww ! i" "words pt' ! i = words pt ! i"
        "wordStyles pt' ! i = wordStyles pt ! i"
        unfolding sameUpTo_def by (auto intro: nth_take_eq [of "Suc i"])
      with here show ?thesis by simp
    qed
    have step: ?thesis
      if rec: "splitOversized E renderer fontId pageWidth (Suc i) pt ww = (pt', ww')"
        and ih: "sameUpTo (Suc i) (pt, ww) (pt', ww')
             \<and> (\<forall>t. Suc i \<le> t \<and> t < length ww'
              \<longrightarrow> uint (ww' ! t) \<le> pageWidth
                  \<or> unsplittable E renderer fontId pageWidth (words pt' ! t) (wordStyles pt' ! t))"
        and here: "uint (ww ! i) \<le> pageWidth
                  \<or> unsplittable E renderer fontId pageWidth (words pt ! i) (wordStyles pt ! i)"
    proof -
      from ih have same: "sameUpTo (Suc i) (pt, ww) (pt', ww')" by simp
      have "uint (ww' ! t) \<le> pageWidth
                  \<or> unsplittable E renderer fontId pageWidth (words pt' ! t) (wordStyles pt' ! t)"
        if "i \<le> t" "t < length ww'" for t
      proof (cases "t = i")
        case True
        with at_i [OF same here] show ?thesis by simp
      next
        case False
        with that ih show ?thesis by simp
      qed
      with sameUpTo_le [OF same, of i] show ?thesis by simp
    qed
    show ?thesis
    proof (cases "pageWidth < uint (ww ! i)")
      case False
      with "1.prems"(1) inside have rec: "splitOversized E renderer fontId pageWidth (Suc i) pt ww = (pt', ww')"
        by (simp add: splitOversized_fits)
      from False have here: "uint (ww ! i) \<le> pageWidth
                  \<or> unsplittable E renderer fontId pageWidth (words pt ! i) (wordStyles pt ! i)"
        by simp
      from step [OF rec "1.IH"(3) [OF inside False rec sync] here] show ?thesis .
    next
      case over: True
      obtain split pt1 ww1 where h: "hyphenateWordAtIndex E renderer fontId i pageWidth True pt ww
                                       = (split, pt1, ww1)"
        by (metis prod_cases3)
      show ?thesis
      proof (cases split)
        case True
        with "1.prems"(1) have rec: "splitOversized E renderer fontId pageWidth i pt1 ww1 = (pt', ww')"
          by (simp add: splitOversized_over [OF inside over h])
        from h True have h': "hyphenateWordAtIndex E renderer fontId i pageWidth True pt ww = (True, pt1, ww1)"
          by simp
        from splitStep_inSync [OF splitStepI [OF inside h'] sync] have sync1: "inSync pt1 ww1" .
        from "1.IH"(1) [OF inside over h [symmetric] refl True rec sync1]
          splitStep_at_sameUpTo [OF h' sync]
        show ?thesis by (auto intro: sameUpTo_trans)
      next
        case False
        with h have same: "pt1 = pt" "ww1 = ww"
          using hyphenate_False [of E renderer fontId i pageWidth True pt ww pt1 ww1] by simp_all
        from "1.prems"(1) False have rec: "splitOversized E renderer fontId pageWidth (Suc i) pt1 ww1 = (pt', ww')"
          by (simp add: splitOversized_over [OF inside over h])
        from inside sync have iw: "i < length (words pt)" by (simp add: inSync_def)
        from h False have "\<not> fst (hyphenateWordAtIndex E renderer fontId i pageWidth True pt ww)"
          by simp
        with iw have here: "uint (ww ! i) \<le> pageWidth
                  \<or> unsplittable E renderer fontId pageWidth (words pt ! i) (wordStyles pt ! i)"
          by (simp add: hyphenate_fails_unsplittable)
        from sync same have sync1: "inSync pt1 ww1" by simp
        from step [OF rec [unfolded same] "1.IH"(2) [OF inside over h [symmetric] refl False rec sync1, unfolded same] here]
        show ?thesis .
      qed
    qed
  qed
qed


lemma dpInner_done:
  "\<not> j < totalWordCount
     \<Longrightarrow> dpInner pageWidth spaceWidth ww totalWordCount i j currlen (dp, ans) = (dp, ans)"
  by (subst dpInner.simps) simp

lemma dpInner_over:
  "j < totalWordCount \<Longrightarrow> pageWidth < currlen + uint (ww ! j) + spaceWidth
     \<Longrightarrow> dpInner pageWidth spaceWidth ww totalWordCount i j currlen (dp, ans) = (dp, ans)"
  by (subst dpInner.simps) (simp add: Let_def)

lemma dpInner_step:
  "j < totalWordCount \<Longrightarrow> \<not> pageWidth < currlen + uint (ww ! j) + spaceWidth
     \<Longrightarrow> cost = (if j = totalWordCount - 1 then 0
                 else lineCost (word_of_int (pageWidth - (currlen + uint (ww ! j) + spaceWidth)))
                        (dp ! (j + 1)))
     \<Longrightarrow> dpInner pageWidth spaceWidth ww totalWordCount i j currlen (dp, ans)
           = dpInner pageWidth spaceWidth ww totalWordCount i (Suc j) (currlen + uint (ww ! j) + spaceWidth)
               (if cost <s dp ! i then (dp[i := cost], ans[i := j]) else (dp, ans))"
  by (subst dpInner.simps) (simp add: Let_def)

text \<open>The entry of \<open>ans\<close> for \<open>i\<close> is in order when the line from \<open>i\<close> to it fits the page.\<close>

definition ansFits :: "int \<Rightarrow> int \<Rightarrow> 16 word list \<Rightarrow> nat \<Rightarrow> nat \<Rightarrow> nat list \<Rightarrow> bool" where
  "ansFits pageWidth spaceWidth ww totalWordCount i ans \<longleftrightarrow>
     i \<le> ans ! i \<and> ans ! i < totalWordCount
     \<and> lineLen spaceWidth ww i (Suc (ans ! i)) \<le> pageWidth"

lemma dpInner_inv:
  assumes "dpInner pageWidth spaceWidth ww n i j currlen tabs = tabs'"
    and "i \<le> j" and "currlen = lineLen spaceWidth ww i j"
    and "i < length (fst tabs)" and "i < length (snd tabs)"
    and "fst tabs ! i = MAX_COST \<or> ansFits pageWidth spaceWidth ww n i (snd tabs)"
  shows "length (fst tabs') = length (fst tabs) \<and> length (snd tabs') = length (snd tabs)
       \<and> (\<forall>t. t \<noteq> i \<longrightarrow> fst tabs' ! t = fst tabs ! t \<and> snd tabs' ! t = snd tabs ! t)
       \<and> (fst tabs' ! i = MAX_COST \<or> ansFits pageWidth spaceWidth ww n i (snd tabs'))"
  using assms
proof (induction pageWidth spaceWidth ww n i j currlen tabs rule: dpInner.induct)
  case (1 pageWidth spaceWidth ww n i j currlen dp ans)
  show ?case
  proof (cases "j < n")
    case False
    with "1.prems"(1) have "tabs' = (dp, ans)" by (simp add: dpInner_done)
    with "1.prems"(6) show ?thesis by simp
  next
    case inside: True
    let ?len = "currlen + uint (ww ! j) + spaceWidth"
    have len: "?len = lineLen spaceWidth ww i (Suc j)"
      using "1.prems"(2,3) by (simp add: lineLen_Suc)
    show ?thesis
    proof (cases "pageWidth < ?len")
      case True
      with "1.prems"(1) inside have "tabs' = (dp, ans)" by (simp add: dpInner_over)
      with "1.prems"(6) show ?thesis by simp
    next
      case False
      define cost where "cost = (if j = n - 1 then 0
                 else lineCost (word_of_int (pageWidth - ?len)) (dp ! (j + 1)))"
      let ?tabs = "if cost <s dp ! i then (dp[i := cost], ans[i := j]) else (dp, ans)"
      from "1.prems"(1) have rec: "dpInner pageWidth spaceWidth ww n i (Suc j) ?len ?tabs = tabs'"
        unfolding dpInner_step [OF inside False cost_def] .
      have l1: "length (fst ?tabs) = length dp" "length (snd ?tabs) = length ans"
        by simp_all
      have f1: "\<forall>t. t \<noteq> i \<longrightarrow> fst ?tabs ! t = dp ! t \<and> snd ?tabs ! t = ans ! t"
        by simp
      have inv1: "fst ?tabs ! i = MAX_COST \<or> ansFits pageWidth spaceWidth ww n i (snd ?tabs)"
      proof (cases "cost <s dp ! i")
        case True
        with "1.prems"(2,5) inside False len show ?thesis
          by (simp add: ansFits_def)
      next
        case False
        with "1.prems"(6) show ?thesis by simp
      qed
      have p: "i \<le> Suc j" "?len = lineLen spaceWidth ww i (Suc j)"
        "i < length (fst ?tabs)" "i < length (snd ?tabs)"
        using "1.prems"(2,4,5) len by simp_all
      from "1.IH" [OF inside refl False cost_def rec p inv1]
      have "length (fst tabs') = length (fst ?tabs) \<and> length (snd tabs') = length (snd ?tabs)
       \<and> (\<forall>t. t \<noteq> i \<longrightarrow> fst tabs' ! t = fst ?tabs ! t \<and> snd tabs' ! t = snd ?tabs ! t)
       \<and> (fst tabs' ! i = MAX_COST \<or> ansFits pageWidth spaceWidth ww n i (snd tabs'))" .
      with l1 f1 show ?thesis by simp
    qed
  qed
qed


definition entryOK :: "int \<Rightarrow> int \<Rightarrow> 16 word list \<Rightarrow> nat \<Rightarrow> nat \<Rightarrow> nat list \<Rightarrow> bool" where
  "entryOK pageWidth spaceWidth ww totalWordCount i ans \<longleftrightarrow>
     i \<le> ans ! i \<and> ans ! i < totalWordCount
     \<and> (ans ! i = i \<or> lineLen spaceWidth ww i (Suc (ans ! i)) \<le> pageWidth)"

lemma dpRound_result:
  assumes "dpRound pageWidth spaceWidth ww n i tabs = tabs'"
    and "i < length (fst tabs)" and "i < length (snd tabs)" and "i < n"
  shows "length (fst tabs') = length (fst tabs) \<and> length (snd tabs') = length (snd tabs)
       \<and> (\<forall>t. t \<noteq> i \<longrightarrow> fst tabs' ! t = fst tabs ! t \<and> snd tabs' ! t = snd tabs ! t)
       \<and> entryOK pageWidth spaceWidth ww n i (snd tabs')"
proof -
  obtain dp ans where tabs: "tabs = (dp, ans)" by (cases tabs) auto
  let ?start = "(dp[i := MAX_COST], ans)"
  define inner where "inner = dpInner pageWidth spaceWidth ww n i i (- spaceWidth) ?start"
  have pre: "i \<le> i" "- spaceWidth = lineLen spaceWidth ww i i"
    "i < length (fst ?start)" "i < length (snd ?start)"
    "fst ?start ! i = MAX_COST \<or> ansFits pageWidth spaceWidth ww n i (snd ?start)"
    using assms(2,3) by (simp_all add: tabs lineLen_empty)
  from dpInner_inv [OF inner_def [symmetric] pre]
  have inv: "length (fst inner) = length dp" "length (snd inner) = length ans"
    "\<forall>t. t \<noteq> i \<longrightarrow> fst inner ! t = dp ! t \<and> snd inner ! t = ans ! t"
    "fst inner ! i = MAX_COST \<or> ansFits pageWidth spaceWidth ww n i (snd inner)"
    by simp_all
  have res: "tabs' = (if fst inner ! i = MAX_COST
                      then ((fst inner)[i := (if i + 1 < n then fst inner ! (i + 1) else 0)],
                            (snd inner)[i := i])
                      else inner)"
    using assms(1) unfolding dpRound_def tabs inner_def
    by (auto simp: Let_def split: prod.splits)
  show ?thesis
  proof (cases "fst inner ! i = MAX_COST")
    case True
    with res have r: "tabs' = ((fst inner)[i := (if i + 1 < n then fst inner ! (i + 1) else 0)],
                            (snd inner)[i := i])"
      by simp
    from inv assms(3,4) show ?thesis
      by (simp add: r tabs entryOK_def)
  next
    case False
    with res have r: "tabs' = inner" by simp
    from False inv(4) have "ansFits pageWidth spaceWidth ww n i (snd inner)" by simp
    then have "entryOK pageWidth spaceWidth ww n i (snd inner)"
      by (simp add: ansFits_def entryOK_def)
    with inv show ?thesis by (simp add: r tabs)
  qed
qed

lemma dpOuter_result:
  assumes "dpOuter pageWidth spaceWidth ww n k tabs = tabs'"
    and "k \<le> n" and "length (fst tabs) = n" and "length (snd tabs) = n"
  shows "length (fst tabs') = n \<and> length (snd tabs') = n
       \<and> (\<forall>t. k \<le> t \<longrightarrow> fst tabs' ! t = fst tabs ! t \<and> snd tabs' ! t = snd tabs ! t)
       \<and> (\<forall>t < k. entryOK pageWidth spaceWidth ww n t (snd tabs'))"
  using assms
proof (induction k arbitrary: tabs)
  case 0
  then show ?case by simp
next
  case (Suc i)
  define tabs1 where "tabs1 = dpRound pageWidth spaceWidth ww n i tabs"
  from Suc.prems have i: "i < length (fst tabs)" "i < length (snd tabs)" "i < n" by simp_all
  from dpRound_result [OF tabs1_def [symmetric] i] Suc.prems(3,4)
  have r: "length (fst tabs1) = n" "length (snd tabs1) = n"
    "\<forall>t. t \<noteq> i \<longrightarrow> fst tabs1 ! t = fst tabs ! t \<and> snd tabs1 ! t = snd tabs ! t"
    "entryOK pageWidth spaceWidth ww n i (snd tabs1)"
    by simp_all
  from Suc.prems(1) have rec: "dpOuter pageWidth spaceWidth ww n i tabs1 = tabs'"
    by (simp add: tabs1_def)
  from Suc.IH [OF rec _ r(1,2)] i(3)
  have ih: "length (fst tabs') = n" "length (snd tabs') = n"
    "\<forall>t. i \<le> t \<longrightarrow> fst tabs' ! t = fst tabs1 ! t \<and> snd tabs' ! t = snd tabs1 ! t"
    "\<forall>t < i. entryOK pageWidth spaceWidth ww n t (snd tabs')"
    by simp_all
  have "entryOK pageWidth spaceWidth ww n i (snd tabs')"
    using r(4) ih(3) by (simp add: entryOK_def)
  with ih(4) have "\<forall>t < Suc i. entryOK pageWidth spaceWidth ww n t (snd tabs')"
    by (simp add: less_Suc_eq)
  moreover have "\<forall>t. Suc i \<le> t \<longrightarrow> fst tabs' ! t = fst tabs ! t \<and> snd tabs' ! t = snd tabs ! t"
    using ih(3) r(3) by simp
  ultimately show ?case using ih(1,2) by simp
qed

lemma reconstruct_done:
  "\<not> c < n \<Longrightarrow> reconstruct ans n c acc = acc"
  by (subst reconstruct.simps) simp

lemma reconstruct_step:
  "c < n \<Longrightarrow> reconstruct ans n c acc
     = reconstruct ans n (if ans ! c + 1 \<le> c then c + 1 else ans ! c + 1)
         (acc @ [if ans ! c + 1 \<le> c then c + 1 else ans ! c + 1])"
  by (subst reconstruct.simps) (simp add: Let_def)

lemma reconstruct_result:
  assumes "\<forall>t < n. entryOK pageWidth spaceWidth ww n t ans" and "c \<le> n"
  shows "\<exists>new. reconstruct ans n c acc = acc @ new \<and> sorted_wrt (<) (c # new)
       \<and> (\<forall>b \<in> set new. b \<le> n)
       \<and> (if c < n then new \<noteq> [] \<and> last new = n else new = [])
       \<and> (\<forall>j < length new. new ! j = Suc (ans ! ((c # new) ! j)))"
  using assms
proof (induction ans n c acc rule: reconstruct.induct)
  case (1 ans n c acc)
  show ?case
  proof (cases "c < n")
    case False
    then show ?thesis by (intro exI [of _ "[]"]) (simp add: reconstruct_done)
  next
    case True
    with "1.prems"(1) have e: "c \<le> ans ! c" "ans ! c < n" by (simp_all add: entryOK_def)
    let ?k = "Suc (ans ! c)"
    have k: "(if ans ! c + 1 \<le> c then c + 1 else ans ! c + 1) = ?k"
      using e by simp
    have step: "reconstruct ans n c acc = reconstruct ans n ?k (acc @ [?k])"
      using reconstruct_step [OF True, of ans acc] k by simp
    from e have kn: "?k \<le> n" by simp
    from "1.IH" [OF True refl refl "1.prems"(1)] k kn obtain new1 where
      r: "reconstruct ans n ?k (acc @ [?k]) = (acc @ [?k]) @ new1"
      and s: "sorted_wrt (<) (?k # new1)" and b: "\<forall>b \<in> set new1. b \<le> n"
      and l: "if ?k < n then new1 \<noteq> [] \<and> last new1 = n else new1 = []"
      and a: "\<forall>j < length new1. new1 ! j = Suc (ans ! ((?k # new1) ! j))"
      by auto
    have 1: "reconstruct ans n c acc = acc @ (?k # new1)" using step r by simp
    have 2: "sorted_wrt (<) (c # ?k # new1)" using s e by auto
    have 3: "\<forall>b \<in> set (?k # new1). b \<le> n" using b kn by simp
    have 4: "last (?k # new1) = n" using l kn by (auto split: if_splits)
    have 5: "\<forall>j < length (?k # new1). (?k # new1) ! j = Suc (ans ! ((c # ?k # new1) ! j))"
    proof (intro allI impI)
      fix j assume "j < length (?k # new1)"
      with a show "(?k # new1) ! j = Suc (ans ! ((c # ?k # new1) ! j))"
        by (cases j) simp_all
    qed
    from 1 2 3 4 5 True show ?thesis
      by (intro exI [of _ "?k # new1"]) simp
  qed
qed


text \<open>The two tables as \<^verbatim>\<open>computeLineBreaks\<close> fills them.\<close>

definition dpTables :: "int \<Rightarrow> int \<Rightarrow> 16 word list \<Rightarrow> nat \<Rightarrow> 32 word list \<times> nat list" where
  "dpTables pageWidth spaceWidth ww n =
     dpOuter pageWidth spaceWidth ww n (n - 1)
       ((replicate n 0)[n - 1 := 0], (replicate n 0)[n - 1 := n - 1])"

lemma computeLineBreaks_unfold:
  assumes "words pt \<noteq> []" and "splitOversized E renderer fontId pageWidth 0 pt ww = (pt', ww')"
  shows "computeLineBreaks E renderer fontId pageWidth spaceWidth pt ww
     = (reconstruct (snd (dpTables pageWidth spaceWidth ww' (length (words pt'))))
          (length (words pt')) 0 [], pt', ww')"
  using assms by (simp add: computeLineBreaks_def dpTables_def Let_def split: prod.splits)

lemma dpTables_entries:
  assumes "0 < n"
  shows "length (snd (dpTables pageWidth spaceWidth ww n)) = n
       \<and> (\<forall>t < n. entryOK pageWidth spaceWidth ww n t (snd (dpTables pageWidth spaceWidth ww n)))"
proof -
  let ?init = "((replicate n (0 :: 32 word))[n - 1 := 0], (replicate n (0 :: nat))[n - 1 := n - 1])"
  have pre: "n - 1 \<le> n" "length (fst ?init) = n" "length (snd ?init) = n" by simp_all
  from dpOuter_result [OF dpTables_def [symmetric] pre]
  have r: "length (snd (dpTables pageWidth spaceWidth ww n)) = n"
    "\<forall>t. n - 1 \<le> t \<longrightarrow> snd (dpTables pageWidth spaceWidth ww n) ! t = snd ?init ! t"
    "\<forall>t < n - 1. entryOK pageWidth spaceWidth ww n t (snd (dpTables pageWidth spaceWidth ww n))"
    by simp_all
  from r(2) assms have "snd (dpTables pageWidth spaceWidth ww n) ! (n - 1) = n - 1"
    by simp
  with assms have last: "entryOK pageWidth spaceWidth ww n (n - 1) (snd (dpTables pageWidth spaceWidth ww n))"
    by (simp add: entryOK_def)
  have "entryOK pageWidth spaceWidth ww n t (snd (dpTables pageWidth spaceWidth ww n))" if "t < n" for t
  proof (cases "t < n - 1")
    case True
    with r(3) show ?thesis by simp
  next
    case False
    with that have "t = n - 1" by simp
    with last show ?thesis by simp
  qed
  with r(1) show ?thesis by simp
qed

lemma computeLineBreaks_lines:
  assumes "computeLineBreaks E renderer fontId pageWidth spaceWidth pt ww = (bs, pt', ww')"
    and "inSync pt ww" and "words pt \<noteq> []"
  shows "sorted_wrt (<) (0 # bs) \<and> bs \<noteq> [] \<and> last bs = length ww'
       \<and> (\<forall>j < length bs. lineOK E renderer fontId pageWidth spaceWidth pt' ww' ((0 # bs) ! j) (bs ! j))"
proof -
  from computeLineBreaks_state [OF assms(1)] assms(3)
  have so: "splitOversized E renderer fontId pageWidth 0 pt ww = (pt', ww')" by simp
  from splits_keep [OF splitOversized_splits [OF so] assms(2)] obtain k where
    sync': "inSync pt' ww'" and k: "(splitInPlace ^^ k) (words pt) (words pt')" by blast
  define n where "n = length (words pt')"
  from splitsN_length [OF k] assms(3) have n0: "0 < n" by (simp add: n_def)
  from sync' have nw: "length ww' = n" by (simp add: inSync_def n_def)
  define ans where "ans = snd (dpTables pageWidth spaceWidth ww' n)"
  from dpTables_entries [OF n0] have entries: "\<forall>t < n. entryOK pageWidth spaceWidth ww' n t ans"
    by (simp add: ans_def)
  from assms(1) have bs: "bs = reconstruct ans n 0 []"
    unfolding computeLineBreaks_unfold [OF assms(3) so] ans_def n_def by simp
  from reconstruct_result [OF entries, of 0 "[]"] n0 bs
  have r: "sorted_wrt (<) (0 # bs)" "\<forall>b \<in> set bs. b \<le> n" "bs \<noteq> []" "last bs = n"
    "\<forall>j < length bs. bs ! j = Suc (ans ! ((0 # bs) ! j))"
    by auto
  note pre = splitOversized_result [OF so assms(2)]
  have "lineOK E renderer fontId pageWidth spaceWidth pt' ww' ((0 # bs) ! j) (bs ! j)"
    if j: "j < length bs" for j
  proof -
    let ?s = "(0 # bs) ! j"
    from r(5) j have e: "bs ! j = Suc (ans ! ?s)" by simp
    from r(2) j have "bs ! j \<le> n" by simp
    with e have sn: "ans ! ?s < n" by simp
    from r(1) j have "?s < bs ! j"
      using sorted_wrt_nth_less [of "(<)" "0 # bs" j "Suc j"] by simp
    with e have "?s \<le> ans ! ?s" by simp
    with sn have s: "?s < n" by simp
    with entries have ok: "entryOK pageWidth spaceWidth ww' n ?s ans" by simp
    show ?thesis
    proof (cases "lineLen spaceWidth ww' ?s (bs ! j) \<le> pageWidth")
      case True
      then show ?thesis by (simp add: lineOK_def)
    next
      case False
      with ok e have single: "ans ! ?s = ?s" by (simp add: entryOK_def)
      with e have bj: "bs ! j = Suc ?s" by simp
      from False bj have over: "pageWidth < uint (ww' ! ?s)" by (simp add: lineLen_single)
      with pre s nw have "unsplittable E renderer fontId pageWidth (words pt' ! ?s) (wordStyles pt' ! ?s)"
        by (metis le0 not_le)
      with over bj show ?thesis by (simp add: lineOK_def)
    qed
  qed
  with r nw show ?thesis by simp
qed

lemma computeHyphenatedLineBreaks_lines:
  assumes "computeHyphenatedLineBreaks E renderer fontId pageWidth spaceWidth pt ww = (bs, pt', ww')"
    and "inSync pt ww" and "words pt \<noteq> []"
  shows "sorted_wrt (<) (0 # bs) \<and> bs \<noteq> [] \<and> last bs = length ww'
       \<and> (\<forall>j < length bs. lineOK E renderer fontId pageWidth spaceWidth pt' ww' ((0 # bs) ! j) (bs ! j))"
proof -
  from assms(2,3) have "0 < length ww" by (simp add: inSync_def)
  with hyphenatedLoop_lines [OF assms(1) [unfolded computeHyphenatedLineBreaks_def] assms(2)]
  show ?thesis by auto
qed

section \<open>A whole layout pass\<close>

lemma applyParagraphIndent_fields [simp]:
  "wordStyles (applyParagraphIndent pt) = wordStyles pt"
  "style (applyParagraphIndent pt) = style pt"
  "extraParagraphSpacing (applyParagraphIndent pt) = extraParagraphSpacing pt"
  "hyphenationEnabled (applyParagraphIndent pt) = hyphenationEnabled pt"
  "length (words (applyParagraphIndent pt)) = length (words pt)"
  by (auto simp: applyParagraphIndent_def)

lemma applyParagraphIndent_empty [simp]:
  "words (applyParagraphIndent pt) = [] \<longleftrightarrow> words pt = []"
  by (auto simp: applyParagraphIndent_def)

lemma inSync_calculate:
  "length (wordStyles pt) = length (words pt) \<Longrightarrow> inSync pt (calculateWordWidths renderer fontId pt)"
  by (simp add: inSync_def calculateWordWidths_def)

lemma sorted_breaks_start:
  assumes "sorted_wrt (<) (0 # bs)" and "j < length bs"
  shows "lineStartOf bs j = (0 # bs) ! j" and "lineStartOf bs j < bs ! j" and "bs ! j \<le> last bs"
proof -
  show s: "lineStartOf bs j = (0 # bs) ! j"
    by (cases j) (simp_all add: lineStartOf_def)
  from assms show "lineStartOf bs j < bs ! j"
    unfolding s using sorted_wrt_nth_less [of "(<)" "0 # bs" j "Suc j"] by simp
  from assms(2) have ne: "bs \<noteq> []" by auto
  from assms(1) have sb: "sorted_wrt (<) bs" by simp
  show "bs ! j \<le> last bs"
  proof (cases "j = length bs - 1")
    case True
    with ne show ?thesis by (simp add: last_conv_nth)
  next
    case False
    with assms(2) have "j < length bs - 1" by simp
    with sb ne have "bs ! j < bs ! (length bs - 1)"
      by (intro sorted_wrt_nth_less [of "(<)"]) simp_all
    with ne show ?thesis by (simp add: last_conv_nth)
  qed
qed

text \<open>Everything the later theorems use about one call of \<open>layoutAndExtractLines\<close> on a
  buffer that is not empty: the breaker's result, and the blocks as the lines of the
  final lists.\<close>

lemma layout_result:
  assumes wf: "length (wordStyles pt) = length (words pt)" and ne: "words pt \<noteq> []"
    and res: "layoutAndExtractLines E renderer fontId viewportWidth includeLastLine pt = (blocks, ptF)"
  obtains bs pt2 ww2 where
    "(if hyphenationEnabled pt
      then computeHyphenatedLineBreaks E renderer fontId (uint viewportWidth) (getSpaceWidth renderer fontId)
             (applyParagraphIndent pt) (calculateWordWidths renderer fontId (applyParagraphIndent pt))
      else computeLineBreaks E renderer fontId (uint viewportWidth) (getSpaceWidth renderer fontId)
             (applyParagraphIndent pt) (calculateWordWidths renderer fontId (applyParagraphIndent pt)))
       = (bs, pt2, ww2)"
    "(splitStep E renderer fontId)\<^sup>*\<^sup>*
        (applyParagraphIndent pt, calculateWordWidths renderer fontId (applyParagraphIndent pt)) (pt2, ww2)"
    "inSync pt2 ww2" "ww2 = calculateWordWidths renderer fontId pt2"
    "sorted_wrt (<) (0 # bs)" "bs \<noteq> []" "last bs = length ww2"
    "\<forall>j < length bs. lineOK E renderer fontId (uint viewportWidth) (getSpaceWidth renderer fontId)
                        pt2 ww2 ((0 # bs) ! j) (bs ! j)"
    "blocks = map (lineBlock (uint viewportWidth) (getSpaceWidth renderer fontId) ww2 bs pt2)
                [0 ..< (if includeLastLine then length bs else length bs - 1)]"
    "ptF = pt2\<lparr>words := drop (lineStartOf bs (if includeLastLine then length bs else length bs - 1)) (words pt2),
                wordStyles := drop (lineStartOf bs (if includeLastLine then length bs else length bs - 1))
                                (wordStyles pt2)\<rparr>"
proof -
  let ?pt1 = "applyParagraphIndent pt"
  let ?pw = "uint viewportWidth" and ?sw = "getSpaceWidth renderer fontId"
  let ?ww1 = "calculateWordWidths renderer fontId ?pt1"
  let ?br = "if hyphenationEnabled pt
      then computeHyphenatedLineBreaks E renderer fontId ?pw ?sw ?pt1 ?ww1
      else computeLineBreaks E renderer fontId ?pw ?sw ?pt1 ?ww1"
  obtain bs pt2 ww2 where br: "?br = (bs, pt2, ww2)" by (metis prod_cases3)
  let ?m = "if includeLastLine then length bs else length bs - 1"
  from wf have sync1: "inSync ?pt1 ?ww1" by (intro inSync_calculate) simp
  from ne have ne1: "words ?pt1 \<noteq> []" by simp
  have splits: "(splitStep E renderer fontId)\<^sup>*\<^sup>* (?pt1, ?ww1) (pt2, ww2)"
    using br computeHyphenatedLineBreaks_splits computeLineBreaks_splits
    by (auto split: if_splits)
  from splits_keep [OF splits sync1] have sync2: "inSync pt2 ww2"
    and cached: "ww2 = calculateWordWidths renderer fontId pt2"
    by blast+
  have lines: "sorted_wrt (<) (0 # bs) \<and> bs \<noteq> [] \<and> last bs = length ww2
       \<and> (\<forall>j < length bs. lineOK E renderer fontId ?pw ?sw pt2 ww2 ((0 # bs) ! j) (bs ! j))"
  proof (cases "hyphenationEnabled pt")
    case True
    with br have "computeHyphenatedLineBreaks E renderer fontId ?pw ?sw ?pt1 ?ww1 = (bs, pt2, ww2)" by simp
    from computeHyphenatedLineBreaks_lines [OF this sync1 ne1] show ?thesis .
  next
    case False
    with br have "computeLineBreaks E renderer fontId ?pw ?sw ?pt1 ?ww1 = (bs, pt2, ww2)" by simp
    from computeLineBreaks_lines [OF this sync1 ne1] show ?thesis .
  qed
  then have sorted: "sorted_wrt (<) (0 # bs)" by simp
  have mono: "\<forall>j. 0 \<le> j \<and> j < ?m \<longrightarrow> lineStartOf bs j \<le> bs ! j"
  proof (intro allI impI)
    fix j assume "0 \<le> j \<and> j < ?m"
    then have "j < length bs" by (auto split: if_splits)
    from sorted_breaks_start(2) [OF sorted this] show "lineStartOf bs j \<le> bs ! j" by simp
  qed
  have start0: "pt2\<lparr>words := drop (lineStartOf bs 0) (words pt2),
                     wordStyles := drop (lineStartOf bs 0) (wordStyles pt2)\<rparr> = pt2"
    by (simp add: lineStartOf_def)
  have "layoutAndExtractLines E renderer fontId viewportWidth includeLastLine pt
          = extractLines ?pw ?sw ww2 bs [0 ..< ?m] ([], pt2)"
    using ne br by (simp add: layoutAndExtractLines_def Let_def)
  also have "\<dots> = ([] @ map (lineBlock ?pw ?sw ww2 bs pt2) [0 ..< ?m],
          pt2\<lparr>words := drop (lineStartOf bs ?m) (words pt2),
              wordStyles := drop (lineStartOf bs ?m) (wordStyles pt2)\<rparr>)"
    using extractLines_range [OF mono, of ?pw ?sw ww2 "[]" pt2] unfolding start0 by simp
  finally have "blocks = map (lineBlock ?pw ?sw ww2 bs pt2) [0 ..< ?m]"
    and "ptF = pt2\<lparr>words := drop (lineStartOf bs ?m) (words pt2),
              wordStyles := drop (lineStartOf bs ?m) (wordStyles pt2)\<rparr>"
    using res by simp_all
  with br splits sync2 cached lines show thesis
    by (intro that [of bs pt2 ww2]) simp_all
qed

section \<open>Conservation of the words\<close>

text \<open>A paragraph as the parser builds it: the constructor, then one \<^verbatim>\<open>addWord\<close> for each
  word of the text.\<close>

definition newParsedText :: "BLOCK_STYLE \<Rightarrow> bool \<Rightarrow> bool \<Rightarrow> ParsedText" where
  "newParsedText sty extraSpacing hyphenation =
     \<lparr>words = [], wordStyles = [], style = sty, extraParagraphSpacing = extraSpacing,
      hyphenationEnabled = hyphenation\<rparr>"

definition addWords :: "(string \<times> Style) list \<Rightarrow> ParsedText \<Rightarrow> ParsedText" where
  "addWords input pt = foldl (\<lambda>p ws. addWord (fst ws) (snd ws) p) pt input"

lemma addWords_snoc: "addWords (input @ [x]) pt = addWord (fst x) (snd x) (addWords input pt)"
  by (simp add: addWords_def)

lemma addWords_Nil: "addWords [] pt = pt"
  by (simp add: addWords_def)

lemma addWords_result:
  "words (addWords input pt) = words pt @ map fst (filter (\<lambda>ws. fst ws \<noteq> []) input)"
  "wordStyles (addWords input pt) = wordStyles pt @ map snd (filter (\<lambda>ws. fst ws \<noteq> []) input)"
  by (induction input rule: rev_induct) (simp_all add: addWords_snoc addWords_Nil addWord_def)

lemma splitSteps_splitInPlace:
  "(splitStep E renderer fontId ^^ n) st st' \<Longrightarrow> (splitInPlace ^^ n) (words (fst st)) (words (fst st'))"
proof (induction n arbitrary: st')
  case 0
  then show ?case by simp
next
  case (Suc n)
  from Suc.prems obtain st1 where a: "(splitStep E renderer fontId ^^ n) st st1"
    and b: "splitStep E renderer fontId st1 st'" by auto
  from b have "splitInPlace (words (fst st1)) (words (fst st'))"
    using splitStep_splitInPlace [of E renderer fontId "fst st1" "snd st1" "fst st'" "snd st'"] by simp
  with Suc.IH [OF a] show ?case by auto
qed

lemma lineStartOf_length: "bs \<noteq> [] \<Longrightarrow> lineStartOf bs (length bs) = last bs"
  by (simp add: lineStartOf_def last_conv_nth)

lemma concat_lineBlocks:
  assumes "sorted_wrt (<) (0 # bs)" and "m \<le> length bs"
  shows "concat (map tb_words (map (lineBlock pageWidth spaceWidth ww bs pt) [0 ..< m]))
           = map dropSoft (take (lineStartOf bs m) (words pt))"
    and "concat (map tb_wordStyles (map (lineBlock pageWidth spaceWidth ww bs pt) [0 ..< m]))
           = take (lineStartOf bs m) (wordStyles pt)"
proof -
  have mono: "\<forall>j < m. lineStartOf bs j \<le> bs ! j"
  proof (intro allI impI)
    fix j assume "j < m"
    with assms(2) have "j < length bs" by simp
    from sorted_breaks_start(2) [OF assms(1) this] show "lineStartOf bs j \<le> bs ! j" by simp
  qed
  have "concat (map tb_words (map (lineBlock pageWidth spaceWidth ww bs pt) [0 ..< m]))
      = concat (map (map dropSoft)
          (map (\<lambda>j. take (bs ! j - lineStartOf bs j) (drop (lineStartOf bs j) (words pt))) [0 ..< m]))"
    by (simp add: lineBlock_words o_def)
  also have "\<dots> = map dropSoft
       (concat (map (\<lambda>j. take (bs ! j - lineStartOf bs j) (drop (lineStartOf bs j) (words pt))) [0 ..< m]))"
    by (simp only: map_concat)
  finally show "concat (map tb_words (map (lineBlock pageWidth spaceWidth ww bs pt) [0 ..< m]))
           = map dropSoft (take (lineStartOf bs m) (words pt))"
    by (simp only: concat_segments [OF mono])
  have "concat (map tb_wordStyles (map (lineBlock pageWidth spaceWidth ww bs pt) [0 ..< m]))
      = concat (map (\<lambda>j. take (bs ! j - lineStartOf bs j) (drop (lineStartOf bs j) (wordStyles pt))) [0 ..< m])"
    by (simp add: lineBlock_words o_def)
  then show "concat (map tb_wordStyles (map (lineBlock pageWidth spaceWidth ww bs pt) [0 ..< m]))
           = take (lineStartOf bs m) (wordStyles pt)"
    by (simp only: concat_segments [OF mono])
qed

text \<open>A layout to completion emits the whole final word list, in order, and leaves the
  buffer empty.\<close>

lemma layout_complete:
  assumes wf: "length (wordStyles pt) = length (words pt)"
    and res: "layoutAndExtractLines E renderer fontId viewportWidth True pt = (blocks, ptF)"
  shows "\<exists>n pt2 ww2.
      (splitStep E renderer fontId ^^ n)
         (applyParagraphIndent pt, calculateWordWidths renderer fontId (applyParagraphIndent pt)) (pt2, ww2)
    \<and> concat (map tb_words blocks) = map dropSoft (words pt2)
    \<and> concat (map tb_wordStyles blocks) = wordStyles pt2
    \<and> words ptF = [] \<and> wordStyles ptF = []"
proof (cases "words pt = []")
  case True
  with res have b: "blocks = []" "ptF = pt" by (simp_all add: layoutAndExtractLines_def)
  from True have api: "applyParagraphIndent pt = pt" by (simp add: applyParagraphIndent_def)
  have "(splitStep E renderer fontId ^^ 0)
         (applyParagraphIndent pt, calculateWordWidths renderer fontId (applyParagraphIndent pt))
         (pt, calculateWordWidths renderer fontId pt)"
    by (simp add: api)
  moreover from wf True have "concat (map tb_words blocks) = map dropSoft (words pt)"
    "concat (map tb_wordStyles blocks) = wordStyles pt" "words ptF = []" "wordStyles ptF = []"
    by (simp_all add: b)
  ultimately show ?thesis by blast
next
  case False
  from layout_result [OF wf False res] obtain bs pt2 ww2 where
    splits: "(splitStep E renderer fontId)\<^sup>*\<^sup>*
        (applyParagraphIndent pt, calculateWordWidths renderer fontId (applyParagraphIndent pt)) (pt2, ww2)"
    and sync: "inSync pt2 ww2" and sorted: "sorted_wrt (<) (0 # bs)" and ne: "bs \<noteq> []"
    and last: "last bs = length ww2"
    and blocks: "blocks = map (lineBlock (uint viewportWidth) (getSpaceWidth renderer fontId) ww2 bs pt2)
                [0 ..< (if True then length bs else length bs - 1)]"
    and ptF: "ptF = pt2\<lparr>words := drop (lineStartOf bs (if True then length bs else length bs - 1)) (words pt2),
                wordStyles := drop (lineStartOf bs (if True then length bs else length bs - 1))
                                (wordStyles pt2)\<rparr>"
    by blast
  from splits obtain n where n: "(splitStep E renderer fontId ^^ n)
        (applyParagraphIndent pt, calculateWordWidths renderer fontId (applyParagraphIndent pt)) (pt2, ww2)"
    by (auto simp: rtranclp_power)
  from ne last sync have all: "lineStartOf bs (length bs) = length (words pt2)"
    "lineStartOf bs (length bs) = length (wordStyles pt2)"
    by (simp_all add: lineStartOf_length inSync_def)
  from blocks have b: "blocks = map (lineBlock (uint viewportWidth) (getSpaceWidth renderer fontId) ww2 bs pt2)
                [0 ..< length bs]" by simp
  have "concat (map tb_words blocks) = map dropSoft (words pt2)"
    unfolding b concat_lineBlocks(1) [OF sorted le_refl] all(1) by simp
  moreover have "concat (map tb_wordStyles blocks) = wordStyles pt2"
    unfolding b concat_lineBlocks(2) [OF sorted le_refl] all(2) by simp
  moreover from ptF all have "words ptF = []" "wordStyles ptF = []" by simp_all
  ultimately show ?thesis using n by blast
qed

text \<open>
  \<^bold>\<open>C3\<close> (conservation of the words). A paragraph is built by the constructor and one
  \<^verbatim>\<open>addWord\<close> for each word of \<open>input\<close>, and laid out to completion
  (\<^verbatim>\<open>includeLastLine = true\<close>). Then the buffer held the words of \<open>input\<close> that are not empty,
  in order, with their styles; some number \<open>n\<close> of calls of \<^verbatim>\<open>hyphenateWordAtIndex\<close> returned
  true during the layout, each one replacing one word of the list by its two pieces at the
  place of the word; the words of the emitted blocks, one block after the other, are the
  words of the list these \<open>n\<close> splits end with (each without its soft hyphens), their
  number is the number of words fed that are not empty plus \<open>n\<close>, and the buffer is empty
  afterwards. Each step on the buffer keeps every word: \<^verbatim>\<open>extractLine\<close> emits a prefix of
  the buffer and leaves the rest of it, a call of \<^verbatim>\<open>hyphenateWordAtIndex\<close> that returns true
  splits one word in place, and one that returns false leaves the lists as they are.
\<close>

theorem word_count_conservation:
  "(pt = addWords input (newParsedText sty extraSpacing hyphenation)
     \<and> layoutAndExtractLines E renderer fontId viewportWidth True pt = (blocks, ptF)
    \<longrightarrow> words pt = map fst (filter (\<lambda>ws. fst ws \<noteq> []) input)
      \<and> wordStyles pt = map snd (filter (\<lambda>ws. fst ws \<noteq> []) input)
      \<and> (\<exists>n pt2 ww2.
           (splitStep E renderer fontId ^^ n)
              (applyParagraphIndent pt, calculateWordWidths renderer fontId (applyParagraphIndent pt))
              (pt2, ww2)
         \<and> (splitInPlace ^^ n) (words (applyParagraphIndent pt)) (words pt2)
         \<and> concat (map tb_words blocks) = map dropSoft (words pt2)
         \<and> concat (map tb_wordStyles blocks) = wordStyles pt2
         \<and> length (concat (map tb_words blocks)) = length (filter (\<lambda>ws. fst ws \<noteq> []) input) + n)
      \<and> words ptF = [] \<and> wordStyles ptF = [])
   \<and> (extractLine breakIndex pageWidth spaceWidth wordWidths lineBreakIndices p = (block, p')
      \<longrightarrow> (\<exists>k. tb_words block = map dropSoft (take k (words p)) \<and> words p' = drop k (words p)
             \<and> tb_wordStyles block = take k (wordStyles p) \<and> wordStyles p' = drop k (wordStyles p)))
   \<and> (hyphenateWordAtIndex E renderer fontId wordIndex availableWidth allowFallbackBreaks p wordWidths
         = (ok, q, wordWidths') \<and> wordIndex < length wordWidths
      \<longrightarrow> (if ok then splitInPlace (words p) (words q) else words q = words p \<and> wordStyles q = wordStyles p))"
proof (intro conjI impI)
  assume a: "pt = addWords input (newParsedText sty extraSpacing hyphenation)
     \<and> layoutAndExtractLines E renderer fontId viewportWidth True pt = (blocks, ptF)"
  then have w: "words pt = map fst (filter (\<lambda>ws. fst ws \<noteq> []) input)"
    and s: "wordStyles pt = map snd (filter (\<lambda>ws. fst ws \<noteq> []) input)"
    by (simp_all add: addWords_result newParsedText_def)
  then have wf: "length (wordStyles pt) = length (words pt)" by simp
  from a have res: "layoutAndExtractLines E renderer fontId viewportWidth True pt = (blocks, ptF)" by blast
  from layout_complete [OF wf res] obtain n pt2 ww2 where
    n: "(splitStep E renderer fontId ^^ n)
         (applyParagraphIndent pt, calculateWordWidths renderer fontId (applyParagraphIndent pt)) (pt2, ww2)"
    and c: "concat (map tb_words blocks) = map dropSoft (words pt2)"
      "concat (map tb_wordStyles blocks) = wordStyles pt2"
    and e: "words ptF = []" "wordStyles ptF = []"
    by blast
  from splitSteps_splitInPlace [OF n]
  have sp: "(splitInPlace ^^ n) (words (applyParagraphIndent pt)) (words pt2)" by simp
  from splitsN_length [OF sp] have "length (words pt2) = length (words pt) + n" by simp
  with c(1) w have len: "length (concat (map tb_words blocks))
      = length (filter (\<lambda>ws. fst ws \<noteq> []) input) + n"
    by simp
  show "words pt = map fst (filter (\<lambda>ws. fst ws \<noteq> []) input)" by (rule w)
  show "wordStyles pt = map snd (filter (\<lambda>ws. fst ws \<noteq> []) input)" by (rule s)
  show "words ptF = []" "wordStyles ptF = []" by (rule e)+
  from n sp c len show "\<exists>n pt2 ww2.
           (splitStep E renderer fontId ^^ n)
              (applyParagraphIndent pt, calculateWordWidths renderer fontId (applyParagraphIndent pt))
              (pt2, ww2)
         \<and> (splitInPlace ^^ n) (words (applyParagraphIndent pt)) (words pt2)
         \<and> concat (map tb_words blocks) = map dropSoft (words pt2)
         \<and> concat (map tb_wordStyles blocks) = wordStyles pt2
         \<and> length (concat (map tb_words blocks)) = length (filter (\<lambda>ws. fst ws \<noteq> []) input) + n"
    by blast
next
  assume "extractLine breakIndex pageWidth spaceWidth wordWidths lineBreakIndices p = (block, p')"
  from extractLine_result [OF this]
  show "\<exists>k. tb_words block = map dropSoft (take k (words p)) \<and> words p' = drop k (words p)
             \<and> tb_wordStyles block = take k (wordStyles p) \<and> wordStyles p' = drop k (wordStyles p)"
    by (intro exI [of _ "lineBreakIndices ! breakIndex - lineStartOf lineBreakIndices breakIndex"]) simp
next
  assume h: "hyphenateWordAtIndex E renderer fontId wordIndex availableWidth allowFallbackBreaks p wordWidths
         = (ok, q, wordWidths') \<and> wordIndex < length wordWidths"
  show "if ok then splitInPlace (words p) (words q) else words q = words p \<and> wordStyles q = wordStyles p"
  proof (cases ok)
    case True
    with h have "wordIndex < length wordWidths"
      and "hyphenateWordAtIndex E renderer fontId wordIndex availableWidth allowFallbackBreaks p wordWidths
         = (True, q, wordWidths')"
      by simp_all
    then have "splitStep E renderer fontId (p, wordWidths) (q, wordWidths')"
      by (rule splitStepI)
    from splitStep_splitInPlace [OF this] True show ?thesis by simp
  next
    case False
    with h have "hyphenateWordAtIndex E renderer fontId wordIndex availableWidth allowFallbackBreaks p wordWidths
         = (False, q, wordWidths')"
      by simp
    from hyphenate_False [OF this] False show ?thesis by simp
  qed
qed

definition fedWords :: "(string \<times> Style) list" where
  "fedWords = [(''hello'', REGULAR), ([], BOLD), (''world'', BOLD)]"

theorem word_count_conservation_witness:
  "words (addWords fedWords (newParsedText JUSTIFIED True True)) = [''hello'', ''world'']
   \<and> concat (map tb_words (fst (layoutAndExtractLines refCommon monoRenderer 0 45 True
                                   (addWords fedWords (newParsedText JUSTIFIED True True)))))
       = [''hel-'', ''lo'', ''wor-'', ''ld'']
   \<and> (\<exists>n pt2 ww2.
         (splitStep refCommon monoRenderer 0 ^^ n)
            (applyParagraphIndent (addWords fedWords (newParsedText JUSTIFIED True True)),
             calculateWordWidths monoRenderer 0
               (applyParagraphIndent (addWords fedWords (newParsedText JUSTIFIED True True))))
            (pt2, ww2)
       \<and> map dropSoft (words pt2) = [''hel-'', ''lo'', ''wor-'', ''ld'']
       \<and> n = 2)
   \<and> words (snd (layoutAndExtractLines refCommon monoRenderer 0 45 True
                     (addWords fedWords (newParsedText JUSTIFIED True True)))) = []"
proof -
  let ?pt = "addWords fedWords (newParsedText JUSTIFIED True True)"
  let ?r = "layoutAndExtractLines refCommon monoRenderer 0 45 True ?pt"
  have w: "words ?pt = [''hello'', ''world'']"
    by code_simp
  have c: "concat (map tb_words (fst ?r)) = [''hel-'', ''lo'', ''wor-'', ''ld'']"
    by code_simp
  have f: "length (filter (\<lambda>ws. fst ws \<noteq> []) fedWords) = 2"
    by (simp add: fedWords_def)
  have "?pt = addWords fedWords (newParsedText JUSTIFIED True True) \<and> ?r = (fst ?r, snd ?r)"
    by simp
  with word_count_conservation [where pt = ?pt and input = fedWords and sty = JUSTIFIED
      and extraSpacing = True and hyphenation = True and E = refCommon and renderer = monoRenderer
      and fontId = 0 and viewportWidth = 45 and blocks = "fst ?r" and ptF = "snd ?r", THEN conjunct1]
  have r: "(\<exists>n pt2 ww2.
           (splitStep refCommon monoRenderer 0 ^^ n)
              (applyParagraphIndent ?pt, calculateWordWidths monoRenderer 0 (applyParagraphIndent ?pt))
              (pt2, ww2)
         \<and> (splitInPlace ^^ n) (words (applyParagraphIndent ?pt)) (words pt2)
         \<and> concat (map tb_words (fst ?r)) = map dropSoft (words pt2)
         \<and> concat (map tb_wordStyles (fst ?r)) = wordStyles pt2
         \<and> length (concat (map tb_words (fst ?r))) = length (filter (\<lambda>ws. fst ws \<noteq> []) fedWords) + n)"
    and e: "words (snd ?r) = []"
    by blast+
  then obtain n pt2 ww2 where
    n: "(splitStep refCommon monoRenderer 0 ^^ n)
              (applyParagraphIndent ?pt, calculateWordWidths monoRenderer 0 (applyParagraphIndent ?pt))
              (pt2, ww2)"
    and m: "concat (map tb_words (fst ?r)) = map dropSoft (words pt2)"
    and l: "length (concat (map tb_words (fst ?r))) = length (filter (\<lambda>ws. fst ws \<noteq> []) fedWords) + n"
    by blast
  from l have n2: "n = 2" unfolding c f by simp
  from m have d: "map dropSoft (words pt2) = [''hel-'', ''lo'', ''wor-'', ''ld'']"
    unfolding c by simp
  have x: "\<exists>n pt2 ww2.
         (splitStep refCommon monoRenderer 0 ^^ n)
            (applyParagraphIndent ?pt, calculateWordWidths monoRenderer 0 (applyParagraphIndent ?pt))
            (pt2, ww2)
       \<and> map dropSoft (words pt2) = [''hel-'', ''lo'', ''wor-'', ''ld'']
       \<and> n = 2"
    by (rule exI [of _ n], rule exI [of _ pt2], rule exI [of _ ww2], intro conjI) (rule n d n2)+
  show ?thesis
    by (intro conjI) (rule w c x e)+
qed

section \<open>The fit of the emitted lines\<close>

text \<open>The content width of an emitted block: the widths of its words, each as the
  \<^verbatim>\<open>uint16_t\<close> that \<^verbatim>\<open>measureWordWidth\<close> returns for the rendered word, plus one base space
  between two neighbours.\<close>

definition renderedWidth :: "GfxRenderer \<Rightarrow> int \<Rightarrow> string \<Rightarrow> Style \<Rightarrow> int" where
  "renderedWidth renderer fontId word sty =
     uint (word_of_int (getTextWidth renderer fontId word sty) :: 16 word)"

definition contentWidth :: "GfxRenderer \<Rightarrow> int \<Rightarrow> TextBlock \<Rightarrow> int" where
  "contentWidth renderer fontId block =
     sum_list (map (\<lambda>i. renderedWidth renderer fontId (tb_words block ! i) (tb_wordStyles block ! i))
                 [0 ..< length (tb_words block)])
     + (int (length (tb_words block)) - 1) * getSpaceWidth renderer fontId"

lemma sum_list_shift:
  "sum_list (map f [s ..< s + n]) = sum_list (map (\<lambda>i. f (s + i)) [0 ..< n])"
  by (induction n) simp_all

lemma lineBlock_contentWidth:
  assumes sync: "inSync pt ww" and ww: "ww = calculateWordWidths renderer fontId pt"
    and se: "lineStartOf bs j \<le> bs ! j" and e: "bs ! j \<le> length ww"
  shows "contentWidth renderer fontId (lineBlock pageWidth (getSpaceWidth renderer fontId) ww bs pt j)
           = lineLen (getSpaceWidth renderer fontId) ww (lineStartOf bs j) (bs ! j)"
proof -
  let ?s = "lineStartOf bs j" and ?e = "bs ! j"
  let ?b = "lineBlock pageWidth (getSpaceWidth renderer fontId) ww bs pt j"
  from sync e have lw: "?e \<le> length (words pt)" and ls: "?e \<le> length (wordStyles pt)"
    by (simp_all add: inSync_def)
  from lw se have len: "length (tb_words ?b) = ?e - ?s"
    by (simp add: lineBlock_words)
  have el: "renderedWidth renderer fontId (tb_words ?b ! i) (tb_wordStyles ?b ! i) = uint (ww ! (?s + i))"
    if "i < ?e - ?s" for i
  proof -
    from that lw ls have "tb_words ?b ! i = dropSoft (words pt ! (?s + i))"
      and "tb_wordStyles ?b ! i = wordStyles pt ! (?s + i)"
      by (simp_all add: lineBlock_words)
    moreover from that lw have "?s + i < length (words pt)" by simp
    then have "ww ! (?s + i)
        = measureWordWidth renderer fontId (words pt ! (?s + i)) (wordStyles pt ! (?s + i)) False"
      by (simp add: ww calculateWordWidths_def)
    ultimately show ?thesis
      by (simp add: renderedWidth_def measureWordWidth_dropSoft)
  qed
  have "sum_list (map (\<lambda>i. renderedWidth renderer fontId (tb_words ?b ! i) (tb_wordStyles ?b ! i))
                   [0 ..< ?e - ?s])
      = sum_list (map (\<lambda>i. uint (ww ! (?s + i))) [0 ..< ?e - ?s])"
    by (rule arg_cong [of _ _ sum_list], rule map_cong [OF refl]) (simp add: el)
  also have "\<dots> = sum_list (map (\<lambda>t. uint (ww ! t)) [?s ..< ?s + (?e - ?s)])"
    by (simp only: sum_list_shift)
  also from se have "?s + (?e - ?s) = ?e" by simp
  finally show ?thesis
    unfolding contentWidth_def len lineLen_def by simp
qed

text \<open>
  \<^bold>\<open>C4\<close> (line fit bound). On a buffer whose words and styles are in step, whichever
  breaker the paragraph uses and whether or not the last line is emitted, every block
  that \<^verbatim>\<open>layoutAndExtractLines\<close> emits has a content width (the widths of its words plus one
  base space between neighbours) of at most the viewport width, or it holds one single
  word that is wider than the viewport and that \<^verbatim>\<open>hyphenateWordAtIndex\<close>, fallback breaks
  allowed, cannot split: the width is not positive or no break candidate of the word has
  a prefix that fits. The bound holds for the final line as well.
\<close>

theorem line_fit_bound:
  "length (wordStyles pt) = length (words pt)
   \<and> layoutAndExtractLines E renderer fontId viewportWidth includeLastLine pt = (blocks, ptF)
   \<and> block \<in> set blocks
   \<longrightarrow> contentWidth renderer fontId block \<le> uint viewportWidth
     \<or> (\<exists>w s. tb_words block = [dropSoft w] \<and> tb_wordStyles block = [s]
            \<and> uint viewportWidth < contentWidth renderer fontId block
            \<and> uint viewportWidth < uint (measureWordWidth renderer fontId w s False)
            \<and> unsplittable E renderer fontId (uint viewportWidth) w s)"
proof (intro impI)
  assume a: "length (wordStyles pt) = length (words pt)
   \<and> layoutAndExtractLines E renderer fontId viewportWidth includeLastLine pt = (blocks, ptF)
   \<and> block \<in> set blocks"
  then have wf: "length (wordStyles pt) = length (words pt)"
    and res: "layoutAndExtractLines E renderer fontId viewportWidth includeLastLine pt = (blocks, ptF)"
    and mem: "block \<in> set blocks"
    by blast+
  let ?pw = "uint viewportWidth" and ?sw = "getSpaceWidth renderer fontId"
  have ne: "words pt \<noteq> []"
  proof
    assume "words pt = []"
    with res have "blocks = []" by (simp add: layoutAndExtractLines_def)
    with mem show False by simp
  qed
  obtain bs pt2 ww2 where
    "(if hyphenationEnabled pt
      then computeHyphenatedLineBreaks E renderer fontId (uint viewportWidth) (getSpaceWidth renderer fontId)
             (applyParagraphIndent pt) (calculateWordWidths renderer fontId (applyParagraphIndent pt))
      else computeLineBreaks E renderer fontId (uint viewportWidth) (getSpaceWidth renderer fontId)
             (applyParagraphIndent pt) (calculateWordWidths renderer fontId (applyParagraphIndent pt)))
       = (bs, pt2, ww2)"
    "(splitStep E renderer fontId)\<^sup>*\<^sup>*
        (applyParagraphIndent pt, calculateWordWidths renderer fontId (applyParagraphIndent pt)) (pt2, ww2)"
    and sync: "inSync pt2 ww2" and ww: "ww2 = calculateWordWidths renderer fontId pt2"
    and sorted: "sorted_wrt (<) (0 # bs)" and "bs \<noteq> []" and last: "last bs = length ww2"
    and ok: "\<forall>j < length bs. lineOK E renderer fontId (uint viewportWidth) (getSpaceWidth renderer fontId)
                        pt2 ww2 ((0 # bs) ! j) (bs ! j)"
    and blocks: "blocks = map (lineBlock (uint viewportWidth) (getSpaceWidth renderer fontId) ww2 bs pt2)
                [0 ..< (if includeLastLine then length bs else length bs - 1)]"
    and "ptF = pt2\<lparr>words := drop (lineStartOf bs (if includeLastLine then length bs else length bs - 1)) (words pt2),
                wordStyles := drop (lineStartOf bs (if includeLastLine then length bs else length bs - 1))
                                (wordStyles pt2)\<rparr>"
    by (rule layout_result [OF wf ne res])
  from mem blocks obtain j0 where "j0 < (if includeLastLine then length bs else length bs - 1)"
    and "block = lineBlock ?pw ?sw ww2 bs pt2 j0"
    by auto
  then have "j0 < length bs \<and> block = lineBlock ?pw ?sw ww2 bs pt2 j0"
    by (cases includeLastLine) simp_all
  then have "\<exists>j. j < length bs \<and> block = lineBlock ?pw ?sw ww2 bs pt2 j" ..
  then obtain j where j: "j < length bs" and b: "block = lineBlock ?pw ?sw ww2 bs pt2 j"
    by blast
  let ?s = "lineStartOf bs j" and ?e = "bs ! j"
  note st = sorted_breaks_start [OF sorted j]
  from st(2) have se: "?s \<le> ?e" by simp
  from st(3) last have e: "?e \<le> length ww2" by simp
  have cw: "contentWidth renderer fontId block = lineLen ?sw ww2 ?s ?e"
    unfolding b by (rule lineBlock_contentWidth [OF sync ww se e])
  from ok j st(1) have "lineOK E renderer fontId ?pw ?sw pt2 ww2 ?s ?e" by simp
  then consider (fits) "lineLen ?sw ww2 ?s ?e \<le> ?pw"
    | (forced) "?e = Suc ?s" "?pw < uint (ww2 ! ?s)"
        "unsplittable E renderer fontId ?pw (words pt2 ! ?s) (wordStyles pt2 ! ?s)"
    unfolding lineOK_def by blast
  then show "contentWidth renderer fontId block \<le> ?pw
     \<or> (\<exists>w s. tb_words block = [dropSoft w] \<and> tb_wordStyles block = [s]
            \<and> ?pw < contentWidth renderer fontId block
            \<and> ?pw < uint (measureWordWidth renderer fontId w s False)
            \<and> unsplittable E renderer fontId ?pw w s)"
  proof cases
    case fits
    with cw show ?thesis by simp
  next
    case forced
    from forced(1) e sync have sl: "?s < length (words pt2)" "?s < length (wordStyles pt2)"
      by (simp_all add: inSync_def)
    have one: "take (Suc 0) (drop n xs) = [xs ! n]" if "n < length xs" for n and xs :: "'a list"
      using that by (simp add: take_Suc_conv_app_nth)
    from forced(1) have d: "?e - ?s = Suc 0" by simp
    have w: "tb_words block = [dropSoft (words pt2 ! ?s)]"
      and s: "tb_wordStyles block = [wordStyles pt2 ! ?s]"
      unfolding b lineBlock_words d one [OF sl(1)] one [OF sl(2)] by simp_all
    from sl have m: "ww2 ! ?s = measureWordWidth renderer fontId (words pt2 ! ?s) (wordStyles pt2 ! ?s) False"
      by (simp add: ww calculateWordWidths_def)
    from cw forced(1) have "contentWidth renderer fontId block = uint (ww2 ! ?s)"
      by (simp add: lineLen_single)
    with forced(2,3) m have "?pw < contentWidth renderer fontId block"
      "?pw < uint (measureWordWidth renderer fontId (words pt2 ! ?s) (wordStyles pt2 ! ?s) False)"
      by simp_all
    with w s forced(3) show ?thesis by blast
  qed
qed

theorem line_fit_bound_witness:
  "length (fst (layoutAndExtractLines refCommon monoRenderer 0 15 False twoWords)) = 1
   \<and> tb_words (hd (fst (layoutAndExtractLines refCommon monoRenderer 0 15 False twoWords))) = [''hello'']
   \<and> contentWidth monoRenderer 0 (hd (fst (layoutAndExtractLines refCommon monoRenderer 0 15 False twoWords))) = 50
   \<and> (\<exists>w s. tb_words (hd (fst (layoutAndExtractLines refCommon monoRenderer 0 15 False twoWords)))
                = [dropSoft w]
            \<and> tb_wordStyles (hd (fst (layoutAndExtractLines refCommon monoRenderer 0 15 False twoWords))) = [s]
            \<and> uint (15 :: 16 word) < uint (measureWordWidth monoRenderer 0 w s False)
            \<and> unsplittable refCommon monoRenderer 0 (uint (15 :: 16 word)) w s)
   \<and> contentWidth monoRenderer 0 (hd (fst (layoutAndExtractLines refCommon monoRenderer 0 205 True justifiedSample)))
       = 110"
proof -
  let ?r = "layoutAndExtractLines refCommon monoRenderer 0 15 False twoWords"
  have l: "length (fst ?r) = 1" by code_simp
  have w: "tb_words (hd (fst ?r)) = [''hello'']" by code_simp
  have c: "contentWidth monoRenderer 0 (hd (fst ?r)) = 50" by code_simp
  have j: "contentWidth monoRenderer 0 (hd (fst (layoutAndExtractLines refCommon monoRenderer 0 205 True justifiedSample)))
       = 110" by code_simp
  from l have mem: "hd (fst ?r) \<in> set (fst ?r)" by (cases "fst ?r") simp_all
  have wf: "length (wordStyles twoWords) = length (words twoWords)" by (simp add: twoWords_def)
  have n: "\<not> contentWidth monoRenderer 0 (hd (fst ?r)) \<le> uint (15 :: 16 word)"
    unfolding c by simp
  have "?r = (fst ?r, snd ?r)" by simp
  with wf mem line_fit_bound [where pt = twoWords and E = refCommon and renderer = monoRenderer
      and fontId = 0 and viewportWidth = 15 and includeLastLine = False and blocks = "fst ?r"
      and ptF = "snd ?r" and block = "hd (fst ?r)"] n
  have x: "\<exists>w s. tb_words (hd (fst ?r)) = [dropSoft w] \<and> tb_wordStyles (hd (fst ?r)) = [s]
            \<and> uint (15 :: 16 word) < contentWidth monoRenderer 0 (hd (fst ?r))
            \<and> uint (15 :: 16 word) < uint (measureWordWidth monoRenderer 0 w s False)
            \<and> unsplittable refCommon monoRenderer 0 (uint (15 :: 16 word)) w s"
    by blast
  then have y: "\<exists>w s. tb_words (hd (fst ?r)) = [dropSoft w] \<and> tb_wordStyles (hd (fst ?r)) = [s]
            \<and> uint (15 :: 16 word) < uint (measureWordWidth monoRenderer 0 w s False)
            \<and> unsplittable refCommon monoRenderer 0 (uint (15 :: 16 word)) w s"
    by blast
  show ?thesis
    by (intro conjI) (rule l w c y j)+
qed

section \<open>Soft hyphens in the buffer and in the blocks\<close>

lemma hyphenate_at_marker:
  assumes h: "hyphenateWordAtIndex E renderer fontId i a fb pt ww = (True, pt', ww')"
    and cps: "cps = trimSurroundingPunctuationAndFootnote E (collectCodepoints E (words pt ! i))"
    and ex: "\<exists>m. 1 \<le> m \<and> m + 1 < length cps \<and> explicitMarkerAt E cps m"
  shows "\<exists>m. 1 \<le> m \<and> m + 1 < length cps \<and> explicitMarkerAt E cps m
          \<and> words pt' = take i (words pt)
               @ (take (cp_byteOffset (cps ! (m + 1))) (words pt ! i)
                    @ (if isSoftHyphen E (cp_value (cps ! m)) then [CHR ''-''] else []))
               # drop (cp_byteOffset (cps ! (m + 1))) (words pt ! i)
               # drop (Suc i) (words pt)
          \<and> wordStyles pt' = insertAt (Suc i) (wordStyles pt ! i) (wordStyles pt)"
proof -
  let ?w = "words pt ! i"
  from hyphenate_True [OF h] obtain info where
    mem: "info \<in> set (breakOffsets E ?w fb)" and i: "i < length (words pt)"
    and fit: "fittingBreak renderer fontId ?w (wordStyles pt ! i) a info"
    and pt': "pt' = pt\<lparr>words := insertAt (Suc i) (drop (byteOffset info) ?w)
                          ((words pt)[i := take (byteOffset info) ?w
                              @ (if requiresInsertedHyphen info then [CHR ''-''] else [])]),
                      wordStyles := insertAt (Suc i) (wordStyles pt ! i) (wordStyles pt)\<rparr>"
    by blast
  from fit have ne: "?w \<noteq> []" by (auto simp: fittingBreak_def)
  from ex have "buildExplicitBreakInfos E cps \<noteq> []"
    by (simp add: buildExplicitBreakInfos_nonempty)
  with ne have "breakOffsets E ?w fb = buildExplicitBreakInfos E cps"
    unfolding cps by (rule breakOffsets_explicit)
  with mem obtain m where m: "m \<in> set (filter (explicitMarkerAt E cps) [1 ..< length cps - 1])"
    and info: "info = \<lparr>byteOffset = cp_byteOffset (cps ! (m + 1)),
                       requiresInsertedHyphen = isSoftHyphen E (cp_value (cps ! m))\<rparr>"
    by (auto simp: buildExplicitBreakInfos_filter)
  from m have m1: "1 \<le> m" and m2: "m + 1 < length cps" and m3: "explicitMarkerAt E cps m"
    by auto
  from pt' have "words pt' = insertAt (Suc i) (drop (byteOffset info) ?w)
                          ((words pt)[i := take (byteOffset info) ?w
                              @ (if requiresInsertedHyphen info then [CHR ''-''] else [])])"
    and s: "wordStyles pt' = insertAt (Suc i) (wordStyles pt ! i) (wordStyles pt)"
    by simp_all
  then have "words pt' = take i (words pt)
               @ (take (cp_byteOffset (cps ! (m + 1))) ?w
                    @ (if isSoftHyphen E (cp_value (cps ! m)) then [CHR ''-''] else []))
               # drop (cp_byteOffset (cps ! (m + 1))) ?w
               # drop (Suc i) (words pt)"
    unfolding insertAt_update [OF i] info by simp
  with m1 m2 m3 s show ?thesis by blast
qed

lemma applyParagraphIndent_noDoubleLead:
  assumes "\<forall>w \<in> set (words pt). noDoubleLead w"
  shows "\<forall>w \<in> set (words (applyParagraphIndent pt)). noDoubleLead w"
proof (cases "words pt")
  case Nil
  then show ?thesis by (simp add: applyParagraphIndent_def)
next
  case (Cons w ws)
  with assms have w: "noDoubleLead w" and ws: "\<forall>v \<in> set ws. noDoubleLead v" by simp_all
  have "noDoubleLead (EM_SPACE @ w)"
    using w by (simp add: noDoubleLead_append) (simp add: EM_SPACE_def)
  with Cons w ws show ?thesis by (auto simp: applyParagraphIndent_def)
qed

lemma layout_no_soft_hyphen:
  assumes wf: "length (wordStyles pt) = length (words pt)"
    and clean: "\<forall>w \<in> set (words pt). noDoubleLead w"
    and res: "layoutAndExtractLines E renderer fontId viewportWidth includeLastLine pt = (blocks, ptF)"
    and block: "block \<in> set blocks" and w: "w \<in> set (tb_words block)"
  shows "\<not> containsSoftHyphen w"
proof -
  have ne: "words pt \<noteq> []"
  proof
    assume "words pt = []"
    with res have "blocks = []" by (simp add: layoutAndExtractLines_def)
    with block show False by simp
  qed
  obtain bs pt2 ww2 where
    "(if hyphenationEnabled pt
      then computeHyphenatedLineBreaks E renderer fontId (uint viewportWidth) (getSpaceWidth renderer fontId)
             (applyParagraphIndent pt) (calculateWordWidths renderer fontId (applyParagraphIndent pt))
      else computeLineBreaks E renderer fontId (uint viewportWidth) (getSpaceWidth renderer fontId)
             (applyParagraphIndent pt) (calculateWordWidths renderer fontId (applyParagraphIndent pt)))
       = (bs, pt2, ww2)"
    and splits: "(splitStep E renderer fontId)\<^sup>*\<^sup>*
        (applyParagraphIndent pt, calculateWordWidths renderer fontId (applyParagraphIndent pt)) (pt2, ww2)"
    and "inSync pt2 ww2" and "ww2 = calculateWordWidths renderer fontId pt2"
    and "sorted_wrt (<) (0 # bs)" and "bs \<noteq> []" and "last bs = length ww2"
    and "\<forall>j < length bs. lineOK E renderer fontId (uint viewportWidth) (getSpaceWidth renderer fontId)
                        pt2 ww2 ((0 # bs) ! j) (bs ! j)"
    and blocks: "blocks = map (lineBlock (uint viewportWidth) (getSpaceWidth renderer fontId) ww2 bs pt2)
                [0 ..< (if includeLastLine then length bs else length bs - 1)]"
    and "ptF = pt2\<lparr>words := drop (lineStartOf bs (if includeLastLine then length bs else length bs - 1)) (words pt2),
                wordStyles := drop (lineStartOf bs (if includeLastLine then length bs else length bs - 1))
                                (wordStyles pt2)\<rparr>"
    by (rule layout_result [OF wf ne res])
  from wf have "inSync (applyParagraphIndent pt) (calculateWordWidths renderer fontId (applyParagraphIndent pt))"
    by (intro inSync_calculate) simp
  from splits_keep [OF splits this] obtain n where
    "(splitInPlace ^^ n) (words (applyParagraphIndent pt)) (words pt2)" by blast
  from splitsN_noDoubleLead [OF this applyParagraphIndent_noDoubleLead [OF clean]]
  have c2: "\<forall>v \<in> set (words pt2). noDoubleLead v" .
  from block blocks obtain j where
    "block = lineBlock (uint viewportWidth) (getSpaceWidth renderer fontId) ww2 bs pt2 j"
    by auto
  with w obtain v where v: "v \<in> set (words pt2)" and wv: "w = dropSoft v"
    by (auto simp: lineBlock_words dest!: in_set_takeD in_set_dropD)
  from c2 v have "noDoubleLead v" by simp
  from dropSoft_clean [OF this] show ?thesis
    by (simp add: wv containsSoftHyphen_find)
qed

text \<open>A paragraph of the one word \<open>ab\<close>, soft hyphen, \<open>c-d\<close>, and one whose only word is the
  four bytes \<open>C2 C2 AD AD\<close>, which are not UTF-8.\<close>

definition softParagraph :: ParsedText where
  "softParagraph = \<lparr>words = [softWord], wordStyles = [BOLD], style = CENTER_ALIGN,
                     extraParagraphSpacing = True, hyphenationEnabled = True\<rparr>"

definition malformedParagraph :: ParsedText where
  "malformedParagraph = \<lparr>words = [[CHR 0xC2, CHR 0xC2, CHR 0xAD, CHR 0xAD]], wordStyles = [REGULAR],
                          style = CENTER_ALIGN, extraParagraphSpacing = True, hyphenationEnabled = False\<rparr>"

text \<open>
  The claim \<^bold>\<open>C8\<close> as stated fails. The word \<open>ab\<close>, soft hyphen, \<open>c-d\<close> holds a soft hyphen
  between the letters \<open>b\<close> and \<open>c\<close> (codepoint 2, the break after it is at byte 4) and a
  literal hyphen between \<open>c\<close> and \<open>d\<close>. With 45 pixels available, the prefix up to the literal
  hyphen (40 pixels) fits and is wider than the prefix up to the soft hyphen (30 pixels with
  its hyphen), so \<^verbatim>\<open>hyphenateWordAtIndex\<close> splits at byte 6, after the literal hyphen, and not
  at the soft hyphen: the prefix in the buffer still holds the soft hyphen, and the layout
  emits \<open>abc-\<close> and \<open>d\<close>. And a word whose bytes are not UTF-8, the four bytes \<open>C2 C2 AD AD\<close>,
  is emitted as \<open>C2 AD\<close>: erasing the marker in the middle brings the two outer bytes
  together, and the search goes on behind them.
\<close>

theorem split_at_literal_hyphen_of_soft_word:
  "explicitMarkerAt refCommon
      (trimSurroundingPunctuationAndFootnote refCommon (collectCodepoints refCommon softWord)) 2
   \<and> isSoftHyphen refCommon
        (cp_value (trimSurroundingPunctuationAndFootnote refCommon (collectCodepoints refCommon softWord) ! 2))
   \<and> cp_byteOffset (trimSurroundingPunctuationAndFootnote refCommon (collectCodepoints refCommon softWord) ! 3) = 4
   \<and> hyphenateWordAtIndex refCommon monoRenderer 0 0 45 False softParagraph [50]
       = (True,
          softParagraph\<lparr>words := [[CHR ''a'', CHR ''b'', CHR 0xC2, CHR 0xAD, CHR ''c'', CHR ''-''], ''d''],
                         wordStyles := [BOLD, BOLD]\<rparr>,
          [40, 10])
   \<and> take 6 softWord = [CHR ''a'', CHR ''b'', CHR 0xC2, CHR 0xAD, CHR ''c'', CHR ''-'']
   \<and> map tb_words (fst (layoutAndExtractLines refCommon monoRenderer 0 45 True softParagraph))
       = [[''abc-''], [''d'']]
   \<and> map tb_words (fst (layoutAndExtractLines refCommon monoRenderer 0 100 True malformedParagraph))
       = [[[CHR 0xC2, CHR 0xAD]]]
   \<and> containsSoftHyphen [CHR 0xC2, CHR 0xAD]"
  by code_simp

text \<open>
  \<^bold>\<open>C8\<close> (soft hyphens, as amended). A call of \<^verbatim>\<open>hyphenateWordAtIndex\<close> that returns true on
  a word whose trimmed codepoints hold an explicit hyphen marker (a soft or a literal
  hyphen) between two letters has split the word behind one of these markers, at the byte
  offset of the next codepoint: the buffer holds, at the place of the word, the bytes of
  the word up to there, followed by a literal hyphen exactly when that marker is a soft
  hyphen, and then the rest of the word unchanged, both with the style of the word. And
  when no word of the buffer has a byte \<open>C2\<close> directly followed by another \<open>C2\<close>, as in all
  UTF-8 text, no word of a block emitted by \<^verbatim>\<open>layoutAndExtractLines\<close> contains the soft-hyphen
  bytes \<open>C2 AD\<close>.
\<close>

theorem soft_hyphen_realization:
  "(hyphenateWordAtIndex E renderer fontId wordIndex availableWidth allowFallbackBreaks pt wordWidths
       = (True, pt', wordWidths')
     \<and> cps = trimSurroundingPunctuationAndFootnote E (collectCodepoints E (words pt ! wordIndex))
     \<and> (\<exists>m. 1 \<le> m \<and> m + 1 < length cps \<and> explicitMarkerAt E cps m)
    \<longrightarrow> (\<exists>m. 1 \<le> m \<and> m + 1 < length cps \<and> explicitMarkerAt E cps m
          \<and> words pt' = take wordIndex (words pt)
               @ (take (cp_byteOffset (cps ! (m + 1))) (words pt ! wordIndex)
                    @ (if isSoftHyphen E (cp_value (cps ! m)) then [CHR ''-''] else []))
               # drop (cp_byteOffset (cps ! (m + 1))) (words pt ! wordIndex)
               # drop (Suc wordIndex) (words pt)
          \<and> wordStyles pt' = insertAt (Suc wordIndex) (wordStyles pt ! wordIndex) (wordStyles pt)))
   \<and> (length (wordStyles par) = length (words par)
       \<and> (\<forall>w \<in> set (words par). noDoubleLead w)
       \<and> layoutAndExtractLines E renderer fontId viewportWidth includeLastLine par = (blocks, parF)
       \<and> block \<in> set blocks \<and> word \<in> set (tb_words block)
      \<longrightarrow> \<not> containsSoftHyphen word)"
proof (intro conjI impI)
  assume "hyphenateWordAtIndex E renderer fontId wordIndex availableWidth allowFallbackBreaks pt wordWidths
       = (True, pt', wordWidths')
     \<and> cps = trimSurroundingPunctuationAndFootnote E (collectCodepoints E (words pt ! wordIndex))
     \<and> (\<exists>m. 1 \<le> m \<and> m + 1 < length cps \<and> explicitMarkerAt E cps m)"
  then have h: "hyphenateWordAtIndex E renderer fontId wordIndex availableWidth allowFallbackBreaks pt wordWidths
       = (True, pt', wordWidths')"
    and c: "cps = trimSurroundingPunctuationAndFootnote E (collectCodepoints E (words pt ! wordIndex))"
    and m: "\<exists>m. 1 \<le> m \<and> m + 1 < length cps \<and> explicitMarkerAt E cps m"
    by blast+
  show "\<exists>m. 1 \<le> m \<and> m + 1 < length cps \<and> explicitMarkerAt E cps m
          \<and> words pt' = take wordIndex (words pt)
               @ (take (cp_byteOffset (cps ! (m + 1))) (words pt ! wordIndex)
                    @ (if isSoftHyphen E (cp_value (cps ! m)) then [CHR ''-''] else []))
               # drop (cp_byteOffset (cps ! (m + 1))) (words pt ! wordIndex)
               # drop (Suc wordIndex) (words pt)
          \<and> wordStyles pt' = insertAt (Suc wordIndex) (wordStyles pt ! wordIndex) (wordStyles pt)"
    by (rule hyphenate_at_marker [OF h c m])
next
  assume "length (wordStyles par) = length (words par)
       \<and> (\<forall>w \<in> set (words par). noDoubleLead w)
       \<and> layoutAndExtractLines E renderer fontId viewportWidth includeLastLine par = (blocks, parF)
       \<and> block \<in> set blocks \<and> word \<in> set (tb_words block)"
  then have wf: "length (wordStyles par) = length (words par)"
    and clean: "\<forall>w \<in> set (words par). noDoubleLead w"
    and res: "layoutAndExtractLines E renderer fontId viewportWidth includeLastLine par = (blocks, parF)"
    and mem: "block \<in> set blocks" "word \<in> set (tb_words block)"
    by blast+
  show "\<not> containsSoftHyphen word"
    by (rule layout_no_soft_hyphen [OF wf clean res mem])
qed

theorem soft_hyphen_realization_witness:
  "hyphenateWordAtIndex refCommon monoRenderer 0 0 35 False softParagraph [50]
       = (True,
          softParagraph\<lparr>words := [[CHR ''a'', CHR ''b'', CHR 0xC2, CHR 0xAD, CHR ''-''], ''c-d''],
                         wordStyles := [BOLD, BOLD]\<rparr>,
          [30, 30])
   \<and> (\<exists>m. 1 \<le> m
         \<and> explicitMarkerAt refCommon
               (trimSurroundingPunctuationAndFootnote refCommon (collectCodepoints refCommon softWord)) m
         \<and> [[CHR ''a'', CHR ''b'', CHR 0xC2, CHR 0xAD, CHR ''-''], ''c-d'']
             = [take (cp_byteOffset (trimSurroundingPunctuationAndFootnote refCommon
                                       (collectCodepoints refCommon softWord) ! (m + 1))) softWord
                  @ (if isSoftHyphen refCommon
                          (cp_value (trimSurroundingPunctuationAndFootnote refCommon
                                       (collectCodepoints refCommon softWord) ! m))
                     then [CHR ''-''] else []),
                drop (cp_byteOffset (trimSurroundingPunctuationAndFootnote refCommon
                                       (collectCodepoints refCommon softWord) ! (m + 1))) softWord])
   \<and> map tb_words (fst (layoutAndExtractLines refCommon monoRenderer 0 35 True softParagraph))
       = [[''ab-''], [''c-d'']]
   \<and> \<not> containsSoftHyphen ''ab-''"
proof -
  let ?cps = "trimSurroundingPunctuationAndFootnote refCommon (collectCodepoints refCommon softWord)"
  let ?pt' = "softParagraph\<lparr>words := [[CHR ''a'', CHR ''b'', CHR 0xC2, CHR 0xAD, CHR ''-''], ''c-d''],
                         wordStyles := [BOLD, BOLD]\<rparr>"
  let ?r = "layoutAndExtractLines refCommon monoRenderer 0 35 True softParagraph"
  have h: "hyphenateWordAtIndex refCommon monoRenderer 0 0 35 False softParagraph [50]
       = (True, ?pt', [30, 30])"
    by code_simp
  have w0: "words softParagraph ! 0 = softWord" "words softParagraph = [softWord]"
    "length (wordStyles softParagraph) = length (words softParagraph)"
    by (simp_all add: softParagraph_def)
  have c: "?cps = trimSurroundingPunctuationAndFootnote refCommon
                    (collectCodepoints refCommon (words softParagraph ! 0))"
    by (simp only: w0(1))
  have "explicitMarkerAt refCommon ?cps 2" by code_simp
  moreover have "length ?cps = 6" by (simp add: softWord_cps)
  ultimately have m: "\<exists>m. 1 \<le> m \<and> m + 1 < length ?cps \<and> explicitMarkerAt refCommon ?cps m"
    by (intro exI [of _ 2]) simp
  have b: "map tb_words (fst ?r) = [[''ab-''], [''c-d'']]"
    by code_simp
  then have mem: "hd (fst ?r) \<in> set (fst ?r)" "''ab-'' \<in> set (tb_words (hd (fst ?r)))"
    by (cases "fst ?r"; simp)+
  have clean: "\<forall>w \<in> set (words softParagraph). noDoubleLead w"
    by (simp add: w0 softWord_def)
  have r: "?r = (fst ?r, snd ?r)" by simp
  note inst = soft_hyphen_realization [where E = refCommon and renderer = monoRenderer and fontId = 0
      and wordIndex = 0 and availableWidth = 35 and allowFallbackBreaks = False and pt = softParagraph
      and wordWidths = "[50]" and pt' = ?pt' and wordWidths' = "[30, 30]" and cps = ?cps
      and par = softParagraph and viewportWidth = 35 and includeLastLine = True
      and blocks = "fst ?r" and parF = "snd ?r" and block = "hd (fst ?r)" and word = "''ab-''"]
  from inst h c m have "\<exists>m. 1 \<le> m \<and> m + 1 < length ?cps \<and> explicitMarkerAt refCommon ?cps m
          \<and> words ?pt' = take 0 (words softParagraph)
               @ (take (cp_byteOffset (?cps ! (m + 1))) (words softParagraph ! 0)
                    @ (if isSoftHyphen refCommon (cp_value (?cps ! m)) then [CHR ''-''] else []))
               # drop (cp_byteOffset (?cps ! (m + 1))) (words softParagraph ! 0)
               # drop (Suc 0) (words softParagraph)
          \<and> wordStyles ?pt' = insertAt (Suc 0) (wordStyles softParagraph ! 0) (wordStyles softParagraph)"
    by blast
  then obtain m where m1: "1 \<le> m" and m3: "explicitMarkerAt refCommon ?cps m"
    and ws: "words ?pt' = take 0 (words softParagraph)
               @ (take (cp_byteOffset (?cps ! (m + 1))) (words softParagraph ! 0)
                    @ (if isSoftHyphen refCommon (cp_value (?cps ! m)) then [CHR ''-''] else []))
               # drop (cp_byteOffset (?cps ! (m + 1))) (words softParagraph ! 0)
               # drop (Suc 0) (words softParagraph)"
    by blast
  from ws have "[[CHR ''a'', CHR ''b'', CHR 0xC2, CHR 0xAD, CHR ''-''], ''c-d'']
             = [take (cp_byteOffset (?cps ! (m + 1))) softWord
                  @ (if isSoftHyphen refCommon (cp_value (?cps ! m)) then [CHR ''-''] else []),
                drop (cp_byteOffset (?cps ! (m + 1))) softWord]"
    unfolding w0(1) by (simp add: w0(2))
  with m1 m3 have x: "\<exists>m. 1 \<le> m \<and> explicitMarkerAt refCommon ?cps m
         \<and> [[CHR ''a'', CHR ''b'', CHR 0xC2, CHR 0xAD, CHR ''-''], ''c-d'']
             = [take (cp_byteOffset (?cps ! (m + 1))) softWord
                  @ (if isSoftHyphen refCommon (cp_value (?cps ! m)) then [CHR ''-''] else []),
                drop (cp_byteOffset (?cps ! (m + 1))) softWord]"
    by (intro exI [of _ m] conjI)
  from inst w0(3) clean r mem have n: "\<not> containsSoftHyphen ''ab-''"
    by blast
  show ?thesis
    by (intro conjI) (rule h x b n)+
qed

section \<open>Layout of the buffer that a first pass leaves\<close>

text \<open>The buffer after its first \<open>s\<close> words have been consumed.\<close>

definition consumed :: "nat \<Rightarrow> ParsedText \<Rightarrow> ParsedText" where
  "consumed s pt = pt\<lparr>words := drop s (words pt), wordStyles := drop s (wordStyles pt)\<rparr>"

lemma consumed_fields [simp]:
  "words (consumed s pt) = drop s (words pt)"
  "wordStyles (consumed s pt) = drop s (wordStyles pt)"
  "style (consumed s pt) = style pt"
  "extraParagraphSpacing (consumed s pt) = extraParagraphSpacing pt"
  "hyphenationEnabled (consumed s pt) = hyphenationEnabled pt"
  by (simp_all add: consumed_def)

lemma drop_insertAt_update:
  assumes "s \<le> i" and "i < length xs"
  shows "drop s (insertAt (Suc i) r (xs[i := p])) = insertAt (Suc (i - s)) r ((drop s xs)[i - s := p])"
proof -
  from assms have "i - s < length (drop s xs)" by simp
  from insertAt_update [OF this, of r p] assms
  have "insertAt (Suc (i - s)) r ((drop s xs)[i - s := p])
      = take (i - s) (drop s xs) @ p # r # drop (Suc i) xs"
    by simp
  moreover from assms have "drop s (take i xs @ p # r # drop (Suc i) xs)
      = take (i - s) (drop s xs) @ p # r # drop (Suc i) xs"
    by (simp add: drop_take)
  ultimately show ?thesis
    unfolding insertAt_update [OF assms(2)] by simp
qed

text \<open>A split of the word at \<open>i\<close> does not look at the words before it: in the buffer
  without its first \<open>s \<le> i\<close> words it is the same split, at \<open>i - s\<close>.\<close>

lemma hyphenate_shift:
  assumes "s \<le> i" and "inSync pt ww"
    and "hyphenateWordAtIndex E renderer fontId i a fb pt ww = (ok, pt', ww')"
  shows "hyphenateWordAtIndex E renderer fontId (i - s) a fb (consumed s pt) (drop s ww)
           = (ok, consumed s pt', drop s ww')"
proof (cases "a \<le> 0 \<or> length (words pt) \<le> i")
  case True
  with assms(3) have "ok = False" "pt' = pt" "ww' = ww"
    by (auto simp: hyphenateWordAtIndex_def)
  moreover from True assms(1) have "a \<le> 0 \<or> length (words (consumed s pt)) \<le> i - s"
    by auto
  ultimately show ?thesis
    by (simp add: hyphenateWordAtIndex_def)
next
  case False
  with assms(2) have i: "i < length (words pt)" "i < length (wordStyles pt)" "i < length ww"
    by (simp_all add: inSync_def)
  from i assms(1) have w: "drop s (words pt) ! (i - s) = words pt ! i"
    and st: "drop s (wordStyles pt) ! (i - s) = wordStyles pt ! i"
    by simp_all
  from False assms(1) i have F: "\<not> (a \<le> 0 \<or> length (words (consumed s pt)) \<le> i - s)"
    by auto
  have upd: "consumed s (pt\<lparr>words := insertAt (Suc i) r ((words pt)[i := p]),
                            wordStyles := insertAt (Suc i) t (wordStyles pt)\<rparr>)
      = (consumed s pt)\<lparr>words := insertAt (Suc (i - s)) r ((drop s (words pt))[i - s := p]),
                         wordStyles := insertAt (Suc (i - s)) t (drop s (wordStyles pt))\<rparr>" for r p t
  proof -
    have "(drop s (wordStyles pt))[i - s := wordStyles pt ! i] = drop s (wordStyles pt)"
      using st list_update_id [of "drop s (wordStyles pt)" "i - s"] by simp
    then have "drop s (insertAt (Suc i) t (wordStyles pt)) = insertAt (Suc (i - s)) t (drop s (wordStyles pt))"
      using drop_insertAt_update [OF assms(1) i(2), of t "wordStyles pt ! i"] by simp
    then show ?thesis
      by (simp add: consumed_def drop_insertAt_update [OF assms(1) i(1)])
  qed
  have updw: "drop s (insertAt (Suc i) r (ww[i := p]))
      = insertAt (Suc (i - s)) r ((drop s ww)[i - s := p])" for r p
    by (rule drop_insertAt_update [OF assms(1) i(3)])
  from assms(3) show ?thesis
    unfolding hyphenateWordAtIndex_def [of E renderer fontId "i - s"]
      hyphenateWordAtIndex_def [of E renderer fontId i] if_not_P [OF F] if_not_P [OF False]
    by (auto simp: Let_def w st upd updw split: if_splits prod.splits)
qed

lemma consumed_inSync: "inSync pt ww \<Longrightarrow> inSync (consumed s pt) (drop s ww)"
  by (simp add: inSync_def)

lemma fillLine_shift:
  assumes "fillLine E renderer fontId pageWidth spaceWidth lineStart lineWidth k pt ww = (k', pt', ww')"
    and "s \<le> lineStart" and "lineStart \<le> k" and "inSync pt ww"
  shows "fillLine E renderer fontId pageWidth spaceWidth (lineStart - s) lineWidth (k - s)
           (consumed s pt) (drop s ww) = (k' - s, consumed s pt', drop s ww')"
  using assms
proof (induction E renderer fontId pageWidth spaceWidth lineStart lineWidth k pt ww
       rule: fillLine.induct)
  case (1 E renderer fontId pageWidth spaceWidth lineStart lineWidth k pt ww)
  note eq = "1.prems"(1) and s = "1.prems"(2) and le = "1.prems"(3) and sync = "1.prems"(4)
  from s le have sk: "s \<le> k" by simp
  have first: "(k - s = lineStart - s) = (k = lineStart)" using s le by auto
  show ?case
  proof (cases "k < length ww")
    case False
    with eq have "k' = k" "pt' = pt" "ww' = ww" by (simp_all add: fillLine_done)
    moreover from False have "\<not> k - s < length (drop s ww)" by simp
    ultimately show ?thesis by (simp add: fillLine_done)
  next
    case True
    with sk have ks: "k - s < length (drop s ww)" and nth: "drop s ww ! (k - s) = ww ! k"
      by simp_all
    let ?cand = "(if k = lineStart then 0 else spaceWidth) + uint (ww ! k)"
    show ?thesis
    proof (cases "lineWidth + ?cand \<le> pageWidth")
      case fits: True
      from eq have "fillLine E renderer fontId pageWidth spaceWidth lineStart (lineWidth + ?cand) (Suc k) pt ww
          = (k', pt', ww')"
        unfolding fillLine_fits [OF True fits] .
      from "1.IH"(1) [OF True refl refl refl fits this s _ sync] le
      have "fillLine E renderer fontId pageWidth spaceWidth (lineStart - s) (lineWidth + ?cand) (Suc k - s)
              (consumed s pt) (drop s ww) = (k' - s, consumed s pt', drop s ww')"
        by simp
      moreover from sk have "Suc k - s = Suc (k - s)" by simp
      moreover have fits': "lineWidth + ((if k - s = lineStart - s then 0 else spaceWidth)
                       + uint (drop s ww ! (k - s))) \<le> pageWidth"
        using fits by (simp add: first nth)
      ultimately show ?thesis
        unfolding fillLine_fits [OF ks fits'] by (simp add: first nth)
    next
      case over: False
      let ?a = "pageWidth - lineWidth - (if k = lineStart then 0 else spaceWidth)"
      obtain split pt1 ww1 where h: "(if 0 < ?a
          then hyphenateWordAtIndex E renderer fontId k ?a (k = lineStart) pt ww
          else (False, pt, ww)) = (split, pt1, ww1)"
        by (metis prod_cases3)
      from eq have r: "(k', pt', ww') = (if split \<or> k = lineStart then (Suc k, pt1, ww1) else (k, pt1, ww1))"
        unfolding fillLine_overflow [OF True over h] by simp
      have h': "(if 0 < pageWidth - lineWidth - (if k - s = lineStart - s then 0 else spaceWidth)
          then hyphenateWordAtIndex E renderer fontId (k - s)
                 (pageWidth - lineWidth - (if k - s = lineStart - s then 0 else spaceWidth))
                 (k - s = lineStart - s) (consumed s pt) (drop s ww)
          else (False, consumed s pt, drop s ww)) = (split, consumed s pt1, drop s ww1)"
      proof (cases "0 < ?a")
        case True
        with h have "hyphenateWordAtIndex E renderer fontId k ?a (k = lineStart) pt ww = (split, pt1, ww1)"
          by simp
        from hyphenate_shift [OF sk sync this] True show ?thesis by (simp add: first)
      next
        case False
        with h show ?thesis by (auto simp: first)
      qed
      have over': "\<not> lineWidth + ((if k - s = lineStart - s then 0 else spaceWidth)
                       + uint (drop s ww ! (k - s))) \<le> pageWidth"
        using over by (simp add: first nth)
      from sk have "Suc k - s = Suc (k - s)" by simp
      with r show ?thesis
        unfolding fillLine_overflow [OF ks over' h'] by (auto simp: first)
    qed
  qed
qed

lemma lineStartOf_last: "bs \<noteq> [] \<Longrightarrow> lineStartOf bs (length bs - 1) = last (0 # butlast bs)"
  by (cases bs rule: rev_cases)
     (auto simp: lineStartOf_def nth_append last_conv_nth butlast_append)

text \<open>The greedy breaker on the buffer as it is when only the last line has not been
  consumed: no split, and the one line that was withheld.\<close>

lemma computeHyphenatedLineBreaks_suffix:
  assumes "computeHyphenatedLineBreaks E renderer fontId pageWidth spaceWidth pt ww = (bs, pt', ww')"
    and "inSync pt ww" and "words pt \<noteq> []"
  shows "computeHyphenatedLineBreaks E renderer fontId pageWidth spaceWidth
           (consumed (lineStartOf bs (length bs - 1)) pt') (drop (lineStartOf bs (length bs - 1)) ww')
       = ([length ww' - lineStartOf bs (length bs - 1)],
          consumed (lineStartOf bs (length bs - 1)) pt', drop (lineStartOf bs (length bs - 1)) ww')"
proof -
  let ?s = "lineStartOf bs (length bs - 1)"
  from assms(2,3) have ne: "0 < length ww" by (simp add: inSync_def)
  from assms(1) have "hyphenatedLoop E renderer fontId pageWidth spaceWidth 0 pt ww [] = (bs, pt', ww')"
    by (simp add: computeHyphenatedLineBreaks_def)
  from hyphenatedLoop_lines [OF this assms(2)] ne obtain new where
    bs: "bs = new" and sorted: "sorted_wrt (<) (0 # new)" and nn: "new \<noteq> []"
    and last: "last new = length ww'"
    and fixp: "fillLine E renderer fontId pageWidth spaceWidth (last (0 # butlast new)) 0
              (last (0 # butlast new)) pt' ww' = (length ww', pt', ww')"
    by auto
  have s: "?s = last (0 # butlast new)" unfolding bs by (rule lineStartOf_last [OF nn])
  from splits_keep [OF computeHyphenatedLineBreaks_splits [OF assms(1)] assms(2)]
  have sync': "inSync pt' ww'" by blast
  from nn bs have "length bs - 1 < length bs" by (cases bs) simp_all
  from sorted_breaks_start(2,3) [OF _ this] sorted bs last
  have lt: "?s < length ww'" by (simp add: last_conv_nth)
  from fillLine_shift [OF fixp [folded s] le_refl le_refl sync']
  have f: "fillLine E renderer fontId pageWidth spaceWidth 0 0 0 (consumed ?s pt') (drop ?s ww')
      = (length ww' - ?s, consumed ?s pt', drop ?s ww')"
    by simp
  from lt have c: "0 < length (drop ?s ww')" by simp
  have d: "\<not> length ww' - ?s < length (drop ?s ww')" by simp
  show ?thesis
    unfolding computeHyphenatedLineBreaks_def hyphenatedLoop_step [OF c f] hyphenatedLoop_done [OF d]
    by simp
qed

section \<open>The tables of a suffix\<close>

text \<open>The round for \<open>i\<close> writes the entries for \<open>i\<close> only and reads those behind \<open>i\<close>: the
  tables for the words from \<open>s\<close> on are the entries from \<open>s\<close> on of the tables for all the
  words, with \<open>ans\<close> counted from \<open>s\<close>.\<close>

lemma dpInner_frame:
  "dpInner pageWidth spaceWidth ww n i j currlen tabs = tabs'
     \<Longrightarrow> length (fst tabs') = length (fst tabs) \<and> length (snd tabs') = length (snd tabs)
       \<and> (\<forall>t. t \<noteq> i \<longrightarrow> fst tabs' ! t = fst tabs ! t \<and> snd tabs' ! t = snd tabs ! t)"
proof (induction "n - j" arbitrary: j currlen tabs)
  case 0
  then have "\<not> j < n" by simp
  with "0.prems" show ?case by (cases tabs) (simp add: dpInner_done)
next
  case (Suc d)
  obtain dp ans where tabs: "tabs = (dp, ans)" by (cases tabs)
  from Suc.hyps(2) have j: "j < n" by simp
  let ?cl = "currlen + uint (ww ! j) + spaceWidth"
  show ?case
  proof (cases "pageWidth < ?cl")
    case True
    with Suc.prems j show ?thesis by (simp add: tabs dpInner_over)
  next
    case False
    define cost where "cost = (if j = n - 1 then 0
                 else lineCost (word_of_int (pageWidth - ?cl)) (dp ! (j + 1)))"
    let ?next = "if cost <s dp ! i then (dp[i := cost], ans[i := j]) else (dp, ans)"
    from Suc.prems have "dpInner pageWidth spaceWidth ww n i (Suc j) ?cl ?next = tabs'"
      unfolding tabs dpInner_step [OF j False cost_def] .
    from Suc.hyps(1) [OF _ this] Suc.hyps(2)
    have "length (fst tabs') = length (fst ?next) \<and> length (snd tabs') = length (snd ?next)
       \<and> (\<forall>t. t \<noteq> i \<longrightarrow> fst tabs' ! t = fst ?next ! t \<and> snd tabs' ! t = snd ?next ! t)"
      by simp
    then show ?thesis by (auto simp: tabs)
  qed
qed

lemma dpInner_shift:
  assumes "i \<le> j" and "i < n'"
    and "length dp = s + n'" "length ans = s + n'" "length dp' = n'" "length ans' = n'"
    and "\<forall>t. i < t \<and> t < n' \<longrightarrow> dp' ! t = dp ! (s + t)"
    and "dp' ! i = dp ! (s + i)"
    and "dp ! (s + i) \<noteq> MAX_COST \<longrightarrow> ans' ! i + s = ans ! (s + i)"
    and "\<forall>t < n'. ww' ! t = ww ! (s + t)"
  shows "fst (dpInner pageWidth spaceWidth ww' n' i j currlen (dp', ans')) ! i
           = fst (dpInner pageWidth spaceWidth ww (s + n') (s + i) (s + j) currlen (dp, ans)) ! (s + i)
       \<and> (fst (dpInner pageWidth spaceWidth ww (s + n') (s + i) (s + j) currlen (dp, ans)) ! (s + i) \<noteq> MAX_COST
            \<longrightarrow> snd (dpInner pageWidth spaceWidth ww' n' i j currlen (dp', ans')) ! i + s
                = snd (dpInner pageWidth spaceWidth ww (s + n') (s + i) (s + j) currlen (dp, ans)) ! (s + i))"
  using assms
proof (induction "n' - j" arbitrary: j currlen dp ans dp' ans')
  case 0
  then have "\<not> j < n'" "\<not> s + j < s + n'" by simp_all
  with "0.prems" show ?case by (simp add: dpInner_done)
next
  case (Suc d)
  note ij = Suc.prems(1) and i = Suc.prems(2) and len = Suc.prems(3-6)
    and later = Suc.prems(7) and cur = Suc.prems(8) and cura = Suc.prems(9) and w = Suc.prems(10)
  from Suc.hyps(2) have j: "j < n'" and sj: "s + j < s + n'" by simp_all
  from w j have wj: "ww' ! j = ww ! (s + j)" by simp
  let ?cl = "currlen + uint (ww ! (s + j)) + spaceWidth"
  show ?case
  proof (cases "pageWidth < ?cl")
    case True
    then have "pageWidth < currlen + uint (ww' ! j) + spaceWidth" by (simp add: wj)
    from dpInner_over [OF j this] dpInner_over [OF sj True] cur cura show ?thesis by simp
  next
    case False
    then have F': "\<not> pageWidth < currlen + uint (ww' ! j) + spaceWidth" by (simp add: wj)
    define cost where "cost = (if s + j = s + n' - 1 then 0
                 else lineCost (word_of_int (pageWidth - ?cl)) (dp ! (s + j + 1)))"
    have cost': "cost = (if j = n' - 1 then 0
                 else lineCost (word_of_int (pageWidth - (currlen + uint (ww' ! j) + spaceWidth)))
                        (dp' ! (j + 1)))"
    proof (cases "j = n' - 1")
      case True
      with j show ?thesis by (simp add: cost_def)
    next
      case False
      with j ij have "i < j + 1" "j + 1 < n'" by simp_all
      with later have "dp' ! (j + 1) = dp ! (s + (j + 1))" by blast
      then have d: "dp' ! (j + 1) = dp ! (s + j + 1)" by (simp only: add.assoc)
      from False j have ne: "s + j \<noteq> s + n' - 1" by arith
      show ?thesis
        unfolding cost_def wj d by (simp only: ne False if_False)
    qed
    let ?next = "if cost <s dp ! (s + i) then (dp[s + i := cost], ans[s + i := s + j]) else (dp, ans)"
    let ?next' = "if cost <s dp' ! i then (dp'[i := cost], ans'[i := j]) else (dp', ans')"
    have e: "dpInner pageWidth spaceWidth ww (s + n') (s + i) (s + j) currlen (dp, ans)
        = dpInner pageWidth spaceWidth ww (s + n') (s + i) (s + Suc j) ?cl ?next"
      unfolding dpInner_step [OF sj False cost_def] by simp
    have e': "dpInner pageWidth spaceWidth ww' n' i j currlen (dp', ans')
        = dpInner pageWidth spaceWidth ww' n' i (Suc j) ?cl ?next'"
      unfolding dpInner_step [OF j F' cost'] by (simp add: wj)
    have IH: "fst (dpInner pageWidth spaceWidth ww' n' i (Suc j) ?cl (fst ?next', snd ?next')) ! i
           = fst (dpInner pageWidth spaceWidth ww (s + n') (s + i) (s + Suc j) ?cl (fst ?next, snd ?next)) ! (s + i)
       \<and> (fst (dpInner pageWidth spaceWidth ww (s + n') (s + i) (s + Suc j) ?cl (fst ?next, snd ?next)) ! (s + i)
              \<noteq> MAX_COST
            \<longrightarrow> snd (dpInner pageWidth spaceWidth ww' n' i (Suc j) ?cl (fst ?next', snd ?next')) ! i + s
                = snd (dpInner pageWidth spaceWidth ww (s + n') (s + i) (s + Suc j) ?cl (fst ?next, snd ?next))
                    ! (s + i))"
    proof (rule Suc.hyps(1))
      from Suc.hyps(2) show "d = n' - Suc j" by simp
      from ij show "i \<le> Suc j" by simp
      show "i < n'" by (rule i)
      from len show "length (fst ?next) = s + n'" "length (snd ?next) = s + n'"
        "length (fst ?next') = n'" "length (snd ?next') = n'"
        by simp_all
      from later show "\<forall>t. i < t \<and> t < n' \<longrightarrow> fst ?next' ! t = fst ?next ! (s + t)"
        by simp
      from cur len i show "fst ?next' ! i = fst ?next ! (s + i)" by simp
      from cur cura len i show "fst ?next ! (s + i) \<noteq> MAX_COST \<longrightarrow> snd ?next' ! i + s = snd ?next ! (s + i)"
        by simp
      show "\<forall>t < n'. ww' ! t = ww ! (s + t)" by (rule w)
    qed
    then show ?thesis
      unfolding e e' by simp
  qed
qed

definition suffixTabs ::
  "nat \<Rightarrow> nat \<Rightarrow> nat \<Rightarrow> 32 word list \<times> nat list \<Rightarrow> 32 word list \<times> nat list \<Rightarrow> bool" where
  "suffixTabs s n' k tabs tabs' \<longleftrightarrow>
     length (fst tabs) = s + n' \<and> length (snd tabs) = s + n'
     \<and> length (fst tabs') = n' \<and> length (snd tabs') = n'
     \<and> (\<forall>t. k \<le> t \<and> t < n'
            \<longrightarrow> fst tabs' ! t = fst tabs ! (s + t) \<and> snd tabs' ! t + s = snd tabs ! (s + t))"

lemma dpRound_eq:
  "dpRound pageWidth spaceWidth ww n i (dp, ans)
     = (let r = dpInner pageWidth spaceWidth ww n i i (- spaceWidth) (dp[i := MAX_COST], ans)
        in if fst r ! i = MAX_COST
           then ((fst r)[i := (if i + 1 < n then fst r ! (i + 1) else 0)], (snd r)[i := i])
           else r)"
  by (simp add: dpRound_def Let_def split: prod.splits)

lemma dpRound_shift:
  assumes rel: "suffixTabs s n' (Suc i) tabs tabs'" and i: "i < n'"
    and w: "\<forall>t < n'. ww' ! t = ww ! (s + t)"
  shows "suffixTabs s n' i (dpRound pageWidth spaceWidth ww (s + n') (s + i) tabs)
           (dpRound pageWidth spaceWidth ww' n' i tabs')"
proof -
  obtain dp ans where tabs: "tabs = (dp, ans)" by (cases tabs)
  obtain dp' ans' where tabs': "tabs' = (dp', ans')" by (cases tabs')
  from rel have len: "length dp = s + n'" "length ans = s + n'" "length dp' = n'" "length ans' = n'"
    and later: "\<And>t. i < t \<Longrightarrow> t < n' \<Longrightarrow> dp' ! t = dp ! (s + t) \<and> ans' ! t + s = ans ! (s + t)"
    by (simp_all add: suffixTabs_def tabs tabs')
  define r where "r = dpInner pageWidth spaceWidth ww (s + n') (s + i) (s + i) (- spaceWidth)
                        (dp[s + i := MAX_COST], ans)"
  define r' where "r' = dpInner pageWidth spaceWidth ww' n' i i (- spaceWidth) (dp'[i := MAX_COST], ans')"
  from dpInner_frame [OF r_def [symmetric]] len
  have fr: "length (fst r) = s + n'" "length (snd r) = s + n'"
    "\<And>t. t \<noteq> s + i \<Longrightarrow> fst r ! t = dp ! t \<and> snd r ! t = ans ! t"
    by simp_all
  from dpInner_frame [OF r'_def [symmetric]] len
  have fr': "length (fst r') = n'" "length (snd r') = n'"
    "\<And>t. t \<noteq> i \<Longrightarrow> fst r' ! t = dp' ! t \<and> snd r' ! t = ans' ! t"
    by simp_all
  have "fst r' ! i = fst r ! (s + i)
       \<and> (fst r ! (s + i) \<noteq> MAX_COST \<longrightarrow> snd r' ! i + s = snd r ! (s + i))"
    unfolding r_def r'_def
  proof (rule dpInner_shift [OF le_refl i])
    from len show "length (dp[s + i := MAX_COST]) = s + n'" "length ans = s + n'"
      "length (dp'[i := MAX_COST]) = n'" "length ans' = n'"
      by simp_all
    from later show "\<forall>t. i < t \<and> t < n' \<longrightarrow> dp'[i := MAX_COST] ! t = dp[s + i := MAX_COST] ! (s + t)"
      by simp
    from len i show "dp'[i := MAX_COST] ! i = dp[s + i := MAX_COST] ! (s + i)" by simp
    from len i show "dp[s + i := MAX_COST] ! (s + i) \<noteq> MAX_COST \<longrightarrow> ans' ! i + s = ans ! (s + i)"
      by simp
    show "\<forall>t < n'. ww' ! t = ww ! (s + t)" by (rule w)
  qed
  then have cur: "fst r' ! i = fst r ! (s + i)"
    and cura: "fst r ! (s + i) \<noteq> MAX_COST \<Longrightarrow> snd r' ! i + s = snd r ! (s + i)"
    by simp_all
  have behind: "fst r' ! t = fst r ! (s + t) \<and> snd r' ! t + s = snd r ! (s + t)" if "i < t" "t < n'" for t
    using that later [OF that] fr(3) [of "s + t"] fr'(3) [of t] by simp
  have R: "dpRound pageWidth spaceWidth ww (s + n') (s + i) tabs
      = (if fst r ! (s + i) = MAX_COST
         then ((fst r)[s + i := (if s + i + 1 < s + n' then fst r ! (s + i + 1) else 0)], (snd r)[s + i := s + i])
         else r)"
    by (simp add: tabs dpRound_eq r_def Let_def)
  have R': "dpRound pageWidth spaceWidth ww' n' i tabs'
      = (if fst r' ! i = MAX_COST
         then ((fst r')[i := (if i + 1 < n' then fst r' ! (i + 1) else 0)], (snd r')[i := i])
         else r')"
    by (simp add: tabs' dpRound_eq r'_def Let_def)
  show ?thesis
  proof (cases "fst r ! (s + i) = MAX_COST")
    case True
    have x: "(if i + 1 < n' then fst r' ! (i + 1) else 0)
        = (if s + i + 1 < s + n' then fst r ! (s + i + 1) else 0)"
      using behind [of "i + 1"] by (simp add: add.assoc)
    from True cur have T': "fst r' ! i = MAX_COST" by simp
    show ?thesis
      unfolding R R' if_P [OF True] if_P [OF T'] x suffixTabs_def
      using fr fr' i behind
      by (auto simp: nth_list_update)
  next
    case False
    with cur have F': "fst r' ! i \<noteq> MAX_COST" by simp
    have "fst r' ! t = fst r ! (s + t) \<and> snd r' ! t + s = snd r ! (s + t)" if "i \<le> t" "t < n'" for t
    proof (cases "t = i")
      case True
      with cur cura [OF False] show ?thesis by simp
    next
      case False
      with that behind [of t] show ?thesis by simp
    qed
    then show ?thesis
      unfolding R R' if_not_P [OF False] if_not_P [OF F'] suffixTabs_def
      using fr fr' by simp
  qed
qed

lemma dpOuter_shift:
  assumes "suffixTabs s n' k tabs tabs'" and "k \<le> n'" and "\<forall>t < n'. ww' ! t = ww ! (s + t)"
  shows "suffixTabs s n' 0 (dpOuter pageWidth spaceWidth ww (s + n') (s + k) tabs)
           (dpOuter pageWidth spaceWidth ww' n' k tabs')"
  using assms(1,2)
proof (induction k arbitrary: tabs tabs')
  case 0
  let ?T = "dpOuter pageWidth spaceWidth ww (s + n') s tabs"
  from "0.prems"(1) have len: "length (fst tabs) = s + n'" "length (snd tabs) = s + n'"
    by (simp_all add: suffixTabs_def)
  from dpOuter_result [OF refl _ len, of s pageWidth spaceWidth ww]
  have "length (fst ?T) = s + n'" "length (snd ?T) = s + n'"
    "\<And>t. s \<le> t \<Longrightarrow> fst ?T ! t = fst tabs ! t \<and> snd ?T ! t = snd tabs ! t"
    by simp_all
  with "0.prems"(1) show ?case
    by (simp add: suffixTabs_def)
next
  case (Suc k)
  from Suc.prems(2) have k: "k < n'" by simp
  from dpRound_shift [OF Suc.prems(1) k assms(3)]
  have "suffixTabs s n' k (dpRound pageWidth spaceWidth ww (s + n') (s + k) tabs)
           (dpRound pageWidth spaceWidth ww' n' k tabs')" .
  from Suc.IH [OF this] k show ?case by simp
qed

lemma dpTables_shift:
  assumes "0 < n'" and "\<forall>t < n'. ww' ! t = ww ! (s + t)" and "t < n'"
  shows "snd (dpTables pageWidth spaceWidth ww' n') ! t + s
           = snd (dpTables pageWidth spaceWidth ww (s + n')) ! (s + t)"
proof -
  let ?init = "((replicate (s + n') (0 :: 32 word))[s + n' - 1 := 0],
                (replicate (s + n') (0 :: nat))[s + n' - 1 := s + n' - 1])"
  let ?init' = "((replicate n' (0 :: 32 word))[n' - 1 := 0], (replicate n' (0 :: nat))[n' - 1 := n' - 1])"
  from assms(1) have "suffixTabs s n' (n' - 1) ?init ?init'"
    by (auto simp: suffixTabs_def nth_list_update)
  from dpOuter_shift [OF this _ assms(2)] assms(1)
  have "suffixTabs s n' 0 (dpOuter pageWidth spaceWidth ww (s + n') (s + (n' - 1)) ?init)
           (dpOuter pageWidth spaceWidth ww' n' (n' - 1) ?init')"
    by simp
  moreover from assms(1) have "s + (n' - 1) = s + n' - 1" by simp
  ultimately have "suffixTabs s n' 0 (dpTables pageWidth spaceWidth ww (s + n'))
                     (dpTables pageWidth spaceWidth ww' n')"
    by (simp add: dpTables_def)
  with assms(3) show ?thesis
    by (simp add: suffixTabs_def)
qed

lemma splitOversized_noop:
  assumes "\<forall>t. i \<le> t \<and> t < length ww
             \<longrightarrow> uint (ww ! t) \<le> pageWidth
                 \<or> unsplittable E renderer fontId pageWidth (words pt ! t) (wordStyles pt ! t)"
    and "length ww \<le> length (words pt)"
  shows "splitOversized E renderer fontId pageWidth i pt ww = (pt, ww)"
  using assms(1)
proof (induction "length ww - i" arbitrary: i)
  case 0
  then have "\<not> i < length ww" by simp
  then show ?case by (rule splitOversized_done)
next
  case (Suc d)
  from Suc.hyps(2) have i: "i < length ww" by simp
  from Suc.prems have rest: "\<forall>t. Suc i \<le> t \<and> t < length ww
             \<longrightarrow> uint (ww ! t) \<le> pageWidth
                 \<or> unsplittable E renderer fontId pageWidth (words pt ! t) (wordStyles pt ! t)"
    by simp
  from Suc.hyps(2) have d: "d = length ww - Suc i" by simp
  note IH = Suc.hyps(1) [OF d rest]
  show ?case
  proof (cases "pageWidth < uint (ww ! i)")
    case False
    from splitOversized_fits [OF i False] IH show ?thesis by simp
  next
    case True
    with Suc.prems i have "unsplittable E renderer fontId pageWidth (words pt ! i) (wordStyles pt ! i)"
      by auto
    moreover from i assms(2) have "i < length (words pt)" by simp
    ultimately have "\<not> fst (hyphenateWordAtIndex E renderer fontId i pageWidth True pt ww)"
      by (simp add: hyphenate_fails_unsplittable)
    then obtain pt1 ww1 where h: "hyphenateWordAtIndex E renderer fontId i pageWidth True pt ww
        = (False, pt1, ww1)"
      by (cases "hyphenateWordAtIndex E renderer fontId i pageWidth True pt ww") auto
    from hyphenate_False [OF h] have "pt1 = pt" "ww1 = ww" by simp_all
    with splitOversized_over [OF i True h] IH show ?thesis by simp
  qed
qed

text \<open>The breaker that minimises raggedness on the buffer as it is when only the last
  line has not been consumed: no split, and the one line that was withheld.\<close>

lemma computeLineBreaks_suffix:
  assumes res: "computeLineBreaks E renderer fontId pageWidth spaceWidth pt ww = (bs, pt', ww')"
    and sync: "inSync pt ww" and ne: "words pt \<noteq> []"
  shows "computeLineBreaks E renderer fontId pageWidth spaceWidth
           (consumed (lineStartOf bs (length bs - 1)) pt') (drop (lineStartOf bs (length bs - 1)) ww')
       = ([length ww' - lineStartOf bs (length bs - 1)],
          consumed (lineStartOf bs (length bs - 1)) pt', drop (lineStartOf bs (length bs - 1)) ww')"
proof -
  let ?s = "lineStartOf bs (length bs - 1)"
  from computeLineBreaks_state [OF res] ne
  have so: "splitOversized E renderer fontId pageWidth 0 pt ww = (pt', ww')" by simp
  from splits_keep [OF splitOversized_splits [OF so] sync]
  have sync': "inSync pt' ww'" by blast
  define n where "n = length ww'"
  from sync' have nw: "length (words pt') = n" "length (wordStyles pt') = n"
    by (simp_all add: inSync_def n_def)
  define ans where "ans = snd (dpTables pageWidth spaceWidth ww' n)"
  from computeLineBreaks_unfold [OF ne so, of spaceWidth] res
  have bs: "bs = reconstruct ans n 0 []" by (simp add: ans_def nw)
  from computeLineBreaks_lines [OF res sync ne]
  have sorted: "sorted_wrt (<) (0 # bs)" and bne: "bs \<noteq> []" and last: "last bs = n"
    by (simp_all add: n_def)
  from bne have j: "length bs - 1 < length bs" by (cases bs) simp_all
  note st = sorted_breaks_start [OF sorted j]
  from st(2) last bne have sn: "?s < n" by (simp add: last_conv_nth)
  then have n0: "0 < n" by simp
  from dpTables_entries [OF n0, of pageWidth spaceWidth ww']
  have entries: "\<forall>t < n. entryOK pageWidth spaceWidth ww' n t ans" by (simp add: ans_def)
  from reconstruct_result [OF entries, of 0 "[]"] bs
  have "\<forall>j < length bs. bs ! j = Suc (ans ! ((0 # bs) ! j))" by auto
  with j have "bs ! (length bs - 1) = Suc (ans ! ((0 # bs) ! (length bs - 1)))" by blast
  with last bne st(1) have a: "Suc (ans ! ?s) = n" by (simp add: last_conv_nth)
  define n' where "n' = n - ?s"
  from sn have n': "0 < n'" "n = ?s + n'" by (simp_all add: n'_def)
  have w: "\<forall>t < n'. drop ?s ww' ! t = ww' ! (?s + t)"
    by (simp add: n'_def n_def)
  from dpTables_shift [OF n'(1) w n'(1), of pageWidth spaceWidth] a
  have a0: "snd (dpTables pageWidth spaceWidth (drop ?s ww') n') ! 0 = n' - 1"
    unfolding n'(2) [symmetric] ans_def [symmetric] using n' by simp
  from splitOversized_result [OF so sync]
  have all: "\<forall>t. t < n \<longrightarrow> uint (ww' ! t) \<le> pageWidth
                  \<or> unsplittable E renderer fontId pageWidth (words pt' ! t) (wordStyles pt' ! t)"
    by (simp add: n_def)
  have "\<forall>t. 0 \<le> t \<and> t < length (drop ?s ww')
             \<longrightarrow> uint (drop ?s ww' ! t) \<le> pageWidth
                 \<or> unsplittable E renderer fontId pageWidth (words (consumed ?s pt') ! t)
                      (wordStyles (consumed ?s pt') ! t)"
  proof (intro allI impI)
    fix t assume "0 \<le> t \<and> t < length (drop ?s ww')"
    then have t: "?s + t < n" by (simp add: n_def)
    with all have "uint (ww' ! (?s + t)) \<le> pageWidth
        \<or> unsplittable E renderer fontId pageWidth (words pt' ! (?s + t)) (wordStyles pt' ! (?s + t))"
      by blast
    with t show "uint (drop ?s ww' ! t) \<le> pageWidth
                 \<or> unsplittable E renderer fontId pageWidth (words (consumed ?s pt') ! t)
                      (wordStyles (consumed ?s pt') ! t)"
      by (simp add: nw n_def)
  qed
  then have noop: "splitOversized E renderer fontId pageWidth 0 (consumed ?s pt') (drop ?s ww')
      = (consumed ?s pt', drop ?s ww')"
    by (rule splitOversized_noop) (simp add: nw n_def)
  from sn have ne': "words (consumed ?s pt') \<noteq> []" by (simp add: nw)
  have len': "length (words (consumed ?s pt')) = n'" by (simp add: nw n'_def)
  let ?ans' = "snd (dpTables pageWidth spaceWidth (drop ?s ww') n')"
  from a0 n'(1) have sa: "?ans' ! 0 + 1 = n'" by simp
  from n'(1) have pos: "\<not> n' \<le> 0" by simp
  have "reconstruct ?ans' n' 0 [] = reconstruct ?ans' n' n' [n']"
    unfolding reconstruct_step [OF n'(1), of ?ans' "[]"] sa if_not_P [OF pos] by simp
  also have "\<dots> = [n']" by (simp add: reconstruct_done)
  finally have "reconstruct ?ans' n' 0 [] = [length ww' - ?s]" by (simp add: n'_def n_def)
  then show ?thesis
    unfolding computeLineBreaks_unfold [OF ne' noop] len' by simp
qed

section \<open>Two passes and one pass\<close>

lemma calculateWordWidths_consumed:
  assumes "length (wordStyles pt) = length (words pt)"
  shows "calculateWordWidths renderer fontId (consumed s pt) = drop s (calculateWordWidths renderer fontId pt)"
proof -
  have "length (wordStyles (consumed s pt)) = length (words (consumed s pt))"
    using assms by simp
  from calculateWordWidths_zip [OF this] calculateWordWidths_zip [OF assms]
  show ?thesis by (simp add: drop_map drop_zip)
qed

lemma map_nth_drop:
  assumes "s \<le> e" and "e \<le> length ww"
  shows "map (\<lambda>i. g (drop s ww ! i)) [0 ..< e - s] = map (\<lambda>i. g (ww ! i)) [s ..< e]"
  using assms by (intro nth_equalityI) simp_all

text \<open>The last line, extracted from the buffer that holds nothing else, with the widths
  and the one break counted from its start.\<close>

lemma extractLine_last_shift:
  assumes "bs \<noteq> []" and "lineStartOf bs (length bs - 1) \<le> bs ! (length bs - 1)"
    and "bs ! (length bs - 1) \<le> length ww"
  shows "extractLine 0 pageWidth spaceWidth (drop (lineStartOf bs (length bs - 1)) ww)
           [bs ! (length bs - 1) - lineStartOf bs (length bs - 1)] p
       = extractLine (length bs - 1) pageWidth spaceWidth ww bs p"
proof -
  define j where "j = length bs - 1"
  define s where "s = lineStartOf bs j"
  define e where "e = bs ! j"
  from assms have se: "s \<le> e" and e: "e \<le> length ww" by (simp_all add: s_def e_def j_def)
  have l: "(if 0 < j then bs ! (j - 1) else 0) = s" by (simp add: s_def lineStartOf_def)
  have m1: "map (\<lambda>i. uint (drop s ww ! i)) [0 ..< e - s] = map (\<lambda>i. uint (ww ! i)) [s ..< e]"
    by (rule map_nth_drop [OF se e])
  have m2: "map (\<lambda>i. drop s ww ! i) [0 ..< e - s] = map (\<lambda>i. ww ! i) [s ..< e]"
    by (rule map_nth_drop [OF se e, of "\<lambda>x. x"])
  have "extractLine 0 pageWidth spaceWidth (drop s ww) [e - s] p
      = extractLine j pageWidth spaceWidth ww bs p"
    unfolding extractLine_def [of 0] extractLine_def [of j] Let_def l e_def [symmetric]
    by (simp add: m1 m2 j_def)
  then show ?thesis by (simp only: s_def e_def j_def)
qed

lemma layout_empty:
  "words pt = [] \<Longrightarrow> layoutAndExtractLines E renderer fontId viewportWidth includeLastLine pt = ([], pt)"
  by (simp add: layoutAndExtractLines_def)

text \<open>A pass that withholds the last line, and the pass on what it leaves.\<close>

lemma two_passes:
  assumes wf: "length (wordStyles pt) = length (words pt)" and ne: "words pt \<noteq> []"
    and noindent: "extraParagraphSpacing pt \<or> style pt = CENTER_ALIGN \<or> style pt = RIGHT_ALIGN"
    and first: "layoutAndExtractLines E renderer fontId viewportWidth False pt = (blocks1, pt1)"
    and full: "layoutAndExtractLines E renderer fontId viewportWidth True pt = (blocks, ptF)"
  shows "blocks \<noteq> [] \<and> blocks1 = butlast blocks
       \<and> layoutAndExtractLines E renderer fontId viewportWidth True pt1 = ([last blocks], ptF)"
proof -
  let ?pw = "uint viewportWidth" and ?sw = "getSpaceWidth renderer fontId"
  let ?ww1 = "calculateWordWidths renderer fontId (applyParagraphIndent pt)"
  let ?br = "\<lambda>p w. if hyphenationEnabled p
      then computeHyphenatedLineBreaks E renderer fontId ?pw ?sw p w
      else computeLineBreaks E renderer fontId ?pw ?sw p w"
  have api: "applyParagraphIndent pt = pt"
    using noindent by (auto simp: applyParagraphIndent_def)
  obtain bs ptB wwB where
    br: "(if hyphenationEnabled pt
      then computeHyphenatedLineBreaks E renderer fontId (uint viewportWidth) (getSpaceWidth renderer fontId)
             (applyParagraphIndent pt) (calculateWordWidths renderer fontId (applyParagraphIndent pt))
      else computeLineBreaks E renderer fontId (uint viewportWidth) (getSpaceWidth renderer fontId)
             (applyParagraphIndent pt) (calculateWordWidths renderer fontId (applyParagraphIndent pt)))
       = (bs, ptB, wwB)"
    and splits: "(splitStep E renderer fontId)\<^sup>*\<^sup>*
        (applyParagraphIndent pt, calculateWordWidths renderer fontId (applyParagraphIndent pt)) (ptB, wwB)"
    and sync: "inSync ptB wwB" and ww: "wwB = calculateWordWidths renderer fontId ptB"
    and sorted: "sorted_wrt (<) (0 # bs)" and bne: "bs \<noteq> []" and last: "last bs = length wwB"
    and "\<forall>j < length bs. lineOK E renderer fontId (uint viewportWidth) (getSpaceWidth renderer fontId)
                        ptB wwB ((0 # bs) ! j) (bs ! j)"
    and b: "blocks = map (lineBlock (uint viewportWidth) (getSpaceWidth renderer fontId) wwB bs ptB)
                [0 ..< (if True then length bs else length bs - 1)]"
    and pF: "ptF = ptB\<lparr>words := drop (lineStartOf bs (if True then length bs else length bs - 1)) (words ptB),
                wordStyles := drop (lineStartOf bs (if True then length bs else length bs - 1))
                                (wordStyles ptB)\<rparr>"
    by (rule layout_result [OF wf ne full])
  obtain bs' ptB' wwB' where
    br': "(if hyphenationEnabled pt
      then computeHyphenatedLineBreaks E renderer fontId (uint viewportWidth) (getSpaceWidth renderer fontId)
             (applyParagraphIndent pt) (calculateWordWidths renderer fontId (applyParagraphIndent pt))
      else computeLineBreaks E renderer fontId (uint viewportWidth) (getSpaceWidth renderer fontId)
             (applyParagraphIndent pt) (calculateWordWidths renderer fontId (applyParagraphIndent pt)))
       = (bs', ptB', wwB')"
    and "(splitStep E renderer fontId)\<^sup>*\<^sup>*
        (applyParagraphIndent pt, calculateWordWidths renderer fontId (applyParagraphIndent pt)) (ptB', wwB')"
    and "inSync ptB' wwB'" and "wwB' = calculateWordWidths renderer fontId ptB'"
    and "sorted_wrt (<) (0 # bs')" and "bs' \<noteq> []" and "last bs' = length wwB'"
    and "\<forall>j < length bs'. lineOK E renderer fontId (uint viewportWidth) (getSpaceWidth renderer fontId)
                        ptB' wwB' ((0 # bs') ! j) (bs' ! j)"
    and b1': "blocks1 = map (lineBlock (uint viewportWidth) (getSpaceWidth renderer fontId) wwB' bs' ptB')
                [0 ..< (if False then length bs' else length bs' - 1)]"
    and p1': "pt1 = ptB'\<lparr>words := drop (lineStartOf bs' (if False then length bs' else length bs' - 1)) (words ptB'),
                wordStyles := drop (lineStartOf bs' (if False then length bs' else length bs' - 1))
                                (wordStyles ptB')\<rparr>"
    by (rule layout_result [OF wf ne first])
  from br br' have same: "bs' = bs" "ptB' = ptB" "wwB' = wwB" by simp_all
  define j where "j = length bs - 1"
  define s where "s = lineStartOf bs j"
  let ?LB = "lineBlock ?pw ?sw wwB bs ptB"
  from bne have jl: "j < length bs" and sj: "Suc j = length bs" by (cases bs; simp add: j_def)+
  from b have "blocks = map ?LB [0 ..< Suc j]" unfolding sj by simp
  then have blocks: "blocks = map ?LB [0 ..< j] @ [?LB j]" by simp
  from b1' have blocks1: "blocks1 = map ?LB [0 ..< j]"
    by (simp add: same j_def)
  from p1' have pt1: "pt1 = consumed s ptB"
    by (simp add: same consumed_def s_def j_def)
  note st = sorted_breaks_start [OF sorted jl]
  from last bne have e: "bs ! j = length wwB" by (simp add: last_conv_nth j_def)
  from st(2) e have sn: "s < length wwB" by (simp add: s_def)
  from sync have lens: "length (words ptB) = length wwB" "length (wordStyles ptB) = length wwB"
    by (simp_all add: inSync_def)
  from wf have sync1: "inSync (applyParagraphIndent pt) ?ww1" by (intro inSync_calculate) simp
  from ne have ne1: "words (applyParagraphIndent pt) \<noteq> []" by simp
  from splits_keep [OF splits sync1] have flags: "style ptB = style pt"
    "extraParagraphSpacing ptB = extraParagraphSpacing pt" "hyphenationEnabled ptB = hyphenationEnabled pt"
    by simp_all
  have api1: "applyParagraphIndent pt1 = pt1"
    using noindent by (auto simp: applyParagraphIndent_def pt1 flags)
  have ww1: "calculateWordWidths renderer fontId pt1 = drop s wwB"
    unfolding pt1 ww using lens by (simp add: calculateWordWidths_consumed ww [symmetric])
  have ne2: "words pt1 \<noteq> []" using sn by (simp add: pt1 lens)
  have br2: "(if hyphenationEnabled pt1
      then computeHyphenatedLineBreaks E renderer fontId ?pw ?sw pt1 (drop s wwB)
      else computeLineBreaks E renderer fontId ?pw ?sw pt1 (drop s wwB))
       = ([length wwB - s], pt1, drop s wwB)"
  proof (cases "hyphenationEnabled pt")
    case True
    with br have "computeHyphenatedLineBreaks E renderer fontId ?pw ?sw (applyParagraphIndent pt) ?ww1
        = (bs, ptB, wwB)" by simp
    from computeHyphenatedLineBreaks_suffix [OF this sync1 ne1] True show ?thesis
      by (simp add: pt1 flags s_def j_def)
  next
    case False
    with br have "computeLineBreaks E renderer fontId ?pw ?sw (applyParagraphIndent pt) ?ww1
        = (bs, ptB, wwB)" by simp
    from computeLineBreaks_suffix [OF this sync1 ne1] False show ?thesis
      by (simp add: pt1 flags s_def j_def)
  qed
  have ex: "extractLine 0 ?pw ?sw (drop s wwB) [length wwB - s] pt1 = extractLine j ?pw ?sw wwB bs pt1"
    using extractLine_last_shift [OF bne, of wwB ?pw ?sw pt1] st(2) e
    by (simp add: s_def j_def)
  obtain block pt2 where x: "extractLine j ?pw ?sw wwB bs pt1 = (block, pt2)"
    by (cases "extractLine j ?pw ?sw wwB bs pt1")
  have block: "block = ?LB j"
    using x by (simp add: lineBlock_def pt1 consumed_def s_def)
  from extractLine_result(4) [OF x] e sn
  have pt2: "pt2 = ptF"
    unfolding pF pt1 consumed_def
    by (simp add: s_def [symmetric] lineStartOf_length [OF bne] last lens)
  have second: "layoutAndExtractLines E renderer fontId viewportWidth True pt1 = ([block], pt2)"
    using ne2 by (simp add: layoutAndExtractLines_def api1 ww1 br2 ex x)
  from blocks have "blocks \<noteq> []" "butlast blocks = map ?LB [0 ..< j]" "last blocks = ?LB j"
    by simp_all
  with blocks1 second block pt2 show ?thesis by simp
qed

text \<open>A left-aligned paragraph of three words with no extra paragraph spacing: the first
  word of its buffer gets the indent.\<close>

definition indentedSample :: ParsedText where
  "indentedSample =
     \<lparr>words = [''aaaa'', ''bbbb'', ''cccc''], wordStyles = [REGULAR, REGULAR, REGULAR],
      style = LEFT_ALIGN, extraParagraphSpacing = False, hyphenationEnabled = False\<rparr>"

text \<open>A justified paragraph of two words with no extra paragraph spacing, which fits one
  line.\<close>

definition shortSample :: ParsedText where
  "shortSample =
     \<lparr>words = [''aa'', ''bb''], wordStyles = [REGULAR, REGULAR],
      style = JUSTIFIED, extraParagraphSpacing = False, hyphenationEnabled = False\<rparr>"

text \<open>
  \<^bold>\<open>C1\<close> (round trip). The code departs from it on every paragraph that gets the indent
  (Justified or Left, no extra paragraph spacing): \<^verbatim>\<open>layoutAndExtractLines\<close> calls
  \<^verbatim>\<open>applyParagraphIndent\<close> at every call and nothing records that the indent is in place, so
  the second call puts an em space before the first word of what the first call left. In
  a viewport of 100 pixels the single call on \<open>aaaa bbbb cccc\<close> ends with the line
  \<open>bbbb cccc\<close>, at the x positions 0 and 45; after the call that withholds the last line the
  buffer is \<open>bbbb cccc\<close>, and the second call emits the indented \<open>bbbb\<close> alone and then
  \<open>cccc\<close>: its final line is \<open>cccc\<close> at 0. On \<open>aa bb\<close>, which is one line, the first call emits
  nothing and leaves the indented \<open>aa\<close> in the buffer, and the second call indents it once
  more: the single call gives one line, the two calls give two.
\<close>

theorem second_pass_indents_again:
  "map tb_words (fst (layoutAndExtractLines refCommon monoRenderer 0 100 True indentedSample))
     = [[EM_SPACE @ ''aaaa''], [''bbbb'', ''cccc'']]
   \<and> words (snd (layoutAndExtractLines refCommon monoRenderer 0 100 False indentedSample))
     = [''bbbb'', ''cccc'']
   \<and> map tb_words (fst (layoutAndExtractLines refCommon monoRenderer 0 100 True
                           (snd (layoutAndExtractLines refCommon monoRenderer 0 100 False indentedSample))))
     = [[EM_SPACE @ ''bbbb''], [''cccc'']]
   \<and> last (fst (layoutAndExtractLines refCommon monoRenderer 0 100 True
                    (snd (layoutAndExtractLines refCommon monoRenderer 0 100 False indentedSample))))
     = \<lparr>tb_words = [''cccc''], tb_wordXpos = [0], tb_wordStyles = [REGULAR], tb_style = LEFT_ALIGN\<rparr>
   \<and> last (fst (layoutAndExtractLines refCommon monoRenderer 0 100 True indentedSample))
     = \<lparr>tb_words = [''bbbb'', ''cccc''], tb_wordXpos = [0, 45], tb_wordStyles = [REGULAR, REGULAR],
        tb_style = LEFT_ALIGN\<rparr>
   \<and> last (fst (layoutAndExtractLines refCommon monoRenderer 0 100 True
                    (snd (layoutAndExtractLines refCommon monoRenderer 0 100 False indentedSample))))
     \<noteq> last (fst (layoutAndExtractLines refCommon monoRenderer 0 100 True indentedSample))
   \<and> map tb_words (fst (layoutAndExtractLines refCommon monoRenderer 0 100 True shortSample))
     = [[EM_SPACE @ ''aa'', ''bb'']]
   \<and> layoutAndExtractLines refCommon monoRenderer 0 100 False shortSample
     = ([], shortSample\<lparr>words := [EM_SPACE @ ''aa'', ''bb'']\<rparr>)
   \<and> map tb_words (fst (layoutAndExtractLines refCommon monoRenderer 0 100 True
                           (snd (layoutAndExtractLines refCommon monoRenderer 0 100 False shortSample))))
     = [[EM_SPACE @ EM_SPACE @ ''aa''], [''bb'']]"
  by code_simp

text \<open>
  Where the paragraph indent does not apply (extra paragraph spacing is set, or the
  alignment is centred or right), on a buffer whose words and styles are in step, the two
  calls do give the lines of the single one, for both breakers: the call that withholds
  the last line emits all the lines of the single full call but the last, and the call
  with \<^verbatim>\<open>includeLastLine = true\<close> on the buffer it leaves emits exactly one block, the last
  line of the single full call, with the same words, x positions, styles and alignment,
  and leaves the buffer as the single call leaves it. (On an empty buffer no call emits
  anything.)
\<close>

lemma round_trip_without_indent:
  "length (wordStyles pt) = length (words pt)
   \<and> (extraParagraphSpacing pt \<or> style pt = CENTER_ALIGN \<or> style pt = RIGHT_ALIGN)
   \<and> layoutAndExtractLines E renderer fontId viewportWidth False pt = (blocks1, pt1)
   \<and> layoutAndExtractLines E renderer fontId viewportWidth True pt1 = (blocks2, pt2)
   \<and> layoutAndExtractLines E renderer fontId viewportWidth True pt = (blocks, ptF)
   \<longrightarrow> blocks1 = butlast blocks
     \<and> blocks2 = (if words pt = [] then [] else [last blocks])
     \<and> blocks1 @ blocks2 = blocks
     \<and> pt2 = ptF"
proof (intro impI)
  assume "length (wordStyles pt) = length (words pt)
   \<and> (extraParagraphSpacing pt \<or> style pt = CENTER_ALIGN \<or> style pt = RIGHT_ALIGN)
   \<and> layoutAndExtractLines E renderer fontId viewportWidth False pt = (blocks1, pt1)
   \<and> layoutAndExtractLines E renderer fontId viewportWidth True pt1 = (blocks2, pt2)
   \<and> layoutAndExtractLines E renderer fontId viewportWidth True pt = (blocks, ptF)"
  then have wf: "length (wordStyles pt) = length (words pt)"
    and noindent: "extraParagraphSpacing pt \<or> style pt = CENTER_ALIGN \<or> style pt = RIGHT_ALIGN"
    and first: "layoutAndExtractLines E renderer fontId viewportWidth False pt = (blocks1, pt1)"
    and second: "layoutAndExtractLines E renderer fontId viewportWidth True pt1 = (blocks2, pt2)"
    and full: "layoutAndExtractLines E renderer fontId viewportWidth True pt = (blocks, ptF)"
    by blast+
  show "blocks1 = butlast blocks
     \<and> blocks2 = (if words pt = [] then [] else [last blocks])
     \<and> blocks1 @ blocks2 = blocks
     \<and> pt2 = ptF"
  proof (cases "words pt = []")
    case True
    from first full have "blocks1 = []" "pt1 = pt" "blocks = []" "ptF = pt"
      unfolding layout_empty [OF True] by simp_all
    moreover with second have "blocks2 = []" "pt2 = pt"
      by (simp_all add: layout_empty [OF True])
    ultimately show ?thesis using True by simp
  next
    case False
    from two_passes [OF wf False noindent first full] second
    have "blocks \<noteq> []" "blocks1 = butlast blocks" "blocks2 = [last blocks]" "pt2 = ptF"
      by simp_all
    with False show ?thesis by simp
  qed
qed

definition centredSample :: ParsedText where
  "centredSample =
     \<lparr>words = [''aaaa'', ''bbbb'', ''cccc'', ''dd''], wordStyles = [REGULAR, BOLD, REGULAR, REGULAR],
      style = CENTER_ALIGN, extraParagraphSpacing = False, hyphenationEnabled = False\<rparr>"

lemma round_trip_without_indent_sample:
  "map tb_words (fst (layoutAndExtractLines refCommon monoRenderer 0 100 True centredSample))
     = [[''aaaa'', ''bbbb''], [''cccc'', ''dd'']]
   \<and> words (snd (layoutAndExtractLines refCommon monoRenderer 0 100 False centredSample)) = [''cccc'', ''dd'']
   \<and> fst (layoutAndExtractLines refCommon monoRenderer 0 100 True
              (snd (layoutAndExtractLines refCommon monoRenderer 0 100 False centredSample)))
     = [last (fst (layoutAndExtractLines refCommon monoRenderer 0 100 True centredSample))]
   \<and> last (fst (layoutAndExtractLines refCommon monoRenderer 0 100 True centredSample))
     = \<lparr>tb_words = [''cccc'', ''dd''], tb_wordXpos = [17, 62], tb_wordStyles = [REGULAR, REGULAR],
        tb_style = CENTER_ALIGN\<rparr>"
proof -
  let ?one = "layoutAndExtractLines refCommon monoRenderer 0 100 True centredSample"
  let ?first = "layoutAndExtractLines refCommon monoRenderer 0 100 False centredSample"
  let ?second = "layoutAndExtractLines refCommon monoRenderer 0 100 True (snd ?first)"
  have a: "map tb_words (fst ?one) = [[''aaaa'', ''bbbb''], [''cccc'', ''dd'']]"
    by code_simp
  have b: "words (snd ?first) = [''cccc'', ''dd'']"
    by code_simp
  have c: "last (fst ?one)
     = \<lparr>tb_words = [''cccc'', ''dd''], tb_wordXpos = [17, 62], tb_wordStyles = [REGULAR, REGULAR],
        tb_style = CENTER_ALIGN\<rparr>"
    by code_simp
  have wf: "length (wordStyles centredSample) = length (words centredSample)"
    and st: "style centredSample = CENTER_ALIGN" and ne: "words centredSample \<noteq> []"
    by (simp_all add: centredSample_def)
  have "?first = (fst ?first, snd ?first)" "?second = (fst ?second, snd ?second)"
    "?one = (fst ?one, snd ?one)"
    by simp_all
  with wf st round_trip_without_indent [where pt = centredSample and E = refCommon
      and renderer = monoRenderer and fontId = 0 and viewportWidth = 100
      and ?blocks1.0 = "fst ?first" and ?pt1.0 = "snd ?first" and ?blocks2.0 = "fst ?second"
      and ?pt2.0 = "snd ?second" and blocks = "fst ?one" and ptF = "snd ?one"]
  have "fst ?second = (if words centredSample = [] then [] else [last (fst ?one)])"
    by blast
  with ne have d: "fst ?second = [last (fst ?one)]" by simp
  show ?thesis
    by (intro conjI) (rule a b c d)+
qed

section \<open>The costs in the table\<close>

text \<open>The cost that the inner loop of \<^verbatim>\<open>computeLineBreaks\<close> computes for the line from \<open>i\<close> to
  \<open>j\<close> (the local \<^verbatim>\<open>cost\<close>), the same value without any bound, and the test that the loop
  gets to \<open>j\<close> and past its \<^verbatim>\<open>break\<close>.\<close>

definition candidateCost ::
  "int \<Rightarrow> int \<Rightarrow> 16 word list \<Rightarrow> nat \<Rightarrow> 32 word list \<Rightarrow> nat \<Rightarrow> nat \<Rightarrow> 32 word" where
  "candidateCost pageWidth spaceWidth ww n dp i j =
     (if j = n - 1 then 0
      else lineCost (word_of_int (pageWidth - lineLen spaceWidth ww i (Suc j))) (dp ! (j + 1)))"

definition exactCost ::
  "int \<Rightarrow> int \<Rightarrow> 16 word list \<Rightarrow> nat \<Rightarrow> 32 word list \<Rightarrow> nat \<Rightarrow> nat \<Rightarrow> int" where
  "exactCost pageWidth spaceWidth ww n dp i j =
     (if j = n - 1 then 0
      else sint (word_of_int (pageWidth - lineLen spaceWidth ww i (Suc j)) :: 32 word)
           * sint (word_of_int (pageWidth - lineLen spaceWidth ww i (Suc j)) :: 32 word)
           + sint (dp ! (j + 1)))"

definition reached :: "int \<Rightarrow> int \<Rightarrow> 16 word list \<Rightarrow> nat \<Rightarrow> nat \<Rightarrow> bool" where
  "reached pageWidth spaceWidth ww i j \<longleftrightarrow>
     (\<forall>k \<in> set [i ..< Suc j]. lineLen spaceWidth ww i (Suc k) \<le> pageWidth)"

lemma sint_candidateCost:
  "sint (candidateCost pageWidth spaceWidth ww n dp i j)
     = min (sint MAX_COST) (exactCost pageWidth spaceWidth ww n dp i j)"
  by (simp add: candidateCost_def exactCost_def lineCost_sint sint_MAX_COST)

lemma candidateCost_cong:
  "\<forall>t. i < t \<longrightarrow> dp' ! t = dp ! t \<Longrightarrow> i \<le> k
     \<Longrightarrow> candidateCost pageWidth spaceWidth ww n dp' i k = candidateCost pageWidth spaceWidth ww n dp i k"
  by (simp add: candidateCost_def)

lemma exactCost_cong:
  "\<forall>t. i < t \<longrightarrow> dp' ! t = dp ! t \<Longrightarrow> i \<le> k
     \<Longrightarrow> exactCost pageWidth spaceWidth ww n dp' i k = exactCost pageWidth spaceWidth ww n dp i k"
  by (simp add: exactCost_def)

lemma candidate_saturated:
  "candidateCost pageWidth spaceWidth ww n dp i j \<noteq> MAX_COST
     \<longleftrightarrow> exactCost pageWidth spaceWidth ww n dp i j < sint MAX_COST"
proof -
  have "candidateCost pageWidth spaceWidth ww n dp i j = MAX_COST
      \<longleftrightarrow> sint (candidateCost pageWidth spaceWidth ww n dp i j) = sint MAX_COST"
    by (auto intro: signed_word_eqI)
  then show ?thesis
    unfolding sint_candidateCost by auto
qed

text \<open>The inner loop keeps in \<open>dp[i]\<close> the least of \<open>MAX_COST\<close> and the costs of the lines it
  got to, and in \<open>ans[i]\<close> the first line of that cost.\<close>

lemma dpInner_min:
  assumes "dpInner pageWidth spaceWidth ww n i J currlen tabs = tabs'"
    and "i \<le> J" and "currlen = lineLen spaceWidth ww i J"
    and "\<forall>k. i \<le> k \<and> k < J \<longrightarrow> lineLen spaceWidth ww i (Suc k) \<le> pageWidth"
    and "\<forall>k. i \<le> k \<longrightarrow> candidateCost pageWidth spaceWidth ww n (fst tabs) i k = C k"
    and "\<forall>k. i \<le> k \<and> k < J \<longrightarrow> sint (fst tabs ! i) \<le> sint (C k)"
    and "sint (fst tabs ! i) \<le> sint MAX_COST"
    and "fst tabs ! i = MAX_COST
         \<or> (i \<le> snd tabs ! i \<and> snd tabs ! i < J \<and> snd tabs ! i < n \<and> fst tabs ! i = C (snd tabs ! i))"
    and "i < length (fst tabs)" and "i < length (snd tabs)"
  shows "(\<forall>k. i \<le> k \<and> k < n \<and> reached pageWidth spaceWidth ww i k \<longrightarrow> sint (fst tabs' ! i) \<le> sint (C k))
       \<and> sint (fst tabs' ! i) \<le> sint MAX_COST
       \<and> (fst tabs' ! i = MAX_COST
           \<or> (i \<le> snd tabs' ! i \<and> snd tabs' ! i < n \<and> reached pageWidth spaceWidth ww i (snd tabs' ! i)
               \<and> fst tabs' ! i = C (snd tabs' ! i)))"
  using assms
proof (induction "n - J" arbitrary: J currlen tabs)
  case 0
  note passed = "0.prems"(4) and le = "0.prems"(6) and top = "0.prems"(7) and sel = "0.prems"(8)
  from "0.hyps" have "\<not> J < n" by simp
  with "0.prems"(1) have e: "tabs' = tabs" by (cases tabs) (simp add: dpInner_done)
  have r: "reached pageWidth spaceWidth ww i a" if "i \<le> a" "a < J" for a
    using passed that by (auto simp: reached_def)
  from \<open>\<not> J < n\<close> le have "\<forall>k. i \<le> k \<and> k < n \<and> reached pageWidth spaceWidth ww i k
      \<longrightarrow> sint (fst tabs ! i) \<le> sint (C k)"
    by auto
  with top sel r show ?case unfolding e by blast
next
  case (Suc d)
  note run = Suc.prems(1) and iJ = Suc.prems(2) and cl = Suc.prems(3) and passed = Suc.prems(4)
    and C = Suc.prems(5) and le = Suc.prems(6) and top = Suc.prems(7) and sel = Suc.prems(8)
    and len = Suc.prems(9,10)
  obtain dp ans where tabs: "tabs = (dp, ans)" by (cases tabs)
  from Suc.hyps(2) have J: "J < n" by simp
  have cl': "currlen + uint (ww ! J) + spaceWidth = lineLen spaceWidth ww i (Suc J)"
    unfolding cl lineLen_Suc [OF iJ] by simp
  have r: "reached pageWidth spaceWidth ww i a" if "i \<le> a" "a < J" for a
    using passed that by (auto simp: reached_def)
  show ?case
  proof (cases "pageWidth < currlen + uint (ww ! J) + spaceWidth")
    case True
    from run have e: "tabs' = tabs" unfolding tabs dpInner_over [OF J True] by simp
    have "k < J" if "i \<le> k" "reached pageWidth spaceWidth ww i k" for k
    proof (rule ccontr)
      assume "\<not> k < J"
      with iJ that(2) have "lineLen spaceWidth ww i (Suc J) \<le> pageWidth"
        by (auto simp: reached_def)
      with True cl' show False by simp
    qed
    with le have "\<forall>k. i \<le> k \<and> k < n \<and> reached pageWidth spaceWidth ww i k
      \<longrightarrow> sint (fst tabs ! i) \<le> sint (C k)"
      by blast
    with top sel r show ?thesis unfolding e by blast
  next
    case False
    define cost where "cost = (if J = n - 1 then 0
                 else lineCost (word_of_int (pageWidth - (currlen + uint (ww ! J) + spaceWidth)))
                        (dp ! (J + 1)))"
    have "cost = candidateCost pageWidth spaceWidth ww n dp i J"
      unfolding cost_def cl' candidateCost_def ..
    with C iJ have cost: "cost = C J"
      by (simp add: tabs)
    let ?next = "if cost <s dp ! i then (dp[i := cost], ans[i := J]) else (dp, ans)"
    from run have run': "dpInner pageWidth spaceWidth ww n i (Suc J)
        (currlen + uint (ww ! J) + spaceWidth) ?next = tabs'"
      unfolding tabs dpInner_step [OF J False cost_def] .
    from passed False cl' have passed': "\<forall>k. i \<le> k \<and> k < Suc J
        \<longrightarrow> lineLen spaceWidth ww i (Suc k) \<le> pageWidth"
      by (auto simp: less_Suc_eq)
    have C': "\<forall>k. i \<le> k \<longrightarrow> candidateCost pageWidth spaceWidth ww n (fst ?next) i k = C k"
    proof (intro allI impI)
      fix k assume k: "i \<le> k"
      have "candidateCost pageWidth spaceWidth ww n (fst ?next) i k
          = candidateCost pageWidth spaceWidth ww n dp i k"
        by (rule candidateCost_cong [OF _ k]) simp
      with C k show "candidateCost pageWidth spaceWidth ww n (fst ?next) i k = C k"
        by (simp add: tabs)
    qed
    from len have li: "i < length dp" "i < length ans" by (simp_all add: tabs)
    from le have le0: "\<forall>k. i \<le> k \<and> k < J \<longrightarrow> sint (dp ! i) \<le> sint (C k)" by (simp add: tabs)
    from top have top0: "sint (dp ! i) \<le> sint MAX_COST" by (simp add: tabs)
    from sel have sel0: "dp ! i = MAX_COST
         \<or> (i \<le> ans ! i \<and> ans ! i < J \<and> ans ! i < n \<and> dp ! i = C (ans ! i))"
      by (simp add: tabs)
    have le': "\<forall>k. i \<le> k \<and> k < Suc J \<longrightarrow> sint (fst ?next ! i) \<le> sint (C k)"
      and top': "sint (fst ?next ! i) \<le> sint MAX_COST"
      and sel': "fst ?next ! i = MAX_COST
         \<or> (i \<le> snd ?next ! i \<and> snd ?next ! i < Suc J \<and> snd ?next ! i < n
             \<and> fst ?next ! i = C (snd ?next ! i))"
    proof -
      show "\<forall>k. i \<le> k \<and> k < Suc J \<longrightarrow> sint (fst ?next ! i) \<le> sint (C k)"
      proof (cases "cost <s dp ! i")
        case True
        then have "sint (C J) < sint (dp ! i)" by (simp add: word_sless_alt cost)
        with le0 True li show ?thesis by (auto simp: less_Suc_eq cost)
      next
        case False
        then have "sint (dp ! i) \<le> sint (C J)" by (simp add: word_sless_alt cost)
        with le0 False show ?thesis by (auto simp: less_Suc_eq)
      qed
      show "sint (fst ?next ! i) \<le> sint MAX_COST"
        using top0 li by (auto simp: word_sless_alt)
      show "fst ?next ! i = MAX_COST
         \<or> (i \<le> snd ?next ! i \<and> snd ?next ! i < Suc J \<and> snd ?next ! i < n
             \<and> fst ?next ! i = C (snd ?next ! i))"
        using sel0 li iJ J by (auto simp: cost)
    qed
    from len have len': "i < length (fst ?next)" "i < length (snd ?next)" by (simp_all add: tabs)
    from Suc.hyps(2) have d: "d = n - Suc J" by simp
    have iJ': "i \<le> Suc J" using iJ by simp
    show ?thesis
      by (rule Suc.hyps(1) [OF d run' iJ' cl' passed' C' le' top' sel' len'])
  qed
qed

text \<open>What a round leaves in the entries for \<open>i\<close>: the least cost below \<open>MAX_COST\<close> among the
  lines from \<open>i\<close> that the loop got to, with the line that has it; when there is none, the
  line of the one word \<open>i\<close> and the cost of the entry behind it.\<close>

definition dpEntry ::
  "int \<Rightarrow> int \<Rightarrow> 16 word list \<Rightarrow> nat \<Rightarrow> 32 word list \<times> nat list \<Rightarrow> nat \<Rightarrow> bool" where
  "dpEntry pageWidth spaceWidth ww n tabs i \<longleftrightarrow>
     (if \<exists>k \<in> set [i ..< n]. reached pageWidth spaceWidth ww i k
            \<and> candidateCost pageWidth spaceWidth ww n (fst tabs) i k \<noteq> MAX_COST
      then i \<le> snd tabs ! i \<and> snd tabs ! i < n \<and> reached pageWidth spaceWidth ww i (snd tabs ! i)
           \<and> fst tabs ! i = candidateCost pageWidth spaceWidth ww n (fst tabs) i (snd tabs ! i)
           \<and> fst tabs ! i \<noteq> MAX_COST
           \<and> (\<forall>k \<in> set [i ..< n]. reached pageWidth spaceWidth ww i k
                  \<longrightarrow> sint (fst tabs ! i)
                        \<le> sint (candidateCost pageWidth spaceWidth ww n (fst tabs) i k))
      else snd tabs ! i = i \<and> fst tabs ! i = (if i + 1 < n then fst tabs ! (i + 1) else 0))"

lemma dpEntry_some:
  assumes "dpEntry pageWidth spaceWidth ww n (dp, ans) i"
    and "\<exists>k \<in> set [i ..< n]. reached pageWidth spaceWidth ww i k
            \<and> candidateCost pageWidth spaceWidth ww n dp i k \<noteq> MAX_COST"
  shows "i \<le> ans ! i" and "ans ! i < n" and "reached pageWidth spaceWidth ww i (ans ! i)"
    and "dp ! i = candidateCost pageWidth spaceWidth ww n dp i (ans ! i)"
    and "dp ! i \<noteq> MAX_COST"
    and "\<forall>k \<in> set [i ..< n]. reached pageWidth spaceWidth ww i k
           \<longrightarrow> sint (dp ! i) \<le> sint (candidateCost pageWidth spaceWidth ww n dp i k)"
proof -
  have D: "(if c then A else B) \<Longrightarrow> c \<Longrightarrow> A" for c A B by simp
  note r = D [OF assms(1) [unfolded dpEntry_def fst_conv snd_conv] assms(2)]
  from r show "i \<le> ans ! i" by (rule conjunct1)
  from r show "ans ! i < n" by blast
  from r show "reached pageWidth spaceWidth ww i (ans ! i)" by blast
  from r show "dp ! i = candidateCost pageWidth spaceWidth ww n dp i (ans ! i)" by blast
  from r show "dp ! i \<noteq> MAX_COST" by blast
  from r show "\<forall>k \<in> set [i ..< n]. reached pageWidth spaceWidth ww i k
           \<longrightarrow> sint (dp ! i) \<le> sint (candidateCost pageWidth spaceWidth ww n dp i k)" by blast
qed

lemma dpEntry_none:
  assumes "dpEntry pageWidth spaceWidth ww n (dp, ans) i"
    and "\<not> (\<exists>k \<in> set [i ..< n]. reached pageWidth spaceWidth ww i k
            \<and> candidateCost pageWidth spaceWidth ww n dp i k \<noteq> MAX_COST)"
  shows "ans ! i = i" and "dp ! i = (if i + 1 < n then dp ! (i + 1) else 0)"
proof -
  have D: "(if c then A else B) \<Longrightarrow> \<not> c \<Longrightarrow> B" for c A B by simp
  note r = D [OF assms(1) [unfolded dpEntry_def fst_conv snd_conv] assms(2)]
  from r show "ans ! i = i" by (rule conjunct1)
  from r show "dp ! i = (if i + 1 < n then dp ! (i + 1) else 0)" by (rule conjunct2)
qed

lemma dpEntry_cong:
  assumes "\<forall>t. i \<le> t \<longrightarrow> fst tabs' ! t = fst tabs ! t \<and> snd tabs' ! t = snd tabs ! t"
  shows "dpEntry pageWidth spaceWidth ww n tabs' i = dpEntry pageWidth spaceWidth ww n tabs i"
proof -
  from assms have c: "candidateCost pageWidth spaceWidth ww n (fst tabs') i k
      = candidateCost pageWidth spaceWidth ww n (fst tabs) i k" if "i \<le> k" for k
    using that by (intro candidateCost_cong) simp_all
  from assms have e: "fst tabs' ! i = fst tabs ! i" "snd tabs' ! i = snd tabs ! i"
    "fst tabs' ! (i + 1) = fst tabs ! (i + 1)"
    by simp_all
  have ex: "(\<exists>k \<in> set [i ..< n]. reached pageWidth spaceWidth ww i k
            \<and> candidateCost pageWidth spaceWidth ww n (fst tabs') i k \<noteq> MAX_COST)
      = (\<exists>k \<in> set [i ..< n]. reached pageWidth spaceWidth ww i k
            \<and> candidateCost pageWidth spaceWidth ww n (fst tabs) i k \<noteq> MAX_COST)"
    using c by auto
  have al: "(\<forall>k \<in> set [i ..< n]. reached pageWidth spaceWidth ww i k
                  \<longrightarrow> sint (fst tabs ! i)
                        \<le> sint (candidateCost pageWidth spaceWidth ww n (fst tabs') i k))
      = (\<forall>k \<in> set [i ..< n]. reached pageWidth spaceWidth ww i k
                  \<longrightarrow> sint (fst tabs ! i)
                        \<le> sint (candidateCost pageWidth spaceWidth ww n (fst tabs) i k))"
    using c by auto
  have a: "i \<le> snd tabs ! i
      \<Longrightarrow> candidateCost pageWidth spaceWidth ww n (fst tabs') i (snd tabs ! i)
          = candidateCost pageWidth spaceWidth ww n (fst tabs) i (snd tabs ! i)"
    by (rule c)
  show ?thesis
    unfolding dpEntry_def ex e al using a by auto
qed

lemma dpRound_entry:
  assumes i: "i < n" and len: "length (fst tabs) = n" "length (snd tabs) = n"
  shows "dpEntry pageWidth spaceWidth ww n (dpRound pageWidth spaceWidth ww n i tabs) i"
proof -
  obtain dp ans where tabs: "tabs = (dp, ans)" by (cases tabs)
  from len have l: "length dp = n" "length ans = n" by (simp_all add: tabs)
  define r where "r = dpInner pageWidth spaceWidth ww n i i (- spaceWidth) (dp[i := MAX_COST], ans)"
  define C where "C = candidateCost pageWidth spaceWidth ww n dp i"
  from dpInner_frame [OF r_def [symmetric]] l
  have fr: "length (fst r) = n" "length (snd r) = n"
    "\<And>t. t \<noteq> i \<Longrightarrow> fst r ! t = dp ! t \<and> snd r ! t = ans ! t"
    by simp_all
  have "(\<forall>k. i \<le> k \<and> k < n \<and> reached pageWidth spaceWidth ww i k \<longrightarrow> sint (fst r ! i) \<le> sint (C k))
       \<and> sint (fst r ! i) \<le> sint MAX_COST
       \<and> (fst r ! i = MAX_COST
           \<or> (i \<le> snd r ! i \<and> snd r ! i < n \<and> reached pageWidth spaceWidth ww i (snd r ! i)
               \<and> fst r ! i = C (snd r ! i)))"
  proof (rule dpInner_min [OF r_def [symmetric] le_refl])
    show "- spaceWidth = lineLen spaceWidth ww i i" by (simp add: lineLen_empty)
    show "\<forall>k. i \<le> k \<and> k < i \<longrightarrow> lineLen spaceWidth ww i (Suc k) \<le> pageWidth" by simp
    show "\<forall>k. i \<le> k \<longrightarrow> candidateCost pageWidth spaceWidth ww n (fst (dp[i := MAX_COST], ans)) i k = C k"
      unfolding C_def by (auto intro: candidateCost_cong)
    show "\<forall>k. i \<le> k \<and> k < i \<longrightarrow> sint (fst (dp[i := MAX_COST], ans) ! i) \<le> sint (C k)" by simp
    from i l show "sint (fst (dp[i := MAX_COST], ans) ! i) \<le> sint MAX_COST" by simp
    from i l show "fst (dp[i := MAX_COST], ans) ! i = MAX_COST
         \<or> (i \<le> snd (dp[i := MAX_COST], ans) ! i \<and> snd (dp[i := MAX_COST], ans) ! i < i
             \<and> snd (dp[i := MAX_COST], ans) ! i < n
             \<and> fst (dp[i := MAX_COST], ans) ! i = C (snd (dp[i := MAX_COST], ans) ! i))"
      by simp
    from i l show "i < length (fst (dp[i := MAX_COST], ans))" "i < length (snd (dp[i := MAX_COST], ans))"
      by simp_all
  qed
  then have R1: "\<And>k. i \<le> k \<Longrightarrow> k < n \<Longrightarrow> reached pageWidth spaceWidth ww i k
                   \<Longrightarrow> sint (fst r ! i) \<le> sint (C k)"
    and R2: "fst r ! i = MAX_COST
           \<or> (i \<le> snd r ! i \<and> snd r ! i < n \<and> reached pageWidth spaceWidth ww i (snd r ! i)
               \<and> fst r ! i = C (snd r ! i))"
    by blast+
  let ?T = "dpRound pageWidth spaceWidth ww n i tabs"
  have T: "?T = (if fst r ! i = MAX_COST
         then ((fst r)[i := (if i + 1 < n then fst r ! (i + 1) else 0)], (snd r)[i := i])
         else r)"
    by (simp add: tabs dpRound_eq r_def Let_def)
  have CT: "candidateCost pageWidth spaceWidth ww n (fst ?T) i k = C k" if "i \<le> k" for k
    unfolding C_def using that fr(3) by (intro candidateCost_cong) (auto simp: T)
  have sat: "sint (C k) \<le> sint MAX_COST" for k
    unfolding C_def sint_candidateCost by simp
  show ?thesis
  proof (cases "fst r ! i = MAX_COST")
    case True
    have none: "\<not> (\<exists>k \<in> set [i ..< n]. reached pageWidth spaceWidth ww i k
            \<and> candidateCost pageWidth spaceWidth ww n (fst ?T) i k \<noteq> MAX_COST)"
    proof
      assume "\<exists>k \<in> set [i ..< n]. reached pageWidth spaceWidth ww i k
            \<and> candidateCost pageWidth spaceWidth ww n (fst ?T) i k \<noteq> MAX_COST"
      then obtain k where k: "i \<le> k" "k < n" "reached pageWidth spaceWidth ww i k"
        and ne: "C k \<noteq> MAX_COST"
        by (auto simp: CT)
      from R1 [OF k] True sat [of k] have "sint (C k) = sint MAX_COST" by simp
      then have "C k = MAX_COST" by (rule signed_word_eqI)
      with ne show False by simp
    qed
    from True i fr have e: "snd ?T ! i = i \<and> fst ?T ! i = (if i + 1 < n then fst ?T ! (i + 1) else 0)"
      by (simp add: T)
    show ?thesis unfolding dpEntry_def if_not_P [OF none] by (rule e)
  next
    case False
    with R2 have a: "i \<le> snd r ! i" "snd r ! i < n" "reached pageWidth spaceWidth ww i (snd r ! i)"
      and v: "fst r ! i = C (snd r ! i)"
      by simp_all
    from False have Tr: "?T = r" by (simp add: T)
    from a v False have some: "\<exists>k \<in> set [i ..< n]. reached pageWidth spaceWidth ww i k
            \<and> candidateCost pageWidth spaceWidth ww n (fst ?T) i k \<noteq> MAX_COST"
      by (intro bexI [of _ "snd r ! i"]) (simp_all add: CT)
    have least: "\<forall>k \<in> set [i ..< n]. reached pageWidth spaceWidth ww i k
                  \<longrightarrow> sint (fst ?T ! i)
                        \<le> sint (candidateCost pageWidth spaceWidth ww n (fst ?T) i k)"
      using R1 by (auto simp: CT) (simp add: Tr)
    from a v False CT [OF a(1)] have e: "i \<le> snd ?T ! i" "snd ?T ! i < n"
      "reached pageWidth spaceWidth ww i (snd ?T ! i)"
      "fst ?T ! i = candidateCost pageWidth spaceWidth ww n (fst ?T) i (snd ?T ! i)"
      "fst ?T ! i \<noteq> MAX_COST"
      by (simp_all add: Tr)
    show ?thesis unfolding dpEntry_def if_P [OF some]
      by (intro conjI) (rule e least)+
  qed
qed

lemma dpOuter_entries:
  assumes "k \<le> n" and "length (fst tabs) = n" and "length (snd tabs) = n"
  shows "\<forall>t < k. dpEntry pageWidth spaceWidth ww n (dpOuter pageWidth spaceWidth ww n k tabs) t"
  using assms
proof (induction k arbitrary: tabs)
  case 0
  then show ?case by simp
next
  case (Suc k)
  let ?R = "dpRound pageWidth spaceWidth ww n k tabs"
  let ?T = "dpOuter pageWidth spaceWidth ww n k ?R"
  from Suc.prems have k: "k < n" by simp
  from dpRound_result [OF refl, of k tabs n pageWidth spaceWidth ww] Suc.prems k
  have lenR: "length (fst ?R) = n" "length (snd ?R) = n" by simp_all
  from Suc.IH [OF _ lenR] k have below: "\<forall>t < k. dpEntry pageWidth spaceWidth ww n ?T t" by simp
  from dpOuter_result [OF refl _ lenR, of k pageWidth spaceWidth ww] k
  have "\<forall>t. k \<le> t \<longrightarrow> fst ?T ! t = fst ?R ! t \<and> snd ?T ! t = snd ?R ! t" by simp
  from dpEntry_cong [OF this] dpRound_entry [OF k Suc.prems(2,3)]
  have "dpEntry pageWidth spaceWidth ww n ?T k" by simp
  with below show ?case by (auto simp: less_Suc_eq)
qed

lemma dpTables_costs:
  assumes "0 < n"
  shows "length (fst (dpTables pageWidth spaceWidth ww n)) = n"
    and "fst (dpTables pageWidth spaceWidth ww n) ! (n - 1) = 0"
    and "snd (dpTables pageWidth spaceWidth ww n) ! (n - 1) = n - 1"
    and "\<forall>t < n - 1. dpEntry pageWidth spaceWidth ww n (dpTables pageWidth spaceWidth ww n) t"
proof -
  let ?init = "((replicate n (0 :: 32 word))[n - 1 := 0], (replicate n (0 :: nat))[n - 1 := n - 1])"
  have len: "length (fst ?init) = n" "length (snd ?init) = n" by simp_all
  from dpOuter_result [OF refl _ len, of "n - 1" pageWidth spaceWidth ww] assms
  show "length (fst (dpTables pageWidth spaceWidth ww n)) = n"
    and "fst (dpTables pageWidth spaceWidth ww n) ! (n - 1) = 0"
    and "snd (dpTables pageWidth spaceWidth ww n) ! (n - 1) = n - 1"
    by (simp_all add: dpTables_def)
  from dpOuter_entries [OF _ len, of "n - 1" pageWidth spaceWidth ww]
  show "\<forall>t < n - 1. dpEntry pageWidth spaceWidth ww n (dpTables pageWidth spaceWidth ww n) t"
    by (simp add: dpTables_def)
qed

lemma sint_candidate_exact:
  "candidateCost pageWidth spaceWidth ww n dp i j \<noteq> MAX_COST
     \<Longrightarrow> sint (candidateCost pageWidth spaceWidth ww n dp i j) = exactCost pageWidth spaceWidth ww n dp i j"
  unfolding candidate_saturated sint_candidateCost by simp

lemma dpTables_range:
  assumes "t < n"
  shows "0 \<le> sint (fst (dpTables pageWidth spaceWidth ww n) ! t)
       \<and> sint (fst (dpTables pageWidth spaceWidth ww n) ! t) < sint MAX_COST"
  using assms
proof (induction "n - t" arbitrary: t rule: less_induct)
  case less
  obtain dp ans where T: "dpTables pageWidth spaceWidth ww n = (dp, ans)"
    by (cases "dpTables pageWidth spaceWidth ww n")
  then have dp: "fst (dpTables pageWidth spaceWidth ww n) = dp"
    and ans: "snd (dpTables pageWidth spaceWidth ww n) = ans"
    by simp_all
  from less.prems have n: "0 < n" by simp
  note tc = dpTables_costs [OF n, of pageWidth spaceWidth ww, unfolded dp ans]
  note IH = less.hyps [unfolded dp]
  show ?case unfolding dp
  proof (cases "t = n - 1")
    case True
    with tc(2) show "0 \<le> sint (dp ! t) \<and> sint (dp ! t) < sint MAX_COST"
      by (simp add: sint_MAX_COST)
  next
    case False
    with less.prems have t: "t < n - 1" "t + 1 < n" by simp_all
    from tc(4) t(1) have entry: "dpEntry pageWidth spaceWidth ww n (dp, ans) t"
      unfolding T by blast
    from IH [of "t + 1"] t(2) less.prems
    have nxt: "0 \<le> sint (dp ! (t + 1))" "sint (dp ! (t + 1)) < sint MAX_COST"
      by simp_all
    show "0 \<le> sint (dp ! t) \<and> sint (dp ! t) < sint MAX_COST"
    proof (cases "\<exists>k \<in> set [t ..< n]. reached pageWidth spaceWidth ww t k
            \<and> candidateCost pageWidth spaceWidth ww n dp t k \<noteq> MAX_COST")
      case True
      define a where "a = ans ! t"
      note e = dpEntry_some [OF entry True, folded a_def]
      from e(4,5) have ne: "candidateCost pageWidth spaceWidth ww n dp t a \<noteq> MAX_COST" by simp
      from sint_candidate_exact [OF ne] e(4)
      have ex: "sint (dp ! t) = exactCost pageWidth spaceWidth ww n dp t a" by simp
      from ne have lt: "exactCost pageWidth spaceWidth ww n dp t a < sint MAX_COST"
        by (simp only: candidate_saturated)
      have "0 \<le> exactCost pageWidth spaceWidth ww n dp t a"
      proof (cases "a = n - 1")
        case True
        then show ?thesis by (simp add: exactCost_def)
      next
        case False
        with e(1,2) have "a + 1 < n" "n - (a + 1) < n - t" by simp_all
        from IH [OF this(2) this(1)] have "0 \<le> sint (dp ! (a + 1))" by simp
        with False show ?thesis by (simp add: exactCost_def)
      qed
      with ex lt show ?thesis by simp
    next
      case False
      from dpEntry_none(2) [OF entry False] t(2) have "dp ! t = dp ! (t + 1)" by simp
      with nxt show ?thesis by simp
    qed
  qed
qed

lemma lineLen_nonneg:
  assumes "0 \<le> spaceWidth" and "i \<le> k"
  shows "0 \<le> lineLen spaceWidth ww i (Suc k)"
proof -
  have "0 \<le> sum_list (map (\<lambda>t. uint (ww ! t)) [i ..< Suc k])"
    by (rule sum_list_nonneg) auto
  moreover from assms have "0 \<le> (int (Suc k - i) - 1) * spaceWidth"
    by (intro mult_nonneg_nonneg) simp_all
  ultimately show ?thesis unfolding lineLen_def by simp
qed

lemma remainingSpace_exact:
  assumes "0 \<le> spaceWidth" and "pageWidth < 2 ^ 31" and "i \<le> k"
    and "reached pageWidth spaceWidth ww i k"
  shows "sint (word_of_int (pageWidth - lineLen spaceWidth ww i (Suc k)) :: 32 word)
           = pageWidth - lineLen spaceWidth ww i (Suc k)"
    and "0 \<le> pageWidth - lineLen spaceWidth ww i (Suc k)"
proof -
  from assms(3,4) have "lineLen spaceWidth ww i (Suc k) \<le> pageWidth"
    by (simp add: reached_def)
  then show nn: "0 \<le> pageWidth - lineLen spaceWidth ww i (Suc k)" by simp
  define d where "d = pageWidth - lineLen spaceWidth ww i (Suc k)"
  from lineLen_nonneg [OF assms(1,3), of ww] assms(2) nn
  have d: "0 \<le> d" "d < 2 ^ 31" by (simp_all add: d_def)
  have "sint (word_of_int d :: 32 word) = signed_take_bit 31 d"
    by (simp add: sint_sbintrunc')
  also have "\<dots> = d" by (rule signed_take_bit_31_small [OF d])
  finally show "sint (word_of_int (pageWidth - lineLen spaceWidth ww i (Suc k)) :: 32 word)
           = pageWidth - lineLen spaceWidth ww i (Suc k)"
    unfolding d_def .
qed

text \<open>
  \<^bold>\<open>C7\<close> (cost saturation). The cost of a line is formed in 64 bits and is, read as a
  signed number, the smaller of \<open>MAX_COST\<close> and the exact value of
  \<open>remainingSpace\<^sup>2 + dp[j + 1]\<close>, for all 32-bit values; for a line that the loop gets to,
  a space width that is not negative and a page width below \<open>2\<^sup>3\<^sup>1\<close> the remaining space is
  the page width minus the length of the line, and not negative. The tables \<open>dp\<close> and \<open>ans\<close> that
  \<^verbatim>\<open>computeLineBreaks\<close> fills and reads its breaks from are, for every page width, space
  width and vector of widths, such that every entry of \<open>dp\<close> is at least 0 and below
  \<open>MAX_COST\<close>: none has wrapped. The entry of the last word is 0. For another word \<open>i\<close>, when
  one of the lines from \<open>i\<close> that the loop gets to (all shorter ones fit the page as well)
  has an exact cost below \<open>MAX_COST\<close>, the entry is the exact cost of the line that \<open>ans\<close>
  names, which is one of them, and no such line has a smaller exact cost; when every
  such cost reaches \<open>MAX_COST\<close>, or there is none, no cost is stored: \<open>ans\<close> names the line of
  the one word and the entry is the one of the next word.
\<close>

theorem stored_costs_never_wrap:
  "sint (lineCost remainingSpace dpNext)
     = min (sint MAX_COST) (sint remainingSpace * sint remainingSpace + sint dpNext)
   \<and> (0 \<le> spaceWidth \<and> pageWidth < 2 ^ 31 \<and> i \<le> k \<and> reached pageWidth spaceWidth ww i k
      \<longrightarrow> sint (word_of_int (pageWidth - lineLen spaceWidth ww i (Suc k)) :: 32 word)
            = pageWidth - lineLen spaceWidth ww i (Suc k)
        \<and> 0 \<le> pageWidth - lineLen spaceWidth ww i (Suc k))
   \<and> (words pt \<noteq> [] \<and> splitOversized E renderer fontId pageWidth 0 pt wordWidths = (pt', ww)
        \<and> n = length (words pt')
      \<longrightarrow> computeLineBreaks E renderer fontId pageWidth spaceWidth pt wordWidths
            = (reconstruct (snd (dpTables pageWidth spaceWidth ww n)) n 0 [], pt', ww))
   \<and> (i < n \<and> dpTables pageWidth spaceWidth ww n = (dp, ans)
      \<longrightarrow> 0 \<le> sint (dp ! i) \<and> sint (dp ! i) < sint MAX_COST
        \<and> (if i = n - 1 then dp ! i = 0 \<and> ans ! i = i
            else if \<exists>k \<in> set [i ..< n]. reached pageWidth spaceWidth ww i k
                       \<and> exactCost pageWidth spaceWidth ww n dp i k < sint MAX_COST
            then i \<le> ans ! i \<and> ans ! i < n \<and> reached pageWidth spaceWidth ww i (ans ! i)
                 \<and> sint (dp ! i) = exactCost pageWidth spaceWidth ww n dp i (ans ! i)
                 \<and> (\<forall>k \<in> set [i ..< n]. reached pageWidth spaceWidth ww i k
                        \<longrightarrow> sint (dp ! i) \<le> exactCost pageWidth spaceWidth ww n dp i k)
            else ans ! i = i \<and> dp ! i = dp ! (i + 1)))"
proof (intro conjI impI)
  show "sint (lineCost remainingSpace dpNext)
     = min (sint MAX_COST) (sint remainingSpace * sint remainingSpace + sint dpNext)"
    by (rule lineCost_sint)
next
  assume "0 \<le> spaceWidth \<and> pageWidth < 2 ^ 31 \<and> i \<le> k \<and> reached pageWidth spaceWidth ww i k"
  then have h: "0 \<le> spaceWidth" "pageWidth < 2 ^ 31" "i \<le> k" "reached pageWidth spaceWidth ww i k"
    by blast+
  from remainingSpace_exact [OF h]
  show "sint (word_of_int (pageWidth - lineLen spaceWidth ww i (Suc k)) :: 32 word)
            = pageWidth - lineLen spaceWidth ww i (Suc k)"
    and "0 \<le> pageWidth - lineLen spaceWidth ww i (Suc k)" .
next
  assume "words pt \<noteq> [] \<and> splitOversized E renderer fontId pageWidth 0 pt wordWidths = (pt', ww)
        \<and> n = length (words pt')"
  then have ne: "words pt \<noteq> []"
    and so: "splitOversized E renderer fontId pageWidth 0 pt wordWidths = (pt', ww)"
    and n: "n = length (words pt')"
    by blast+
  show "computeLineBreaks E renderer fontId pageWidth spaceWidth pt wordWidths
            = (reconstruct (snd (dpTables pageWidth spaceWidth ww n)) n 0 [], pt', ww)"
    unfolding n by (rule computeLineBreaks_unfold [OF ne so])
next
  assume a: "i < n \<and> dpTables pageWidth spaceWidth ww n = (dp, ans)"
  then have i: "i < n" and T: "dpTables pageWidth spaceWidth ww n = (dp, ans)" by blast+
  from i have n: "0 < n" by simp
  from T have dp: "fst (dpTables pageWidth spaceWidth ww n) = dp"
    and ans: "snd (dpTables pageWidth spaceWidth ww n) = ans"
    by simp_all
  note tc = dpTables_costs [OF n, of pageWidth spaceWidth ww, unfolded dp ans]
  from dpTables_range [OF i, of pageWidth spaceWidth ww]
  show "0 \<le> sint (dp ! i)" "sint (dp ! i) < sint MAX_COST"
    unfolding dp by simp_all
  show "if i = n - 1 then dp ! i = 0 \<and> ans ! i = i
            else if \<exists>k \<in> set [i ..< n]. reached pageWidth spaceWidth ww i k
                       \<and> exactCost pageWidth spaceWidth ww n dp i k < sint MAX_COST
            then i \<le> ans ! i \<and> ans ! i < n \<and> reached pageWidth spaceWidth ww i (ans ! i)
                 \<and> sint (dp ! i) = exactCost pageWidth spaceWidth ww n dp i (ans ! i)
                 \<and> (\<forall>k \<in> set [i ..< n]. reached pageWidth spaceWidth ww i k
                        \<longrightarrow> sint (dp ! i) \<le> exactCost pageWidth spaceWidth ww n dp i k)
            else ans ! i = i \<and> dp ! i = dp ! (i + 1)"
  proof (cases "i = n - 1")
    case True
    with tc(2,3) show ?thesis by simp
  next
    case False
    with i have i1: "i < n - 1" "i + 1 < n" by simp_all
    from tc(4) i1(1) have entry: "dpEntry pageWidth spaceWidth ww n (dp, ans) i"
      unfolding T by blast
    have cond: "(\<exists>k \<in> set [i ..< n]. reached pageWidth spaceWidth ww i k
                       \<and> exactCost pageWidth spaceWidth ww n dp i k < sint MAX_COST)
        = (\<exists>k \<in> set [i ..< n]. reached pageWidth spaceWidth ww i k
            \<and> candidateCost pageWidth spaceWidth ww n dp i k \<noteq> MAX_COST)"
      by (simp add: candidate_saturated)
    show ?thesis
    proof (cases "\<exists>k \<in> set [i ..< n]. reached pageWidth spaceWidth ww i k
            \<and> candidateCost pageWidth spaceWidth ww n dp i k \<noteq> MAX_COST")
      case True
      note e = dpEntry_some [OF entry True]
      from e(4,5) have ne: "candidateCost pageWidth spaceWidth ww n dp i (ans ! i) \<noteq> MAX_COST" by simp
      from sint_candidate_exact [OF ne] e(4)
      have ex: "sint (dp ! i) = exactCost pageWidth spaceWidth ww n dp i (ans ! i)" by simp
      have least': "\<forall>k \<in> set [i ..< n]. reached pageWidth spaceWidth ww i k
                        \<longrightarrow> sint (dp ! i) \<le> exactCost pageWidth spaceWidth ww n dp i k"
      proof (intro ballI impI)
        fix k assume "k \<in> set [i ..< n]" "reached pageWidth spaceWidth ww i k"
        with e(6) have "sint (dp ! i) \<le> sint (candidateCost pageWidth spaceWidth ww n dp i k)" by blast
        then show "sint (dp ! i) \<le> exactCost pageWidth spaceWidth ww n dp i k"
          unfolding sint_candidateCost by simp
      qed
      from True have c: "\<exists>k \<in> set [i ..< n]. reached pageWidth spaceWidth ww i k
                       \<and> exactCost pageWidth spaceWidth ww n dp i k < sint MAX_COST"
        unfolding cond .
      show ?thesis
        unfolding if_not_P [OF False] if_P [OF c]
        by (intro conjI) (rule e(1,2,3) ex least')+
    next
      case F: False
      from dpEntry_none [OF entry F] i1(2) have e: "ans ! i = i \<and> dp ! i = dp ! (i + 1)"
        by simp
      from F have c: "\<not> (\<exists>k \<in> set [i ..< n]. reached pageWidth spaceWidth ww i k
                       \<and> exactCost pageWidth spaceWidth ww n dp i k < sint MAX_COST)"
        unfolding cond .
      show ?thesis
        unfolding if_not_P [OF False] if_not_P [OF c] by (rule e)
    qed
  qed
qed

theorem stored_costs_never_wrap_witness:
  "dpTables 100 5 [40, 40, 40, 20] 4 = ([225, 225, 0, 0], [1, 2, 3, 3])
   \<and> exactCost 100 5 [40, 40, 40, 20] 4 [225, 225, 0, 0] 0 0 = 3825
   \<and> exactCost 100 5 [40, 40, 40, 20] 4 [225, 225, 0, 0] 0 1 = 225
   \<and> sint ([225, 225, 0, 0 :: 32 word] ! 0)
       = exactCost 100 5 [40, 40, 40, 20] 4 [225, 225, 0, 0] 0 ([1, 2, 3, 3] ! 0)
   \<and> dpTables 65535 5 [10, 10, 65535] 3 = ([0, 0, 0], [0, 1, 2])
   \<and> exactCost 65535 5 [10, 10, 65535] 3 [0, 0, 0] 1 1 = 4293525625
   \<and> sint MAX_COST < 4293525625
   \<and> [0, 1, 2] ! 1 = (1 :: nat)
   \<and> [0, 0, 0 :: 32 word] ! 1 = [0, 0, 0] ! (1 + 1)"
proof -
  have t1: "dpTables 100 5 [40, 40, 40, 20] 4 = ([225, 225, 0, 0], [1, 2, 3, 3])"
    by code_simp
  have e0: "exactCost 100 5 [40, 40, 40, 20] 4 [225, 225, 0, 0] 0 0 = 3825"
    and e1: "exactCost 100 5 [40, 40, 40, 20] 4 [225, 225, 0, 0] 0 1 = 225"
    by code_simp+
  have c1: "\<exists>k \<in> set [0 ..< 4]. reached 100 5 [40, 40, 40, 20] 0 k
              \<and> exactCost 100 5 [40, 40, 40, 20] 4 [225, 225, 0, 0] 0 k < sint MAX_COST"
    by code_simp
  have n1: "(0 :: nat) \<noteq> 4 - 1" "(0 :: nat) < 4" by simp_all
  note r1 = stored_costs_never_wrap [where i = 0 and n = 4 and pageWidth = 100 and spaceWidth = 5
      and ww = "[40, 40, 40, 20]" and dp = "[225, 225, 0, 0]" and ans = "[1, 2, 3, 3]",
      THEN conjunct2, THEN conjunct2, THEN conjunct2, THEN mp, OF conjI [OF n1(2) t1],
      THEN conjunct2, THEN conjunct2,
      unfolded if_not_P [OF n1(1)] if_P [OF c1]]
  from r1 have x1: "sint ([225, 225, 0, 0 :: 32 word] ! 0)
                 = exactCost 100 5 [40, 40, 40, 20] 4 [225, 225, 0, 0] 0 ([1, 2, 3, 3] ! 0)"
    by blast
  have t2: "dpTables 65535 5 [10, 10, 65535] 3 = ([0, 0, 0], [0, 1, 2])"
    by code_simp
  have e2: "exactCost 65535 5 [10, 10, 65535] 3 [0, 0, 0] 1 1 = 4293525625"
    by code_simp
  have m: "sint MAX_COST < 4293525625" by (simp add: sint_MAX_COST)
  have c2: "\<not> (\<exists>k \<in> set [1 ..< 3]. reached 65535 5 [10, 10, 65535] 1 k
              \<and> exactCost 65535 5 [10, 10, 65535] 3 [0, 0, 0] 1 k < sint MAX_COST)"
    by code_simp
  have n2: "(1 :: nat) \<noteq> 3 - 1" "(1 :: nat) < 3" by simp_all
  note r2 = stored_costs_never_wrap [where i = 1 and n = 3 and pageWidth = 65535 and spaceWidth = 5
      and ww = "[10, 10, 65535]" and dp = "[0, 0, 0]" and ans = "[0, 1, 2]",
      THEN conjunct2, THEN conjunct2, THEN conjunct2, THEN mp, OF conjI [OF n2(2) t2],
      THEN conjunct2, THEN conjunct2,
      unfolded if_not_P [OF n2(1)] if_not_P [OF c2]]
  from r2 have x2: "[0, 1, 2] ! 1 = (1 :: nat)" "[0, 0, 0 :: 32 word] ! 1 = [0, 0, 0] ! (1 + 1)"
    by blast+
  show ?thesis
    by (intro conjI) (rule t1 e0 e1 x1 t2 e2 m x2)+
qed

end
